(* ===== verification/Prelude.thy ===== *)
theory Prelude
  imports Main "HOL-Library.Word"
begin

text \<open>
  Prelude of the development: the vocabulary every component shares.

  \<^item> \<open>c_error\<close> and \<open>res\<close>: what an expression of the C source does when it has
    no defined result.  Every load, store and string read of the model goes through the checked
    operations below, so an access past the end of an array, a null pointer or an indeterminate
    value is a value of the model and not a silent default of HOL.
  \<^item> Arrays as lists with checked \<open>load\<close> and \<open>store\<close>.
  \<^item> Character buffers and the part of the C string library the programs call:
    \<open>cstr\<close> (reading a terminated string out of a buffer), \<open>strcpy\<close>, \<open>strcat\<close>,
    \<open>strcmp\<close>, \<open>memset\<close>.
  \<^item> The collections \<open>bind_simps\<close> and \<open>buf_simps\<close>, which the component theories
    pass to the simplifier.
\<close>

named_theorems bind_simps \<open>evaluation of the error monad\<close>
named_theorems buf_simps \<open>evaluation of checked arrays and character buffers\<close>

section \<open>Undefined behaviour as a value\<close>

datatype c_error =
    OutOfBounds      \<comment> \<open>access outside an array or past the end of a string buffer\<close>
  | NullDeref        \<comment> \<open>null pointer handed to a dereference or a string function\<close>
  | Uninitialised    \<comment> \<open>indeterminate value read\<close>
  | Arithmetic       \<comment> \<open>signed overflow, or division by zero\<close>

type_synonym 'a res = "c_error + 'a"

fun bindE :: "'a res \<Rightarrow> ('a \<Rightarrow> 'b res) \<Rightarrow> 'b res" where
  "bindE (Inl e) f = Inl e"
| "bindE (Inr x) f = f x"

lemma bindE_Inr_iff [bind_simps]:
  "bindE r f = Inr y \<longleftrightarrow> (\<exists>x. r = Inr x \<and> f x = Inr y)"
  by (cases r) auto

lemma bindE_Inl_iff [bind_simps]:
  "bindE r f = Inl e \<longleftrightarrow> r = Inl e \<or> (\<exists>x. r = Inr x \<and> f x = Inl e)"
  by (cases r) auto

lemma bindE_cong [fundef_cong]:
  "r = r' \<Longrightarrow> (\<And>x. r' = Inr x \<Longrightarrow> f x = g x) \<Longrightarrow> bindE r f = bindE r' g"
  by (cases r') auto

lemma bindE_assoc: "bindE (bindE r f) g = bindE r (\<lambda>x. bindE (f x) g)"
  by (cases r) auto

lemma bindE_Inr_right [simp]: "bindE r Inr = r"
  by (cases r) auto

section \<open>Checked arrays\<close>

definition load :: "'a list \<Rightarrow> nat \<Rightarrow> 'a res" where
  "load xs i = (if i < length xs then Inr (xs ! i) else Inl OutOfBounds)"

definition store :: "'a list \<Rightarrow> nat \<Rightarrow> 'a \<Rightarrow> 'a list res" where
  "store xs i v = (if i < length xs then Inr (xs[i := v]) else Inl OutOfBounds)"

lemma load_in [buf_simps]: "i < length xs \<Longrightarrow> load xs i = Inr (xs ! i)"
  by (simp add: load_def)

lemma load_out [buf_simps]: "length xs \<le> i \<Longrightarrow> load xs i = Inl OutOfBounds"
  by (simp add: load_def)

lemma store_in [buf_simps]: "i < length xs \<Longrightarrow> store xs i v = Inr (xs[i := v])"
  by (simp add: store_def)

lemma store_out [buf_simps]: "length xs \<le> i \<Longrightarrow> store xs i v = Inl OutOfBounds"
  by (simp add: store_def)

lemma load_append_right: "load (xs @ ys) (length xs + i) = load ys i"
  by (auto simp: load_def nth_append)

lemma load_append_length [simp]: "load (xs @ y # ys) (length xs) = Inr y"
  by (simp add: load_def)

lemma store_append_length [simp]: "store (xs @ y # ys) (length xs) v = Inr (xs @ v # ys)"
  by (simp add: store_def)

lemma store_length: "store xs i v = Inr ys \<Longrightarrow> length ys = length xs"
  by (auto simp: store_def split: if_splits)

section \<open>Character buffers and C strings\<close>

text \<open>
  A C string value is the list of its characters before the terminator; a buffer is a list of
  characters of the array's length.  \<open>cstr\<close> reads the string a buffer holds and fails when
  the array has no terminator, where the C library would read on past it.
\<close>

abbreviation NUL :: char where "NUL \<equiv> CHR 0x00"

abbreviation NL :: char where "NL \<equiv> CHR 0x0A"

definition nul_free :: "string \<Rightarrow> bool" where
  "nul_free s \<longleftrightarrow> NUL \<notin> set s"

definition upto_nul :: "char list \<Rightarrow> string" where
  "upto_nul b = takeWhile (\<lambda>c. c \<noteq> NUL) b"

definition cstr :: "char list \<Rightarrow> string res" where
  "cstr b = (if NUL \<in> set b then Inr (upto_nul b) else Inl OutOfBounds)"

definition zeros :: "nat \<Rightarrow> char list" where
  "zeros n = replicate n NUL"

text \<open>\<open>strcpy\<close> into a buffer: the string, its terminator, and the old bytes behind them.\<close>

definition strcpy :: "char list \<Rightarrow> string \<Rightarrow> char list res" where
  "strcpy b s = (if length s < length b
     then Inr (s @ NUL # drop (Suc (length s)) b) else Inl OutOfBounds)"

definition strcat :: "char list \<Rightarrow> string \<Rightarrow> char list res" where
  "strcat b s = bindE (cstr b) (\<lambda>old. strcpy b (old @ s))"

text \<open>The fixed-size buffer that holds \<open>s\<close> and only terminators behind it.\<close>

definition pad :: "nat \<Rightarrow> string \<Rightarrow> char list" where
  "pad n s = s @ replicate (n - length s) NUL"

lemma nul_free_simps [simp]:
  "nul_free []" "nul_free (c # s) \<longleftrightarrow> c \<noteq> NUL \<and> nul_free s"
  "nul_free (s @ t) \<longleftrightarrow> nul_free s \<and> nul_free t"
  by (auto simp: nul_free_def)

lemma upto_nul_append_nul [simp]: "nul_free s \<Longrightarrow> upto_nul (s @ NUL # r) = s"
  by (induction s) (auto simp: upto_nul_def)

lemma upto_nul_ident: "nul_free s \<Longrightarrow> upto_nul s = s"
  by (induction s) (auto simp: upto_nul_def)

lemma nul_free_upto_nul [simp]: "nul_free (upto_nul b)"
  by (induction b) (auto simp: upto_nul_def)

lemma length_upto_nul_le: "length (upto_nul b) \<le> length b"
  by (simp add: upto_nul_def length_takeWhile_le)

lemma length_upto_nul_less: "NUL \<in> set b \<Longrightarrow> length (upto_nul b) < length b"
  by (induction b) (auto simp: upto_nul_def)

lemma cstr_append_nul [buf_simps, simp]: "nul_free s \<Longrightarrow> cstr (s @ NUL # r) = Inr s"
  by (simp add: cstr_def)

lemma cstr_Inr_nul_free: "cstr b = Inr s \<Longrightarrow> nul_free s"
  by (auto simp: cstr_def split: if_splits)

lemma cstr_Inr_length: "cstr b = Inr s \<Longrightarrow> length s < length b"
  by (auto simp: cstr_def length_upto_nul_less split: if_splits)

lemma cstr_Inr_split: "cstr b = Inr s \<Longrightarrow> \<exists>r. b = s @ NUL # r"
proof (induction b arbitrary: s)
  case Nil
  then show ?case by (simp add: cstr_def)
next
  case (Cons c b)
  show ?case
  proof (cases "c = NUL")
    case True
    with Cons.prems show ?thesis by (auto simp: cstr_def upto_nul_def)
  next
    case False
    with Cons.prems obtain s' where "s = c # s'" "cstr b = Inr s'"
      by (auto simp: cstr_def upto_nul_def split: if_splits)
    with Cons.IH show ?thesis by fastforce
  qed
qed

lemma cstr_zeros [buf_simps]: "0 < n \<Longrightarrow> cstr (zeros n) = Inr []"
  by (cases n) (auto simp: cstr_def zeros_def upto_nul_def)

lemma length_zeros [simp]: "length (zeros n) = n"
  by (simp add: zeros_def)

lemma strcpy_ok [buf_simps]:
  "length s < length b \<Longrightarrow> strcpy b s = Inr (s @ NUL # drop (Suc (length s)) b)"
  by (simp add: strcpy_def)

lemma strcpy_overflow [buf_simps]: "length b \<le> length s \<Longrightarrow> strcpy b s = Inl OutOfBounds"
  by (simp add: strcpy_def)

lemma strcpy_length: "strcpy b s = Inr b' \<Longrightarrow> length b' = length b"
  by (auto simp: strcpy_def split: if_splits)

lemma strcpy_cstr: "strcpy b s = Inr b' \<Longrightarrow> nul_free s \<Longrightarrow> cstr b' = Inr s"
  by (auto simp: strcpy_def split: if_splits)

lemma length_pad [simp]: "length s \<le> n \<Longrightarrow> length (pad n s) = n"
  by (simp add: pad_def)

lemma pad_nul_split: "length s < n \<Longrightarrow> pad n s = s @ NUL # replicate (n - Suc (length s)) NUL"
  by (simp add: pad_def Suc_diff_Suc flip: replicate_Suc)

lemma cstr_pad [buf_simps]: "nul_free s \<Longrightarrow> length s < n \<Longrightarrow> cstr (pad n s) = Inr s"
  by (simp add: pad_nul_split)

lemma strcpy_zeros: "length s < n \<Longrightarrow> strcpy (zeros n) s = Inr (pad n s)"
  by (simp add: strcpy_def zeros_def pad_nul_split)

section \<open>String comparison\<close>

text \<open>
  \<open>strcmp\<close> compares as unsigned bytes; a string that ends first is smaller.  Only the sign of
  the result is used by the programs.
\<close>

fun strcmp :: "string \<Rightarrow> string \<Rightarrow> int" where
  "strcmp [] [] = 0"
| "strcmp [] (b # bs) = - 1"
| "strcmp (a # as) [] = 1"
| "strcmp (a # as) (b # bs) =
     (if a = b then strcmp as bs
      else if (of_char a :: nat) < of_char b then - 1 else 1)"

lemma strcmp_eq_0 [simp]: "strcmp a b = 0 \<longleftrightarrow> a = b"
  by (induction a b rule: strcmp.induct) auto

lemma strcmp_refl [simp]: "strcmp a a = 0"
  by simp

lemma strcmp_antisym: "strcmp b a = - strcmp a b"
proof (induction a b rule: strcmp.induct)
  case (4 a as b bs)
  have "of_char a = (of_char b :: nat) \<longleftrightarrow> a = b" by simp
  with 4 show ?case by (auto simp: linorder_neq_iff dest: less_asym)
qed auto

lemma strcmp_trans: "strcmp a b \<le> 0 \<Longrightarrow> strcmp b c \<le> 0 \<Longrightarrow> strcmp a c \<le> 0"
proof (induction a b arbitrary: c rule: strcmp.induct)
  case (2 b bs)
  then show ?case by (cases c) auto
next
  case (4 a as b bs)
  then show ?case
    by (cases c) (auto split: if_splits)
qed (auto split: if_splits)

lemma strcmp_less_trans: "strcmp a b < 0 \<Longrightarrow> strcmp b c \<le> 0 \<Longrightarrow> strcmp a c < 0"
  using strcmp_trans [of a b c] strcmp_trans [of c a b] strcmp_antisym [of b a]
    strcmp_antisym [of c a] strcmp_antisym [of c b] strcmp_eq_0 [of a c]
  by (smt (verit) strcmp_antisym strcmp_trans)

text \<open>The order of \<open>strcmp\<close> as a linear order, for the library's facts on sorted lists.\<close>

datatype ckey = Key string

instantiation ckey :: linorder
begin

definition less_eq_ckey :: "ckey \<Rightarrow> ckey \<Rightarrow> bool" where
  "less_eq_ckey a b = (case a of Key s \<Rightarrow> case b of Key t \<Rightarrow> strcmp s t \<le> 0)"

definition less_ckey :: "ckey \<Rightarrow> ckey \<Rightarrow> bool" where
  "less_ckey a b = (case a of Key s \<Rightarrow> case b of Key t \<Rightarrow> strcmp s t < 0)"

instance
proof
  fix a b c :: ckey
  obtain s t u where k: "a = Key s" "b = Key t" "c = Key u" by (meson ckey.exhaust)
  show "a < b \<longleftrightarrow> a \<le> b \<and> \<not> b \<le> a"
    using strcmp_antisym [of s t] by (auto simp: k less_eq_ckey_def less_ckey_def)
  show "a \<le> a" by (simp add: k less_eq_ckey_def)
  show "a \<le> b \<Longrightarrow> b \<le> c \<Longrightarrow> a \<le> c" using strcmp_trans [of s t u] by (simp add: k less_eq_ckey_def)
  show "a \<le> b \<Longrightarrow> b \<le> a \<Longrightarrow> a = b"
    using strcmp_antisym [of s t] strcmp_eq_0 [of s t] by (simp add: k less_eq_ckey_def)
  show "a \<le> b \<or> b \<le> a"
    using strcmp_antisym [of s t] by (auto simp: k less_eq_ckey_def)
qed

end

lemma Key_less [simp]: "Key s < Key t \<longleftrightarrow> strcmp s t < 0"
  by (simp add: less_ckey_def)

lemma Key_le [simp]: "Key s \<le> Key t \<longleftrightarrow> strcmp s t \<le> 0"
  by (simp add: less_eq_ckey_def)

end
