(* ===== verification/CLib.thy ===== *)
theory CLib
  imports Prelude
begin

text \<open>
  The part of the C standard library the programs call on text: character classes, decimal
  printing (\<open>%d\<close>), \<open>strtol\<close> and \<open>atoi\<close>, \<open>strtok\<close>, and the stdio calls
  \<open>getline\<close>, \<open>fgets\<close> and \<open>fread\<close> on an input stream.  The lemmas are the laws the
  components rely on: \<open>atoi\<close> inverts decimal printing, \<open>strtok\<close> makes progress, a line
  read is the text up to its newline.
\<close>

section \<open>Numbers in text\<close>

definition isspace :: "char \<Rightarrow> bool" where
  "isspace c \<longleftrightarrow> c \<in> {CHR '' '', CHR 0x09, CHR 0x0A, CHR 0x0B, CHR 0x0C, CHR 0x0D}"

text \<open>The value of a digit in any base up to 36; 99 for a character that is no digit.\<close>

definition dval :: "char \<Rightarrow> nat" where
  "dval c = (let k = of_char c in
     if 48 \<le> k \<and> k \<le> 57 then k - 48
     else if 97 \<le> k \<and> k \<le> 122 then k - 87
     else if 65 \<le> k \<and> k \<le> 90 then k - 55 else 99)"

definition digit :: "nat \<Rightarrow> char" where
  "digit n = char_of (48 + n)"

fun dec_nat :: "nat \<Rightarrow> string" where
  "dec_nat n = (if n < 10 then [digit n] else dec_nat (n div 10) @ [digit (n mod 10)])"

declare dec_nat.simps [simp del]

definition dec_int :: "int \<Rightarrow> string" where
  "dec_int i = (if i < 0 then CHR ''-'' # dec_nat (nat (- i)) else dec_nat (nat i))"

definition num_of :: "nat \<Rightarrow> string \<Rightarrow> nat" where
  "num_of b ds = foldl (\<lambda>a c. a * b + dval c) 0 ds"

definition LONG_MAX :: int where "LONG_MAX = 9223372036854775807"
definition LONG_MIN :: int where "LONG_MIN = - 9223372036854775808"
definition INT_MAX :: int where "INT_MAX = 2147483647"
definition INT_MIN :: int where "INT_MIN = - 2147483648"

definition strtol_sign :: "string \<Rightarrow> bool \<times> string" where
  "strtol_sign t = (case t of
      [] \<Rightarrow> (False, t)
    | c # r \<Rightarrow> if c = CHR ''-'' then (True, r) else if c = CHR ''+'' then (False, r) else (False, t))"

text \<open>
  The base that applies and the digits' text: base 0 reads it off the prefix, and the prefix
  \<open>0x\<close> counts only in front of a hexadecimal digit.
\<close>

fun strtol_base :: "nat \<Rightarrow> string \<Rightarrow> nat \<times> string" where
  "strtol_base base (z # x # d # r) =
     (if z = CHR ''0'' \<and> (x = CHR ''x'' \<or> x = CHR ''X'') \<and> dval d < 16 \<and> (base = 0 \<or> base = 16)
      then (16, d # r)
      else (if base = 0 then if z = CHR ''0'' then 8 else 10 else base, z # x # d # r))"
| "strtol_base base u =
     (if base = 0 then if u \<noteq> [] \<and> hd u = CHR ''0'' then 8 else 10 else base, u)"

text \<open>\<open>strtol(s, &end, base)\<close>: the value, the text at \<open>end\<close>, and whether \<open>errno\<close> is ERANGE.\<close>

definition strtol :: "string \<Rightarrow> nat \<Rightarrow> int \<times> string \<times> bool" where
  "strtol s base =
     (let (neg, u) = strtol_sign (dropWhile isspace s);
          (b, v) = strtol_base base u;
          ds = takeWhile (\<lambda>c. dval c < b) v;
          n = int (num_of b ds);
          i = (if neg then - n else n);
          rest = dropWhile (\<lambda>c. dval c < b) v
      in if ds = [] then (0, s, False)
         else if i < LONG_MIN then (LONG_MIN, rest, True)
         else if LONG_MAX < i then (LONG_MAX, rest, True)
         else (i, rest, False))"

definition to_int32 :: "int \<Rightarrow> int" where
  "to_int32 i = sint (word_of_int i :: 32 word)"

definition atoi :: "string \<Rightarrow> int" where
  "atoi s = to_int32 (fst (strtol s 10))"

lemma of_char_digit: "n < 10 \<Longrightarrow> (of_char (digit n) :: nat) = 48 + n"
  by (simp add: digit_def)

lemma dval_digit [simp]: "n < 10 \<Longrightarrow> dval (digit n) = n"
  by (simp add: dval_def Let_def of_char_digit)

lemma digit_not_space [simp]: "n < 10 \<Longrightarrow> \<not> isspace (digit n)"
  using of_char_digit [of n] by (auto simp: isspace_def)

lemma digit_ne_sign [simp]:
  "n < 10 \<Longrightarrow> digit n \<noteq> CHR ''-''" "n < 10 \<Longrightarrow> digit n \<noteq> CHR ''+''"
  "n < 10 \<Longrightarrow> digit n \<noteq> NUL" "n < 10 \<Longrightarrow> digit n \<noteq> NL"
  "n < 10 \<Longrightarrow> digit n \<noteq> CHR '' ''" "n < 10 \<Longrightarrow> digit n \<noteq> CHR 0x09"
  using of_char_digit [of n] by auto

definition decimal :: "string \<Rightarrow> bool" where
  "decimal s \<longleftrightarrow> s \<noteq> [] \<and> (\<forall>c \<in> set s. \<exists>n < 10. c = digit n)"

lemma decimal_dec_nat: "decimal (dec_nat n)"
proof (induction n rule: dec_nat.induct)
  case (1 n)
  show ?case
  proof (cases "n < 10")
    case True
    then show ?thesis by (subst dec_nat.simps) (auto simp: decimal_def)
  next
    case False
    with 1 have "decimal (dec_nat (n div 10))" by simp
    moreover have "\<exists>m < 10. digit (n mod 10) = digit m"
      by (rule exI [of _ "n mod 10"]) simp
    ultimately show ?thesis
      using False by (subst dec_nat.simps) (auto simp: decimal_def)
  qed
qed

lemma dec_nat_nonempty [simp]: "dec_nat n \<noteq> []"
  using decimal_dec_nat [of n] by (simp add: decimal_def)

lemma num_of_snoc: "num_of b (ds @ [c]) = num_of b ds * b + dval c"
  by (simp add: num_of_def)

lemma num_of_dec_nat: "num_of 10 (dec_nat n) = n"
proof (induction n rule: dec_nat.induct)
  case (1 n)
  show ?case
  proof (cases "n < 10")
    case True
    then show ?thesis by (subst dec_nat.simps) (simp add: num_of_def)
  next
    case False
    with 1 have IH: "num_of 10 (dec_nat (n div 10)) = n div 10" by simp
    from False show ?thesis by (subst dec_nat.simps) (simp add: num_of_snoc IH)
  qed
qed

lemma dec_int_inj: "dec_int i = dec_int j \<longleftrightarrow> i = j"
proof
  assume e: "dec_int i = dec_int j"
  have h: "dec_nat n \<noteq> CHR ''-'' # r" for n r
    using decimal_dec_nat [of n] digit_ne_sign by (cases "dec_nat n") (auto simp: decimal_def)
  have n: "dec_nat m = dec_nat n \<Longrightarrow> m = n" for m n using num_of_dec_nat by metis
  show "i = j"
    using e h h [symmetric] by (auto simp: dec_int_def dest!: n split: if_splits)
qed simp

lemma length_dec_nat_le: "n < 10 ^ k \<Longrightarrow> 0 < k \<Longrightarrow> length (dec_nat n) \<le> k"
proof (induction k arbitrary: n)
  case 0
  then show ?case by simp
next
  case (Suc k)
  show ?case
  proof (cases "n < 10")
    case True
    then show ?thesis by (subst dec_nat.simps) simp
  next
    case False
    with Suc.prems have "n div 10 < 10 ^ k" "0 < k"
      by (auto simp: less_mult_imp_div_less mult.commute intro: Nat.gr0I)
    with Suc.IH have "length (dec_nat (n div 10)) \<le> k" by blast
    with False show ?thesis by (subst dec_nat.simps) simp
  qed
qed

lemma decimal_takeWhile:
  assumes "decimal ds" and "r = [] \<or> \<not> dval (hd r) < 10"
  shows "takeWhile (\<lambda>c. dval c < 10) (ds @ r) = ds"
    and "dropWhile (\<lambda>c. dval c < 10) (ds @ r) = r"
proof -
  have "\<forall>c \<in> set ds. dval c < 10" using assms(1) by (auto simp: decimal_def)
  then show "takeWhile (\<lambda>c. dval c < 10) (ds @ r) = ds"
    and "dropWhile (\<lambda>c. dval c < 10) (ds @ r) = r"
    using assms(2) by (cases r; simp)+
qed

lemma decimal_head:
  assumes "decimal ds"
  shows "dropWhile isspace (ds @ r) = ds @ r" and "strtol_sign (ds @ r) = (False, ds @ r)"
proof -
  from assms obtain c cs n where "ds = c # cs" "c = digit n" "n < 10"
    by (cases ds) (auto simp: decimal_def)
  then show "dropWhile isspace (ds @ r) = ds @ r" and "strtol_sign (ds @ r) = (False, ds @ r)"
    by (auto simp: strtol_sign_def)
qed

lemma strtol_base_10 [simp]: "strtol_base 10 u = (10, u)"
  by (cases "(10 :: nat, u)" rule: strtol_base.cases) auto

lemma strtol_decimal:
  assumes "decimal ds" and "r = [] \<or> \<not> dval (hd r) < 10" and "int (num_of 10 ds) \<le> LONG_MAX"
  shows "strtol (ds @ r) 10 = (int (num_of 10 ds), r, False)"
  using assms decimal_head [OF assms(1), of r] decimal_takeWhile [OF assms(1,2)]
  by (auto simp: strtol_def Let_def decimal_def LONG_MIN_def)

lemma to_int32_ident: "INT_MIN \<le> i \<Longrightarrow> i \<le> INT_MAX \<Longrightarrow> to_int32 i = i"
  by (simp add: to_int32_def INT_MIN_def INT_MAX_def sint_sbintrunc' signed_take_bit_int_eq_self)

lemma to_int32_bounds: "INT_MIN \<le> to_int32 i \<and> to_int32 i \<le> INT_MAX"
  using sint_range_size [of "word_of_int i :: 32 word"]
  by (auto simp: to_int32_def INT_MIN_def INT_MAX_def word_size)

lemma atoi_dec_nat:
  assumes "int n \<le> INT_MAX" and "r = [] \<or> \<not> dval (hd r) < 10"
  shows "atoi (dec_nat n @ r) = int n"
proof -
  have "strtol (dec_nat n @ r) 10 = (int n, r, False)"
    using strtol_decimal [OF decimal_dec_nat assms(2), of n] assms(1)
    by (simp add: num_of_dec_nat LONG_MAX_def INT_MAX_def)
  with assms(1) show ?thesis
    by (simp add: atoi_def to_int32_ident INT_MIN_def)
qed

section \<open>Tokens\<close>

text \<open>
  \<open>strtok\<close>: skip delimiters; \<open>None\<close> (the null pointer) at the end of the string; otherwise the
  token up to the next delimiter, which is overwritten by a terminator.  The second component is
  the string at the saved pointer, where the next call with a null first argument goes on.
\<close>

definition strtok :: "char list \<Rightarrow> string \<Rightarrow> string option \<times> string" where
  "strtok d s =
     (let s' = dropWhile (\<lambda>c. c \<in> set d) s
      in if s' = [] then (None, [])
         else (Some (takeWhile (\<lambda>c. c \<notin> set d) s'), drop 1 (dropWhile (\<lambda>c. c \<notin> set d) s')))"

lemma strtok_shorter: "strtok d s = (Some t, s') \<Longrightarrow> length s' < length s"
proof -
  assume a: "strtok d s = (Some t, s')"
  let ?u = "dropWhile (\<lambda>c. c \<in> set d) s"
  from a have ne: "?u \<noteq> []" and s': "s' = drop 1 (dropWhile (\<lambda>c. c \<notin> set d) ?u)"
    by (auto simp: strtok_def Let_def split: if_splits)
  have "length (dropWhile (\<lambda>c. c \<notin> set d) ?u) \<le> length ?u" by (rule length_dropWhile_le)
  moreover have "length ?u \<le> length s" by (rule length_dropWhile_le)
  ultimately show ?thesis using ne s' by (cases "?u") auto
qed

lemma strtok_token:
  assumes "strtok d s = (Some t, s')"
  shows "t \<noteq> []" and "\<forall>c \<in> set t. c \<notin> set d"
proof -
  let ?u = "dropWhile (\<lambda>c. c \<in> set d) s"
  from assms have ne: "?u \<noteq> []" and t: "t = takeWhile (\<lambda>c. c \<notin> set d) ?u"
    by (auto simp: strtok_def Let_def split: if_splits)
  from ne have "hd ?u \<notin> set d" by (rule hd_dropWhile)
  with ne t show "t \<noteq> []" by (cases "?u") auto
  from t show "\<forall>c \<in> set t. c \<notin> set d" by (auto dest: set_takeWhileD)
qed

lemma strtok_word:
  "w \<noteq> [] \<Longrightarrow> \<forall>c \<in> set w. c \<notin> set d \<Longrightarrow> r = [] \<or> hd r \<in> set d \<Longrightarrow>
   strtok d (w @ r) = (Some w, drop 1 r)"
proof -
  assume w: "w \<noteq> []" "\<forall>c \<in> set w. c \<notin> set d" and r: "r = [] \<or> hd r \<in> set d"
  from w have "dropWhile (\<lambda>c. c \<in> set d) (w @ r) = w @ r" by (cases w) auto
  moreover from w r have "takeWhile (\<lambda>c. c \<notin> set d) (w @ r) = w" by (cases r) auto
  moreover from w r have "dropWhile (\<lambda>c. c \<notin> set d) (w @ r) = r" by (cases r) auto
  ultimately show ?thesis using w by (simp add: strtok_def)
qed

lemma strtok_skip: "c \<in> set d \<Longrightarrow> strtok d (c # s) = strtok d s"
  by (simp add: strtok_def)

section \<open>Input streams\<close>

text \<open>What is left to read, and the end-of-file indicator (set by a read that meets the end).\<close>

record stream =
  rest :: string
  ateof :: bool

definition fopen_stream :: "string \<Rightarrow> stream" where
  "fopen_stream s = \<lparr>rest = s, ateof = False\<rparr>"

definition getline :: "stream \<Rightarrow> string option \<times> stream" where
  "getline f =
     (if rest f = [] then (None, f\<lparr>ateof := True\<rparr>)
      else (let l = takeWhile (\<lambda>c. c \<noteq> NL) (rest f); r = dropWhile (\<lambda>c. c \<noteq> NL) (rest f)
            in if r = [] then (Some l, \<lparr>rest = [], ateof = True\<rparr>)
               else (Some (l @ [NL]), f\<lparr>rest := tl r\<rparr>)))"

definition fgets :: "nat \<Rightarrow> stream \<Rightarrow> string option \<times> stream" where
  "fgets n f =
     (if rest f = [] then (None, f\<lparr>ateof := True\<rparr>)
      else (let w = take (n - 1) (rest f) in
            if NL \<in> set w
            then (let l = takeWhile (\<lambda>c. c \<noteq> NL) w @ [NL] in (Some l, f\<lparr>rest := drop (length l) (rest f)\<rparr>))
            else (Some w, \<lparr>rest = drop (n - 1) (rest f), ateof = ateof f \<or> length (rest f) < n - 1\<rparr>)))"

text \<open>\<open>fread(buf, 1, n, f)\<close>: the buffer with the bytes read in front, how many, the stream.\<close>

definition fread :: "nat \<Rightarrow> char list \<Rightarrow> stream \<Rightarrow> char list \<times> nat \<times> stream" where
  "fread n buf f =
     (let got = take n (rest f)
      in (got @ drop (length got) buf, length got,
          \<lparr>rest = drop n (rest f), ateof = ateof f \<or> length got < n\<rparr>))"

lemma dropWhile_not_in: "x \<notin> set l \<Longrightarrow> dropWhile (\<lambda>c. c \<noteq> x) (l @ x # r) = x # r"
  by (induction l) auto

lemma takeWhile_not_in: "x \<notin> set l \<Longrightarrow> takeWhile (\<lambda>c. c \<noteq> x) (l @ x # r) = l"
  by (induction l) auto

lemma getline_line:
  "NL \<notin> set l \<Longrightarrow> rest f = l @ NL # r \<Longrightarrow> getline f = (Some (l @ [NL]), f\<lparr>rest := r\<rparr>)"
  by (simp add: getline_def takeWhile_not_in dropWhile_not_in)

lemma getline_end: "rest f = [] \<Longrightarrow> getline f = (None, f\<lparr>ateof := True\<rparr>)"
  by (simp add: getline_def)

lemma getline_shorter:
  "getline f = (Some l, f') \<Longrightarrow> length (rest f') < length (rest f)"
proof -
  assume a: "getline f = (Some l, f')"
  let ?r = "dropWhile (\<lambda>c. c \<noteq> NL) (rest f)"
  from a have ne: "rest f \<noteq> []" by (auto simp: getline_def)
  have le: "length ?r \<le> length (rest f)" by (rule length_dropWhile_le)
  show ?thesis
  proof (cases "?r = []")
    case True
    with a ne have "rest f' = []"
      by (auto simp: getline_def Let_def simp del: dropWhile_eq_Nil_conv)
    with ne show ?thesis by simp
  next
    case False
    then have "0 < length ?r" by simp
    moreover from False a ne have "rest f' = tl ?r"
      by (auto simp: getline_def Let_def simp del: dropWhile_eq_Nil_conv)
    ultimately show ?thesis using le by (cases ?r) auto
  qed
qed

lemma getline_None: "getline f = (None, f') \<Longrightarrow> rest f = [] \<and> f' = f\<lparr>ateof := True\<rparr>"
  by (auto simp: getline_def Let_def split: if_splits)

lemma fgets_line:
  assumes "NL \<notin> set l" and "Suc (length l) < n" and "rest f = l @ NL # r"
  shows "fgets n f = (Some (l @ [NL]), f\<lparr>rest := r\<rparr>)"
proof -
  have "take (n - 1) (l @ NL # r) = l @ NL # take (n - 1 - Suc (length l)) r"
    using assms(2) by (simp add: take_Cons' Suc_diff_Suc)
  with assms show ?thesis by (simp add: fgets_def Let_def takeWhile_not_in)
qed

lemma fgets_shorter:
  "1 < n \<Longrightarrow> fgets n f = (Some l, f') \<Longrightarrow> length (rest f') < length (rest f)"
  by (cases "rest f") (auto simp: fgets_def Let_def split: if_splits)

lemma fread_exact:
  "length a = n \<Longrightarrow> length buf = n \<Longrightarrow> rest f = a @ r \<Longrightarrow>
   fread n buf f = (a, n, f\<lparr>rest := r\<rparr>)"
  by (simp add: fread_def)

lemma fread_end:
  "rest f = [] \<Longrightarrow> fread n buf f = (buf, 0, \<lparr>rest = [], ateof = ateof f \<or> 0 < n\<rparr>)"
  by (simp add: fread_def)

end
