(* ===== verification/ShellParse.thy ===== *)
theory ShellParse
  imports CLib
begin

text \<open>
  The front end of the two shells (\<open>src/SP_HW2\<close>, \<open>src/SP_HW4/part2\<close>): \<open>parse.c\<close>,
  \<open>is_background.c\<close>, \<open>pipe_present.c\<close>, \<open>redirect_in.c\<close> and \<open>redirect_out.c\<close>.

  An argv array is a list of pointers, \<open>None\<close> the null pointer; a pointer into it is the list
  from that element on (for \<open>*ptr, ptr++\<close>) or an index (for \<open>myArgv[i]\<close>).  Walking past
  the array's end is \<open>OutOfBounds\<close>.  \<open>argv_wf\<close> says the array is null-terminated and
  \<open>args\<close> is the command it denotes; each operation is shown safe on well-formed arrays,
  characterised on \<open>args\<close>, and shown to keep \<open>argv_wf\<close>.
\<close>

section \<open>parse.c\<close>

type_synonym argv = "string option list"

text \<open>
  A string on the heap: the number of bytes asked from \<open>malloc\<close> and the text stored.  Both
  \<open>parse\<close> functions call \<open>malloc(strlen(token))\<close> and then \<open>strcpy\<close>; the store goes
  through, and \<open>overrun\<close> says how many bytes of it lie behind the block.
\<close>

record hstr =
  room :: nat
  chars :: string

definition malloc_strcpy :: "string \<Rightarrow> hstr" where
  "malloc_strcpy t = \<lparr>room = length t, chars = t\<rparr>"

definition overrun :: "hstr \<Rightarrow> nat" where
  "overrun h = Suc (length (chars h)) - room h"

definition delim :: "char list" where
  "delim = [CHR '' '', CHR 0x09, CHR 0x0A]"

text \<open>The loop \<open>while(token = strtok(NULL,delim))\<close> with the array grown by \<open>realloc\<close>.\<close>

function parse_more :: "string \<Rightarrow> hstr list \<Rightarrow> hstr list" where
  "parse_more s newArgv =
     (case strtok delim s of
        (None, _) \<Rightarrow> newArgv
      | (Some token, s') \<Rightarrow> parse_more s' (newArgv @ [malloc_strcpy token]))"
  by pat_completeness auto
termination
  by (relation "measure (\<lambda>(s, _). length s)") (auto dest: strtok_shorter [OF sym])

declare parse_more.simps [simp del]

text \<open>
  \<open>SP_HW4/part2/parse.c\<close>.  The result is the null pointer or the cells of the array, which the
  code null-terminates: \<open>argv_of\<close> is the array as the callers see it.
\<close>

definition parse4 :: "string option \<Rightarrow> hstr list option" where
  "parse4 line =
     (case line of
        None \<Rightarrow> None
      | Some l \<Rightarrow>
          if strcmp l [NL] = 0 then None
          else (case strtok delim l of
                  (None, _) \<Rightarrow> None
                | (Some token, s') \<Rightarrow> Some (parse_more s' [malloc_strcpy token])))"

definition argv_of :: "hstr list \<Rightarrow> argv" where
  "argv_of hs = map (\<lambda>h. Some (chars h)) hs @ [None]"

text \<open>
  \<open>SP_HW2/parse.c\<close> has no test for the empty line and prints every token as it is installed.
\<close>

definition parse_trace :: "nat \<Rightarrow> string \<Rightarrow> string" where
  "parse_trace i t = ''['' @ dec_nat i @ ''] : '' @ t @ [NL]"

function parse_more2 :: "string \<Rightarrow> nat \<Rightarrow> hstr list \<Rightarrow> string \<Rightarrow> hstr list \<times> string" where
  "parse_more2 s i newArgv out =
     (case strtok delim s of
        (None, _) \<Rightarrow> (newArgv, out)
      | (Some token, s') \<Rightarrow>
          parse_more2 s' (Suc i) (newArgv @ [malloc_strcpy token]) (out @ parse_trace (Suc i) token))"
  by pat_completeness auto
termination
  by (relation "measure (\<lambda>(s, _). length s)") (auto dest: strtok_shorter [OF sym])

declare parse_more2.simps [simp del]

definition parse2 :: "string option \<Rightarrow> hstr list option \<times> string" where
  "parse2 line =
     (case line of
        None \<Rightarrow> (None, [])
      | Some l \<Rightarrow>
          (case strtok delim l of
             (None, _) \<Rightarrow> (None, [])
           | (Some token, s') \<Rightarrow>
               (let (a, out) = parse_more2 s' 0 [malloc_strcpy token] (parse_trace 0 token)
                in (Some a, out))))"

text \<open>\<open>free_argv\<close>: the strings freed in order, up to the null pointer, and then the array.\<close>

fun free_argv :: "argv \<Rightarrow> string list res" where
  "free_argv [] = Inl OutOfBounds"
| "free_argv (None # _) = Inr []"
| "free_argv (Some s # ptr) = bindE (free_argv ptr) (\<lambda>freed. Inr (s # freed))"

section \<open>Null-terminated arrays\<close>

definition argv_wf :: "argv \<Rightarrow> bool" where
  "argv_wf a \<longleftrightarrow> None \<in> set a"

definition args :: "argv \<Rightarrow> string list" where
  "args a = map the (takeWhile (\<lambda>p. p \<noteq> None) a)"

lemma argv_wf_simps [simp]:
  "\<not> argv_wf []" "argv_wf (None # a)" "argv_wf (Some s # a) \<longleftrightarrow> argv_wf a"
  by (auto simp: argv_wf_def)

lemma args_simps [simp]:
  "args [] = []" "args (None # a) = []" "args (Some s # a) = s # args a"
  by (auto simp: args_def)

lemma argv_wf_args [simp]: "argv_wf (map Some ss @ None # r)" "args (map Some ss @ None # r) = ss"
  by (induction ss) (auto simp: argv_wf_def)

lemma argv_wf_decomp: "argv_wf a \<Longrightarrow> \<exists>r. a = map Some (args a) @ None # r"
proof (induction a)
  case Nil
  then show ?case by simp
next
  case (Cons p a)
  then show ?case by (cases p) auto
qed

lemma argv_of_map: "argv_of hs = map Some (map chars hs) @ [None]"
  by (simp add: argv_of_def)

lemma argv_wf_argv_of [simp]: "argv_wf (argv_of hs)" "args (argv_of hs) = map chars hs"
  by (simp_all only: argv_of_map argv_wf_args)

section \<open>is_background.c\<close>

text \<open>\<open>SP_HW2\<close>: 1 when some argument is \<open>&\<close>.\<close>

fun bg_scan2 :: "argv \<Rightarrow> int res" where
  "bg_scan2 [] = Inl OutOfBounds"
| "bg_scan2 (None # _) = Inr 0"
| "bg_scan2 (Some s # ptr) = (if strcmp s ''&'' = 0 then Inr 1 else bg_scan2 ptr)"

definition is_background2 :: "argv \<Rightarrow> int res" where
  "is_background2 myArgv =
     bindE (load myArgv 0) (\<lambda>p. if p = None then Inr 0 else bg_scan2 myArgv)"

text \<open>\<open>SP_HW4\<close>: the index of the first \<open>&\<close>, which is 0 both for "first" and for "none".\<close>

fun bg_scan4 :: "nat \<Rightarrow> argv \<Rightarrow> nat res" where
  "bg_scan4 i [] = Inl OutOfBounds"
| "bg_scan4 i (None # _) = Inr 0"
| "bg_scan4 i (Some s # ptr) = (if strcmp s ''&'' = 0 then Inr i else bg_scan4 (Suc i) ptr)"

definition is_background4 :: "argv \<Rightarrow> nat res" where
  "is_background4 myArgv =
     bindE (load myArgv 0) (\<lambda>p. if p = None then Inr 0 else bg_scan4 0 myArgv)"

section \<open>pipe_present.c\<close>

text \<open>
  The search loops \<open>for(i = 0; a[i]; i++) if(!strcmp(a[i],w)) break;\<close> of \<open>pipe_present\<close>,
  \<open>redirect_in\<close> and \<open>redirect_out\<close>: the index where the loop stops, which is that of the
  first \<open>w\<close> or of the null pointer.
\<close>

fun scan :: "string \<Rightarrow> nat \<Rightarrow> argv \<Rightarrow> nat res" where
  "scan w i [] = Inl OutOfBounds"
| "scan w i (None # _) = Inr i"
| "scan w i (Some s # ptr) = (if strcmp s w = 0 then Inr i else scan w (Suc i) ptr)"

text \<open>\<open>i = 0; while(a[i]) i++;\<close>\<close>

fun count_args :: "nat \<Rightarrow> argv \<Rightarrow> nat res" where
  "count_args i [] = Inl OutOfBounds"
| "count_args i (None # _) = Inr i"
| "count_args i (Some s # ptr) = count_args (Suc i) ptr"

text \<open>\<open>strcmp\<close> on a pointer of the array: a null pointer is undefined behaviour.\<close>

definition strcmp_ptr :: "string option \<Rightarrow> string \<Rightarrow> int res" where
  "strcmp_ptr p w = (case p of None \<Rightarrow> Inl NullDeref | Some s \<Rightarrow> Inr (strcmp s w))"

definition pipe_present :: "argv \<Rightarrow> int res" where
  "pipe_present a =
     bindE (scan ''|'' 0 a) (\<lambda>j.
     bindE (load a j) (\<lambda>pj.
     let not_find = (pj = None); index = (if pj = None then 0 else j) in
     bindE (count_args 0 a) (\<lambda>i.
     bindE (bindE (load a 0) (\<lambda>p. strcmp_ptr p ''|'')) (\<lambda>c0.
     if c0 = 0 then Inr (-1) else
     bindE (bindE (load a (i - 1)) (\<lambda>p. strcmp_ptr p ''|'')) (\<lambda>c1.
     if c1 = 0 then Inr (-1)
     else if not_find then Inr 0
     else Inr (int index))))))"

section \<open>redirect_in.c and redirect_out.c\<close>

text \<open>The calls that change the process's descriptors, in order.\<close>

datatype fdcall =
    CloseFd nat
  | Freopen "string option" string nat   \<comment> \<open>file name pointer, mode, descriptor of the stream\<close>

definition redirect :: "string \<Rightarrow> nat \<Rightarrow> string \<Rightarrow> argv \<Rightarrow> (int \<times> argv \<times> fdcall list) res" where
  "redirect w std mode myArgv =
     bindE (scan w 0 myArgv) (\<lambda>i.
     bindE (load myArgv i) (\<lambda>p.
     if p \<noteq> None then
       bindE (load myArgv (i + 1)) (\<lambda>file.
       bindE (store myArgv i None) (\<lambda>a1.
       bindE (store a1 (i + 1) None) (\<lambda>a2.
       Inr (0, a2, [CloseFd std, Freopen file mode std]))))
     else Inr (-1, myArgv, [])))"

definition redirect_in :: "argv \<Rightarrow> (int \<times> argv \<times> fdcall list) res" where
  "redirect_in = redirect ''<'' 0 ''r''"

definition redirect_out :: "argv \<Rightarrow> (int \<times> argv \<times> fdcall list) res" where
  "redirect_out = redirect ''>'' 1 ''w+''"


section \<open>The tokens of a line\<close>

text \<open>
  The reference: one pass over the line that collects the maximal runs of non-delimiters,
  \<open>cur\<close> being the run being read, in reverse.
\<close>

fun toks :: "char list \<Rightarrow> string \<Rightarrow> string \<Rightarrow> string list" where
  "toks d cur [] = (if cur = [] then [] else [rev cur])"
| "toks d cur (c # s) =
     (if c \<in> set d then (if cur = [] then toks d [] s else rev cur # toks d [] s)
      else toks d (c # cur) s)"

lemma toks_cur:
  "cur \<noteq> [] \<Longrightarrow> toks d cur s =
     (rev cur @ takeWhile (\<lambda>c. c \<notin> set d) s) # toks d [] (drop 1 (dropWhile (\<lambda>c. c \<notin> set d) s))"
proof (induction s arbitrary: cur)
  case Nil
  then show ?case by simp
next
  case (Cons c s)
  then show ?case by simp
qed

lemma toks_strtok:
  "toks d [] s = (case strtok d s of (None, _) \<Rightarrow> [] | (Some t, s') \<Rightarrow> t # toks d [] s')"
proof (induction s)
  case Nil
  then show ?case by (simp add: strtok_def)
next
  case (Cons c s)
  show ?case
  proof (cases "c \<in> set d")
    case True
    then show ?thesis using Cons.IH by (simp add: strtok_skip)
  next
    case False
    then have "strtok d (c # s) =
        (Some (c # takeWhile (\<lambda>c. c \<notin> set d) s), drop 1 (dropWhile (\<lambda>c. c \<notin> set d) s))"
      by (simp add: strtok_def)
    with False show ?thesis by (simp add: toks_cur)
  qed
qed

lemma parse_more_toks: "parse_more s acc = acc @ map malloc_strcpy (toks delim [] s)"
proof (induction s acc rule: parse_more.induct)
  case (1 s acc)
  show ?case
  proof (cases "strtok delim s")
    case (Pair o' s')
    with 1 show ?thesis
      by (cases o') (simp_all add: parse_more.simps [of s] toks_strtok [of delim s])
  qed
qed

lemma chars_malloc_strcpy [simp]: "chars (malloc_strcpy t) = t"
  by (simp add: malloc_strcpy_def)

lemma map_chars_malloc [simp]: "map (chars \<circ> malloc_strcpy) ts = ts"
  by (induction ts) auto

lemma delim_mem [simp]: "NL \<in> set delim" "CHR '' '' \<in> set delim" "CHR 0x09 \<in> set delim"
  by (simp_all add: delim_def)

lemma toks_newline: "toks delim [] [NL] = []"
  by (simp add: delim_def)

lemma parse4_toks:
  "parse4 (Some l) =
     (if toks delim [] l = [] then None else Some (map malloc_strcpy (toks delim [] l)))"
proof (cases "strtok delim l")
  case (Pair o' s')
  show ?thesis
  proof (cases o')
    case None
    with Pair show ?thesis by (simp add: parse4_def toks_strtok [of delim l])
  next
    case (Some t)
    with Pair have "toks delim [] l \<noteq> []" by (simp add: toks_strtok [of delim l])
    then have "l \<noteq> [NL]" using toks_newline by auto
    with Pair Some show ?thesis
      by (simp add: parse4_def parse_more_toks toks_strtok [of delim l])
  qed
qed

lemma parse_more2_fst: "fst (parse_more2 s i acc out) = parse_more s acc"
proof (induction s i acc out rule: parse_more2.induct)
  case (1 s i acc out)
  show ?case
  proof (cases "strtok delim s")
    case (Pair o' s')
    with 1 show ?thesis
      by (cases o') (simp_all add: parse_more.simps [of s] parse_more2.simps [of s])
  qed
qed

text \<open>
  C3: \<open>parse\<close> of \<open>SP_HW4\<close> returns the null pointer for a line without tokens and otherwise
  the array of the line's tokens, in order: the maximal runs of characters that are no blank, tab
  or newline.
\<close>

theorem parse4_tokens:
  "map_option (map chars) (parse4 (Some l)) =
     (if toks delim [] l = [] then None else Some (toks delim [] l))"
  by (simp add: parse4_toks)

text \<open>
  The two versions of \<open>parse\<close> return the same array for every line; the additional test
  for the line \<open>"\n"\<close> in \<open>SP_HW4\<close> changes nothing.
\<close>

theorem parse2_parse4: "fst (parse2 line) = parse4 line"
proof (cases line)
  case None
  then show ?thesis by (simp add: parse2_def parse4_def)
next
  case (Some l)
  obtain o' s' where p: "strtok delim l = (o', s')" by (cases "strtok delim l")
  show ?thesis
  proof (cases o')
    case None
    with Some p show ?thesis by (simp add: parse2_def parse4_def)
  next
    case (Some t)
    have "fst (parse2 (Some l)) = Some (parse_more s' [malloc_strcpy t])"
      using p Some parse_more2_fst [of s' 0 "[malloc_strcpy t]"]
      by (simp add: parse2_def Let_def split: prod.splits) (metis fst_conv)
    moreover have "parse4 (Some l) = Some (parse_more s' [malloc_strcpy t])"
      using p Some by (simp add: parse4_toks parse_more_toks toks_strtok [of delim l])
    ultimately show ?thesis using \<open>line = Some l\<close> by simp
  qed
qed

definition is_token :: "string \<Rightarrow> bool" where
  "is_token w \<longleftrightarrow> w \<noteq> [] \<and> (\<forall>c \<in> set w. c \<notin> set delim)"

fun join_with :: "string \<Rightarrow> string list \<Rightarrow> string" where
  "join_with sep [] = []"
| "join_with sep [w] = w"
| "join_with sep (w # ws) = w @ sep @ join_with sep ws"

lemma toks_word:
  "is_token w \<Longrightarrow> c \<in> set delim \<Longrightarrow> toks delim [] (w @ c # r) = w # toks delim [] r"
  using strtok_word [of w delim "c # r"] by (simp add: is_token_def toks_strtok [of delim "w @ c # r"])

lemma toks_join:
  "\<forall>w \<in> set ws. is_token w \<Longrightarrow> toks delim [] (join_with '' '' ws @ [NL]) = ws"
proof (induction "'' ''" ws rule: join_with.induct)
  case 1
  then show ?case by (simp add: toks_newline)
next
  case (2 w)
  then show ?case using toks_word [of w NL "[]"] by (simp add: toks_newline)
next
  case (3 w v ws)
  then show ?case using toks_word [of w "CHR '' ''"] by simp
qed

text \<open>
  C16: Writing a nonempty list of tokens as a line, separated by blanks, and parsing it gives the
  tokens back.
\<close>

theorem parse4_join_roundtrip:
  assumes "ws \<noteq> []" and "\<forall>w \<in> set ws. is_token w"
  shows "map_option (map chars) (parse4 (Some (join_with '' '' ws @ [NL]))) = Some ws"
  using assms by (simp add: parse4_toks toks_join)

theorem parse4_join_roundtrip_witness:
  "map_option (map chars) (parse4 (Some (join_with '' '' [''ls'', ''-l'', ''|'', ''wc''] @ [NL])))
     = Some [''ls'', ''-l'', ''|'', ''wc'']"
  by (rule parse4_join_roundtrip) (simp_all add: is_token_def delim_def)

text \<open>
  Every string of the array \<open>parse\<close> builds is stored one byte past the block allocated
  for it: \<open>malloc(strlen(token))\<close> leaves no room for the terminator.
\<close>

theorem parse4_overrun:
  assumes "parse4 line = Some hs" and "h \<in> set hs"
  shows "overrun h = 1"
proof -
  from assms(1) obtain l where "line = Some l" by (cases line) (auto simp: parse4_def)
  with assms show ?thesis
    by (auto simp: parse4_toks malloc_strcpy_def overrun_def split: if_splits)
qed

theorem parse4_overrun_witness:
  "\<exists>hs h. parse4 (Some ''ls'') = Some hs \<and> h \<in> set hs \<and> overrun h = 1"
proof -
  have p: "parse4 (Some ''ls'') = Some [malloc_strcpy ''ls'']"
    by (simp add: parse4_toks delim_def)
  show ?thesis using p parse4_overrun [OF p, of "malloc_strcpy ''ls''"] by auto
qed

lemma free_argv_frees: "argv_wf a \<Longrightarrow> free_argv a = Inr (args a)"
  by (induction a rule: free_argv.induct) auto

text \<open>
  \<open>free_argv\<close> on the array of \<open>parse\<close> frees exactly the strings \<open>parse\<close>
  allocated, each once and in order, and does not read past the array.
\<close>

theorem free_argv_parse:
  assumes "parse4 line = Some hs"
  shows "free_argv (argv_of hs) = Inr (map chars hs)"
  by (simp add: free_argv_frees)

theorem free_argv_parse_witness:
  "free_argv (argv_of (map malloc_strcpy [''a'', ''b''])) = Inr [''a'', ''b'']"
proof -
  have "parse4 (Some ''a b'') = Some (map malloc_strcpy [''a'', ''b''])"
    by (simp add: parse4_toks delim_def)
  from free_argv_parse [OF this] show ?thesis by simp
qed


section \<open>The scans\<close>

lemma scan_found:
  "w \<notin> set xs \<Longrightarrow> scan w i (map Some xs @ Some w # r) = Inr (i + length xs)"
  by (induction xs arbitrary: i) auto

lemma scan_absent:
  "w \<notin> set xs \<Longrightarrow> scan w i (map Some xs @ None # r) = Inr (i + length xs)"
  by (induction xs arbitrary: i) auto

lemma count_args_wf: "count_args i (map Some xs @ None # r) = Inr (i + length xs)"
  by (induction xs arbitrary: i) auto

lemma bg_scan2_wf: "argv_wf a \<Longrightarrow> bg_scan2 a = Inr (if ''&'' \<in> set (args a) then 1 else 0)"
  by (induction a rule: bg_scan2.induct) auto

lemma bg_scan4_found:
  "''&'' \<notin> set xs \<Longrightarrow> bg_scan4 i (map Some xs @ Some ''&'' # r) = Inr (i + length xs)"
  by (induction xs arbitrary: i) auto

lemma bg_scan4_absent:
  "''&'' \<notin> set xs \<Longrightarrow> bg_scan4 i (map Some xs @ None # r) = Inr 0"
  by (induction xs arbitrary: i) auto

lemma argv_wf_nonempty: "argv_wf a \<Longrightarrow> a \<noteq> []"
  by auto

lemma load_0_wf: "argv_wf a \<Longrightarrow> load a 0 = Inr (case args a of [] \<Rightarrow> None | s # _ \<Rightarrow> Some s)"
proof (induction a)
  case Nil
  then show ?case by simp
next
  case (Cons p a)
  then show ?case by (cases p) (auto simp: load_def)
qed

lemma is_background2_wf:
  "argv_wf a \<Longrightarrow> is_background2 a = Inr (if ''&'' \<in> set (args a) then 1 else 0)"
  by (auto simp: is_background2_def load_0_wf bg_scan2_wf split: list.splits)

lemma split_first: "w \<in> set xs \<Longrightarrow> \<exists>ys zs. xs = ys @ w # zs \<and> w \<notin> set ys"
  by (rule split_list_first)

text \<open>The position of the first occurrence, and the length of the list when there is none.\<close>

definition first_index :: "string \<Rightarrow> string list \<Rightarrow> nat" where
  "first_index w xs = length (takeWhile (\<lambda>s. s \<noteq> w) xs)"

lemma first_index_split [simp]: "w \<notin> set ys \<Longrightarrow> first_index w (ys @ w # zs) = length ys"
  by (simp add: first_index_def takeWhile_not_in)

lemma first_index_0: "w \<in> set xs \<Longrightarrow> first_index w xs = 0 \<longleftrightarrow> hd xs = w"
  by (cases xs) (auto simp: first_index_def)

lemma is_background4_wf:
  assumes "argv_wf a"
  shows "is_background4 a =
    Inr (if ''&'' \<in> set (args a) then first_index ''&'' (args a) else 0)"
proof -
  obtain r where a: "a = map Some (args a) @ None # r"
    using argv_wf_decomp [OF assms] by blast
  show ?thesis
  proof (cases "''&'' \<in> set (args a)")
    case True
    then obtain ys zs where s: "args a = ys @ ''&'' # zs" "''&'' \<notin> set ys"
      using split_first by metis
    have "bg_scan4 0 a = Inr (length ys)"
      using bg_scan4_found [OF s(2), of 0 "map Some zs @ None # r"] s(1) by (subst a) simp
    with s assms show ?thesis by (auto simp: is_background4_def load_0_wf split: list.splits)
  next
    case False
    have "bg_scan4 0 a = Inr 0" using bg_scan4_absent [OF False] by (subst a) simp
    with False assms show ?thesis by (auto simp: is_background4_def load_0_wf)
  qed
qed

text \<open>
  On a null-terminated array both versions of \<open>is_background\<close> are defined; that of
  \<open>SP_HW2\<close> is 1 exactly when some argument is \<open>&\<close>, and that of \<open>SP_HW4\<close> agrees with it
  as a truth value except when the first \<open>&\<close> is the command word itself, where it says
  "foreground".
\<close>

theorem is_background_versions:
  assumes "argv_wf a"
  shows "\<exists>n. is_background2 a = Inr (if ''&'' \<in> set (args a) then 1 else 0) \<and>
           is_background4 a = Inr n \<and>
           (n \<noteq> 0) = (''&'' \<in> set (args a) \<and> hd (args a) \<noteq> ''&'')"
  using assms first_index_0 [of "''&''" "args a"]
  by (auto simp: is_background2_wf is_background4_wf)

theorem is_background_versions_witness:
  "\<exists>n. is_background2 [Some ''sleep'', Some ''5'', Some ''&'', None] = Inr 1 \<and>
       is_background4 [Some ''sleep'', Some ''5'', Some ''&'', None] = Inr n \<and> n \<noteq> 0"
  using is_background_versions [of "[Some ''sleep'', Some ''5'', Some ''&'', None]"] by simp

section \<open>pipe_present\<close>

lemma pipe_present_wf:
  assumes "argv_wf a" and "args a \<noteq> []"
  shows "pipe_present a =
    Inr (if hd (args a) = ''|'' \<or> last (args a) = ''|'' then - 1
         else if ''|'' \<in> set (args a) then int (first_index ''|'' (args a)) else 0)"
proof -
  obtain r where a: "a = map Some (args a) @ None # r"
    using argv_wf_decomp [OF assms(1)] by blast
  let ?xs = "args a"
  have cnt: "count_args 0 a = Inr (length ?xs)" using count_args_wf [of 0 ?xs r] a by simp
  have hd0: "load a 0 = Inr (Some (hd ?xs))"
    using assms by (simp add: load_0_wf split: list.splits)
  have la: "load a (length ?xs - 1) = Inr (Some (last ?xs))"
    using assms(2) by (subst a) (simp add: load_def nth_append last_conv_nth)
  show ?thesis
  proof (cases "''|'' \<in> set ?xs")
    case True
    then obtain ys zs where s: "?xs = ys @ ''|'' # zs" "''|'' \<notin> set ys"
      using split_first by metis
    have "scan ''|'' 0 a = Inr (length ys)"
      using scan_found [OF s(2), of 0 "map Some zs @ None # r"] s(1) by (subst a) simp
    moreover have "load a (length ys) = Inr (Some ''|'')"
      using s(1) by (subst a) (simp add: load_def nth_append)
    ultimately show ?thesis using True s cnt hd0 la
      by (simp add: pipe_present_def strcmp_ptr_def Let_def)
  next
    case False
    have "scan ''|'' 0 a = Inr (length ?xs)" using scan_absent [OF False] by (subst a) simp
    moreover have "load a (length ?xs) = Inr None"
      by (subst a) (metis length_map load_append_length)
    ultimately show ?thesis using False cnt hd0 la
      by (simp add: pipe_present_def strcmp_ptr_def Let_def)
  qed
qed

lemma pipe_present_empty: "argv_wf a \<Longrightarrow> args a = [] \<Longrightarrow> pipe_present a = Inl NullDeref"
proof -
  assume a: "argv_wf a" "args a = []"
  then obtain r where "a = None # r" using argv_wf_decomp [of a] by auto
  then show ?thesis by (simp add: pipe_present_def load_def strcmp_ptr_def)
qed

section \<open>Redirection\<close>

lemma redirect_absent:
  assumes "argv_wf a" and "w \<notin> set (args a)"
  shows "redirect w std mode a = Inr (- 1, a, [])"
proof -
  obtain r where a: "a = map Some (args a) @ None # r"
    using argv_wf_decomp [OF assms(1)] by blast
  have "scan w 0 a = Inr (length (args a))" using scan_absent [OF assms(2)] by (subst a) simp
  moreover have "load a (length (args a)) = Inr None"
    by (subst a) (metis length_map load_append_length)
  ultimately show ?thesis by (simp add: redirect_def)
qed

lemma redirect_found:
  assumes "w \<notin> set xs"
  shows "redirect w std mode (map Some xs @ Some w # f # r) =
    Inr (0, map Some xs @ None # None # r, [CloseFd std, Freopen f mode std])"
proof -
  have "scan w 0 (map Some xs @ Some w # f # r) = Inr (length xs)"
    using scan_found [OF assms, of 0] by simp
  moreover have "load (map Some xs @ Some w # f # r) (length xs) = Inr (Some w)"
    by (metis length_map load_append_length)
  moreover have "load (map Some xs @ Some w # f # r) (Suc (length xs)) = Inr f"
    using load_append_right [of "map Some xs" "Some w # f # r" 1] by (simp add: load_def)
  ultimately show ?thesis
    by (simp add: redirect_def store_def list_update_append)
qed

lemma redirect_wf:
  assumes "argv_wf a"
  shows "\<exists>v a' cs. redirect w std mode a = Inr (v, a', cs) \<and> argv_wf a' \<and>
    args a' = takeWhile (\<lambda>s. s \<noteq> w) (args a) \<and> length a' = length a"
proof (cases "w \<in> set (args a)")
  case True
  obtain r where a: "a = map Some (args a) @ None # r"
    using argv_wf_decomp [OF assms] by blast
  from True obtain ys zs where s: "args a = ys @ w # zs" "w \<notin> set ys"
    using split_first by metis
  obtain f t where ft: "map Some zs @ None # r = f # t" by (cases "map Some zs @ None # r") auto
  have "a = map Some (ys @ w # zs) @ None # r" using a unfolding s(1) .
  then have eq: "a = map Some ys @ Some w # f # t" using ft by simp
  have "redirect w std mode a =
      Inr (0, map Some ys @ None # None # t, [CloseFd std, Freopen f mode std])"
    unfolding eq by (rule redirect_found [OF s(2)])
  moreover have "takeWhile (\<lambda>s. s \<noteq> w) (args a) = ys"
    using s by (simp add: takeWhile_not_in)
  moreover have "length (map Some ys @ None # None # t) = length a" using eq by simp
  moreover have "argv_wf (map Some ys @ None # None # t)"
    and "args (map Some ys @ None # None # t) = ys" by (rule argv_wf_args)+
  ultimately show ?thesis by simp
next
  case False
  have "takeWhile (\<lambda>s. s \<noteq> w) (args a) = args a"
    by (rule takeWhile_eq_all_conv [THEN iffD2]) (use False in auto)
  with redirect_absent [OF assms False] assms show ?thesis
    by (simp del: takeWhile_eq_all_conv)
qed

end
