(* ===== verification/ShellExec.thy ===== *)
theory ShellExec
  imports ShellParse
begin

text \<open>
  The back end of the shell \<open>src/SP_HW4/part2\<close>: \<open>pipe_command.c\<close> and \<open>run_command.c\<close>.  The builtins, the
  main loops and \<open>run_command.c\<close> of \<open>src/SP_HW2\<close> follow in \<open>ShellMain\<close>, on the same effects.

  What the kernel and the C library decide is a record \<open>os4\<close> of parameters (which programs
  \<open>execvp\<close> finds, whether a \<open>pipe\<close> or \<open>fork\<close> succeeds, what \<open>chdir\<close> answers,
  the status \<open>waitpid\<close> reports, the password file).  What a forked child does is a plan: the list
  of its system calls up to the \<open>exec\<close> or \<open>exit\<close> that ends it, with the plans of its own
  children inside it.
\<close>

datatype wstatus = WExited nat | WSignaled nat | WStopped nat | WContinued

text \<open>A pointer in a slot of an array on the heap: null, to a string, or to no accessible memory.\<close>

datatype slot = Null_ptr | To_str string | Wild

record os4 =
  found :: "string \<Rightarrow> bool"            \<comment> \<open>\<open>execvp\<close> of this file succeeds\<close>
  pipe_ok :: "nat \<Rightarrow> bool"             \<comment> \<open>the n-th \<open>pipe\<close> of a child succeeds\<close>
  pfork_ok :: "nat \<Rightarrow> bool"            \<comment> \<open>the fork for the n-th pipe succeeds\<close>
  dup_out_ok :: "nat \<Rightarrow> bool"          \<comment> \<open>\<open>dup2\<close> of the n-th pipe to the standard output succeeds\<close>
  dup_in_ok :: "nat \<Rightarrow> bool"           \<comment> \<open>\<open>dup2\<close> of the n-th pipe to the standard input succeeds\<close>
  pwait_ok :: "nat \<Rightarrow> bool"            \<comment> \<open>\<open>waitpid\<close> for the child at the n-th pipe succeeds\<close>
  junk :: "nat \<Rightarrow> nat \<Rightarrow> slot"         \<comment> \<open>what the block \<open>malloc\<close> gives behind the n-th pipe holds, by slot\<close>
  fork_ok :: "nat \<Rightarrow> bool"             \<comment> \<open>the fork for the n-th command succeeds\<close>
  fork_errno :: int                   \<comment> \<open>\<open>errno\<close> after a failed fork\<close>
  status :: "nat \<Rightarrow> wstatus"           \<comment> \<open>what \<open>waitpid\<close> stores for the n-th command\<close>
  childpid :: "nat \<Rightarrow> int"
  strerror :: "nat \<Rightarrow> string"
  strsignal :: "nat \<Rightarrow> string"
  chdir :: "string \<Rightarrow> string option \<Rightarrow> string option"  \<comment> \<open>from a directory; None is -1\<close>
  uname :: "string option"              \<comment> \<open>the node name, or None for -1\<close>
  login :: string                       \<comment> \<open>what \<open>getlogin_r\<close> stores\<close>
  passwd :: "(string \<times> int \<times> int) list"  \<comment> \<open>name, user id, group id\<close>

section \<open>pipe_command.c\<close>

datatype pend = ReadEnd nat | WriteEnd nat   \<comment> \<open>\<open>pfd[0]\<close> and \<open>pfd[1]\<close> of the n-th pipe\<close>

datatype act =
    Fd fdcall
  | MkPipe nat
  | CloseEnd pend
  | Dup2 pend nat
  | Fork "act list"
  | WaitChild
  | Exec "string list"
  | ExecFails string
  | Message string
  | ExitErrno
  | ExitCode nat

text \<open>\<open>execvp(a[0], a)\<close>: the argument list when it succeeds; a null \<open>a[0]\<close> makes it fail.\<close>

definition execvp :: "os4 \<Rightarrow> argv \<Rightarrow> string list option res" where
  "execvp os a =
     (if \<not> argv_wf a then Inl OutOfBounds
      else case args a of
          [] \<Rightarrow> Inr None
        | c # _ \<Rightarrow> Inr (if found os c then Some (args a) else None))"

text \<open>A pointer array on the heap; a store behind it goes through and is recorded in \<open>spills\<close>.\<close>

record pblock =
  psize :: nat
  slots :: "nat \<Rightarrow> slot"
  spills :: "nat list"

definition malloc_ptrs :: "os4 \<Rightarrow> nat \<Rightarrow> nat \<Rightarrow> pblock" where
  "malloc_ptrs os k n = \<lparr>psize = n, slots = junk os k, spills = []\<rparr>"

definition put_slot :: "nat \<Rightarrow> slot \<Rightarrow> pblock \<Rightarrow> pblock" where
  "put_slot i v b = b\<lparr>slots := (slots b)(i := v),
     spills := (if i < psize b then spills b else spills b @ [i])\<rparr>"

fun put_slots :: "nat \<Rightarrow> string list \<Rightarrow> pblock \<Rightarrow> pblock" where
  "put_slots j [] b = b"
| "put_slots j (s # ss) b = put_slots (Suc j) ss (put_slot j (To_str s) b)"

text \<open>The copying loops: the strings at \<open>n\<close> consecutive elements; \<open>strlen\<close> of null is undefined.\<close>

fun copy_args :: "nat \<Rightarrow> argv \<Rightarrow> string list res" where
  "copy_args 0 a = Inr []"
| "copy_args (Suc n) [] = Inl OutOfBounds"
| "copy_args (Suc n) (None # a) = Inl NullDeref"
| "copy_args (Suc n) (Some s # a) = bindE (copy_args n a) (\<lambda>ss. Inr (s # ss))"

text \<open>
  The right half: a block of \<open>end - pipe_argv_index\<close> pointers, filled from slot 0, with the null
  pointer stored at slot \<open>j+1\<close> where \<open>j\<close> is the number of strings copied.  The array
  \<open>execvp\<close> walks is the slots up to that one.
\<close>

definition right_block :: "os4 \<Rightarrow> nat \<Rightarrow> string list \<Rightarrow> pblock" where
  "right_block os k ss = put_slot (length ss + 1) Null_ptr
     (put_slots 0 ss (malloc_ptrs os k (length ss + 1)))"

definition right_argv :: "os4 \<Rightarrow> nat \<Rightarrow> string list \<Rightarrow> slot list" where
  "right_argv os k ss = map (slots (right_block os k ss)) [0..<length ss + 2]"

text \<open>
  \<open>execvp(a[0], a)\<close> on these slots: the kernel refuses an array with a pointer it cannot follow (\<open>EFAULT\<close>),
  while the library itself follows the first one.
\<close>

fun slot_args :: "slot list \<Rightarrow> string list option res" where
  "slot_args [] = Inl OutOfBounds"
| "slot_args (Null_ptr # a) = Inr (Some [])"
| "slot_args (To_str s # a) = bindE (slot_args a) (\<lambda>ss. Inr (map_option (Cons s) ss))"
| "slot_args (Wild # a) = Inr None"

definition execvp_slots :: "os4 \<Rightarrow> slot list \<Rightarrow> string list option res" where
  "execvp_slots os a =
     (case a of
        To_str c # _ \<Rightarrow> bindE (slot_args a) (\<lambda>ss. Inr (if found os c then ss else None))
      | Wild # _ \<Rightarrow> Inl Uninitialised
      | _ \<Rightarrow> Inr None)"

text \<open>
  \<open>pipe_and_exec\<close>, with \<open>k\<close> the number of pipes made so far.  The result is what the process
  does and whether the call returns; it returns only when there is no pipe symbol.  A failed
  \<open>execvp\<close> of the parent falls through into the \<open>case 0\<close> of the child.  The descriptors \<open>pfd\<close> have been
  closed by then, and the pipe the recursive call made before it returned has got their numbers: what
  the fall-through closes and duplicates are the ends of that pipe.  The result of \<open>close\<close> is not looked at.
\<close>

definition exec_left :: "os4 \<Rightarrow> nat \<Rightarrow> argv \<Rightarrow> act list res" where
  "exec_left os k left =
     bindE (execvp os left) (\<lambda>e.
     Inr ([CloseEnd (ReadEnd k), if dup_out_ok os k then Dup2 (WriteEnd k) 1 else Message ''1dup2 error'',
           CloseEnd (WriteEnd k)] @
       (case e of
          Some ss \<Rightarrow> [Exec ss]
        | None \<Rightarrow> [ExecFails (case left of Some c # _ \<Rightarrow> c | _ \<Rightarrow> []),
                   Message ''Couldn't fork or exec child process'', ExitErrno])))"

function pipe_and_exec :: "os4 \<Rightarrow> nat \<Rightarrow> argv \<Rightarrow> (act list \<times> bool) res" where
  "pipe_and_exec os k myArgv =
     bindE (pipe_present myArgv) (\<lambda>idx.
     if \<not> pipe_ok os k then Inr ([Message ''pipe error'', ExitCode 1], False)
     else if idx = - 1 then
       Inr ([MkPipe k, Message ''Missing command next to pipe in commandline.'',
             Message ''Couldn't fork or exec child process'', ExitErrno], False)
     else if idx = 0 then Inr ([MkPipe k], True)
     else
       bindE (copy_args (nat idx) myArgv) (\<lambda>ls.
       let left = map Some ls @ [None]; tail = drop (nat idx + 1) myArgv in
       bindE (scan ''|'' 0 tail) (\<lambda>n.
       bindE (copy_args n tail) (\<lambda>rs.
       let right = right_argv os k rs in
       if \<not> pfork_ok os k then
         Inr ([MkPipe k, Message ''Couldn't fork or exec child process'', ExitErrno], False)
       else
         bindE (exec_left os k left) (\<lambda>child.
         bindE (pipe_and_exec os (Suc k) tail) (\<lambda>(acts, returned).
         let parent = [MkPipe k, Fork child, CloseEnd (WriteEnd k),
                       if dup_in_ok os k then Dup2 (ReadEnd k) 0 else Message ''2dup2 error'',
                       if pwait_ok os k then WaitChild else Message ''waitpid error'',
                       CloseEnd (ReadEnd k)] @ acts in
         if \<not> returned then Inr (parent, False)
         else bindE (execvp_slots os right) (\<lambda>e.
           case e of
             Some ss \<Rightarrow> Inr (parent @ [Exec ss], False)
           | None \<Rightarrow> bindE (exec_left os (Suc k) left) (\<lambda>again.
               Inr (parent @ ExecFails (case right of To_str c # _ \<Rightarrow> c | _ \<Rightarrow> []) # again, False)))))))))"
  by pat_completeness auto
termination
proof (relation "measure (\<lambda>(_, _, a). length a)", goal_cases)
  case 1
  then show ?case by simp
next
  case (2 os k myArgv idx)
  have "myArgv \<noteq> []"
  proof
    assume "myArgv = []"
    with 2 show False by (simp add: pipe_present_def)
  qed
  with 2 show ?case by simp
qed

declare pipe_and_exec.simps [simp del]

section \<open>run_command.c\<close>

text \<open>The child of \<open>SP_HW4/part2/run_command.c\<close>: cut at the \<open>&\<close>, redirect, then pipe or exec.\<close>

definition child4 :: "os4 \<Rightarrow> nat \<Rightarrow> argv \<Rightarrow> act list res" where
  "child4 os run_in_background myArgv =
     bindE (if run_in_background \<noteq> 0 then store myArgv run_in_background None else Inr myArgv) (\<lambda>a0.
     bindE (redirect_in a0) (\<lambda>(_, a1, c1).
     bindE (redirect_out a1) (\<lambda>(_, a2, c2).
     let fds = map Fd (c1 @ c2) in
     bindE (pipe_present a2) (\<lambda>has_pipe.
     if has_pipe > 0 then
       bindE (pipe_and_exec os 0 a2) (\<lambda>(acts, returned).
         Inr (fds @ acts @ (if returned then [ExitErrno] else [])))
     else
       bindE (execvp os a2) (\<lambda>e.
         Inr (fds @ (case e of Some ss \<Rightarrow> [Exec ss]
                             | None \<Rightarrow> [ExecFails (hd (args a2)), ExitErrno])))))))"

text \<open>What the parent writes to stderr about the status it waited for.\<close>

definition status_message :: "os4 \<Rightarrow> nat \<Rightarrow> string" where
  "status_message os n =
     (case status os n of
        WExited s \<Rightarrow>
          (if s \<noteq> 0 then ''Child '' @ dec_int (childpid os n) @ '' exited with error status '' @
             dec_nat s @ '': '' @ strerror os s @ [NL] else [])
      | WSignaled s \<Rightarrow>
          (if s \<noteq> 0 then ''Child '' @ dec_int (childpid os n) @ '' exited due to signal '' @
             dec_nat s @ '': '' @ strsignal os s @ [NL] else [])
      | _ \<Rightarrow> [])"

datatype event =
    Prompt
  | Output string
  | ErrOutput string
  | Spawn "act list res" bool     \<comment> \<open>the child's plan; whether the shell waits for it\<close>

text \<open>The shell process: the static \<open>this\<close> of \<open>builtin.c\<close>, its directory, what it did.\<close>

record 'b shell =
  this :: "'b option"
  cwd :: string
  ncmd :: nat
  trace :: "event list"

datatype 's outcome = Running 's | Exited int 's

definition emit :: "event \<Rightarrow> 'b shell \<Rightarrow> 'b shell" where
  "emit e st = st\<lparr>trace := trace st @ [e]\<rparr>"

definition run_command4 :: "os4 \<Rightarrow> argv \<Rightarrow> 'b shell \<Rightarrow> 'b shell outcome res" where
  "run_command4 os myArgv st =
     bindE (is_background4 myArgv) (\<lambda>run_in_background.
     let n = ncmd st; st1 = st\<lparr>ncmd := Suc n\<rparr> in
     if \<not> fork_ok os n then Inr (Exited (fork_errno os) (emit (ErrOutput ''fork'') st1))
     else
       let st2 = emit (Spawn (child4 os run_in_background myArgv) (run_in_background = 0)) st1 in
       if run_in_background = 0 \<and> status_message os n \<noteq> []
       then Inr (Running (emit (ErrOutput (status_message os n)) st2))
       else Inr (Running st2))"


section \<open>The right half's array\<close>

lemma put_slots_slots:
  "slots (put_slots j ss b) = (\<lambda>i. if j \<le> i \<and> i < j + length ss then To_str (ss ! (i - j)) else slots b i)"
proof (induction ss arbitrary: j b)
  case Nil
  then show ?case by (auto simp: fun_eq_iff)
next
  case (Cons s ss)
  then show ?case
    by (auto simp: put_slot_def fun_eq_iff nth_Cons' not_less_eq_eq Suc_diff_le)
qed

lemma put_slots_psize [simp]: "psize (put_slots j ss b) = psize b"
  by (induction ss arbitrary: j b) (auto simp: put_slot_def)

lemma put_slots_spills:
  "j + length ss \<le> psize b \<Longrightarrow> spills (put_slots j ss b) = spills b"
  by (induction ss arbitrary: j b) (auto simp: put_slot_def)

lemma right_argv_eq:
  "right_argv os k ss = map To_str ss @ [junk os k (length ss), Null_ptr]"
  by (rule nth_equalityI)
    (auto simp: right_argv_def right_block_def put_slot_def put_slots_slots malloc_ptrs_def
      nth_append less_Suc_eq simp del: upt_Suc)

text \<open>The arguments in these slots, by what the slot behind them holds.\<close>

definition stray_args :: "os4 \<Rightarrow> nat \<Rightarrow> string list \<Rightarrow> string list option" where
  "stray_args os k ss =
     (case junk os k (length ss) of Null_ptr \<Rightarrow> Some ss | To_str g \<Rightarrow> Some (ss @ [g]) | Wild \<Rightarrow> None)"

lemma slot_args_strings: "slot_args (map To_str ss @ a) = bindE (slot_args a) (\<lambda>r. Inr (map_option ((@) ss) r))"
proof (induction ss)
  case Nil
  then show ?case by (cases "slot_args a") (auto simp: option.map_ident)
next
  case (Cons s ss)
  then show ?case by (cases "slot_args a") (auto simp: option.map_comp o_def)
qed

lemma right_argv_args: "slot_args (right_argv os k ss) = Inr (stray_args os k ss)"
  by (cases "junk os k (length ss)") (simp_all add: right_argv_eq slot_args_strings stray_args_def)

section \<open>Pipelines\<close>

text \<open>
  What a pipeline of commands does.  Each command but the last runs in a child whose
  standard output is the write end of a fresh pipe; the process then makes the read end its own
  standard input and goes on with the rest; for the last command, too, a pipe is made, which nothing uses,
  and \<open>fin\<close> is how the process ends.
\<close>

fun pipeline :: "act list \<Rightarrow> nat \<Rightarrow> string list list \<Rightarrow> act list" where
  "pipeline fin k [] = []"
| "pipeline fin k [s] = MkPipe k # fin"
| "pipeline fin k (s # ss) =
     [MkPipe k,
      Fork [CloseEnd (ReadEnd k), Dup2 (WriteEnd k) 1, CloseEnd (WriteEnd k), Exec s],
      CloseEnd (WriteEnd k), Dup2 (ReadEnd k) 0, WaitChild, CloseEnd (ReadEnd k)] @
     pipeline fin (Suc k) ss"

fun join_pipes :: "string list list \<Rightarrow> string list" where
  "join_pipes [] = []"
| "join_pipes [s] = s"
| "join_pipes (s # ss) = s @ ''|'' # join_pipes ss"

definition is_command :: "string list \<Rightarrow> bool" where
  "is_command s \<longleftrightarrow> s \<noteq> [] \<and> ''|'' \<notin> set s"

definition stage :: "os4 \<Rightarrow> string list \<Rightarrow> bool" where
  "stage os s \<longleftrightarrow> is_command s \<and> found os (hd s)"

text \<open>
  How it ends, for the last two commands \<open>s\<close> and \<open>t\<close> and the pipe \<open>k\<close> between them: with the execution of \<open>t\<close>,
  which gets one argument more when the slot behind its arguments happens to point to a string; or, when
  that fails, with \<open>s\<close> again, whose output is now the pipe that nobody reads.
\<close>

definition last_args :: "os4 \<Rightarrow> nat \<Rightarrow> string list \<Rightarrow> string list option" where
  "last_args os k t = (if found os (hd t) then stray_args os k t else None)"

definition again :: "nat \<Rightarrow> string list \<Rightarrow> act list" where
  "again k s = [CloseEnd (ReadEnd (Suc k)), Dup2 (WriteEnd (Suc k)) 1, CloseEnd (WriteEnd (Suc k)), Exec s]"

definition ending :: "os4 \<Rightarrow> nat \<Rightarrow> string list \<Rightarrow> string list \<Rightarrow> act list" where
  "ending os k s t = (case last_args os k t of Some t' \<Rightarrow> [Exec t'] | None \<Rightarrow> ExecFails (hd t) # again k s)"

definition pipeline_plan :: "os4 \<Rightarrow> string list list \<Rightarrow> act list" where
  "pipeline_plan os ss = pipeline (ending os (length ss - 2) (last (butlast ss)) (last ss)) 0 ss"

definition os_up :: "os4 \<Rightarrow> bool" where
  "os_up os \<longleftrightarrow> (\<forall>n. pipe_ok os n \<and> pfork_ok os n \<and> dup_out_ok os n \<and> dup_in_ok os n \<and> pwait_ok os n)"

lemma stage_simps:
  "stage os s \<Longrightarrow> is_command s" "stage os s \<Longrightarrow> found os (hd s)"
  by (simp_all add: stage_def)

lemma command_simps: "is_command s \<Longrightarrow> s \<noteq> []" "is_command s \<Longrightarrow> ''|'' \<notin> set s"
  by (simp_all add: is_command_def)

lemma all_commands:
  "ss \<noteq> [] \<Longrightarrow> \<forall>s \<in> set (butlast ss). stage os s \<Longrightarrow> is_command (last ss) \<Longrightarrow> \<forall>s \<in> set ss. is_command s"
  by (induction ss) (auto simp: stage_def split: if_splits)

lemma execvp_stage: "stage os s \<Longrightarrow> execvp os (map Some s @ None # r) = Inr (Some s)"
  by (cases s) (auto simp: execvp_def stage_def is_command_def)

lemma exec_left_stage:
  "stage os s \<Longrightarrow> dup_out_ok os k \<Longrightarrow> exec_left os k (map Some s @ [None]) =
     Inr [CloseEnd (ReadEnd k), Dup2 (WriteEnd k) 1, CloseEnd (WriteEnd k), Exec s]"
  using execvp_stage [of os s "[]"] by (simp add: exec_left_def)

lemma execvp_right: "t \<noteq> [] \<Longrightarrow> execvp_slots os (right_argv os k t) = Inr (last_args os k t)"
  using right_argv_args [of os k t] right_argv_eq [of os k t]
  by (cases t) (simp_all add: execvp_slots_def last_args_def)

lemma right_argv_hd: "t \<noteq> [] \<Longrightarrow> \<exists>a. right_argv os k t = To_str (hd t) # a"
  by (cases t) (simp_all add: right_argv_eq)

lemma copy_args_take: "copy_args (length ss) (map Some ss @ r) = Inr ss"
  by (induction ss) auto

lemma join_pipes_ends:
  "ss \<noteq> [] \<Longrightarrow> \<forall>s \<in> set ss. is_command s \<Longrightarrow>
   join_pipes ss \<noteq> [] \<and> hd (join_pipes ss) \<noteq> ''|'' \<and> last (join_pipes ss) \<noteq> ''|''"
proof (induction ss rule: join_pipes.induct)
  case 1
  then show ?case by simp
next
  case (2 s)
  then show ?case using command_simps [of s] by (auto dest: hd_in_set last_in_set)
next
  case (3 s t ss)
  then show ?case using command_simps [of s] by (cases s) auto
qed

lemma pipe_present_single:
  assumes "is_command s"
  shows "pipe_present (map Some s @ None # r) = Inr 0"
proof -
  from assms have "hd s \<noteq> ''|''" "last s \<noteq> ''|''"
    using command_simps [OF assms] by (auto dest: hd_in_set last_in_set)
  with pipe_present_wf [of "map Some s @ None # r"] command_simps [OF assms]
  show ?thesis by simp
qed

lemma pipe_present_join:
  assumes "is_command s" and "ss \<noteq> []" and "\<forall>t \<in> set ss. is_command t"
  shows "pipe_present (map Some (s @ ''|'' # join_pipes ss) @ None # r) = Inr (int (length s))"
proof -
  have "hd (s @ ''|'' # join_pipes ss) \<noteq> ''|''"
    using command_simps [OF assms(1)] by (cases s) auto
  moreover have "last (s @ ''|'' # join_pipes ss) \<noteq> ''|''"
    using join_pipes_ends [OF assms(2,3)] by simp
  moreover have "first_index ''|'' (s @ ''|'' # join_pipes ss) = length s"
    using command_simps [OF assms(1)] by simp
  ultimately show ?thesis
    using pipe_present_wf [of "map Some (s @ ''|'' # join_pipes ss) @ None # r"]
    by (simp only: argv_wf_args) simp
qed

lemma scan_next:
  assumes "ss \<noteq> []" and "\<forall>t \<in> set ss. is_command t"
  shows "scan ''|'' 0 (map Some (join_pipes ss) @ None # r) = Inr (length (hd ss))"
    and "copy_args (length (hd ss)) (map Some (join_pipes ss) @ None # r) = Inr (hd ss)"
proof -
  from assms obtain s rest where ss: "ss = s # rest" and st: "is_command s"
    by (cases ss) auto
  show "scan ''|'' 0 (map Some (join_pipes ss) @ None # r) = Inr (length (hd ss))"
    using command_simps [OF st] scan_absent [of "''|''" s 0] scan_found [of "''|''" s 0]
    by (cases rest) (simp_all add: ss)
  show "copy_args (length (hd ss)) (map Some (join_pipes ss) @ None # r) = Inr (hd ss)"
    using copy_args_take [of s] by (cases rest) (simp_all add: ss)
qed

lemma pipe_and_exec_single:
  "os_up os \<Longrightarrow> is_command s \<Longrightarrow> pipe_and_exec os k (map Some s @ None # r) = Inr ([MkPipe k], True)"
  by (subst pipe_and_exec.simps) (simp add: pipe_present_single os_up_def)

lemma pipe_and_exec_pipeline:
  assumes "os_up os"
  shows "2 \<le> length ss \<Longrightarrow> \<forall>s \<in> set (butlast ss). stage os s \<Longrightarrow> is_command (last ss) \<Longrightarrow>
    pipe_and_exec os k (map Some (join_pipes ss) @ None # r) =
      Inr (pipeline (ending os (k + length ss - 2) (last (butlast ss)) (last ss)) k ss, False)"
proof (induction ss arbitrary: k rule: join_pipes.induct)
  case 1
  then show ?case by simp
next
  case (2 s)
  then show ?case by simp
next
  case (3 s t ss)
  define a where "a = map Some (s @ ''|'' # join_pipes (t # ss)) @ None # r"
  define b where "b = map Some (join_pipes (t # ss)) @ None # r"
  let ?fin = "ending os (k + length ss) (last (s # butlast (t # ss))) (last (t # ss))"
  have st: "stage os s" using 3 by simp
  have all: "\<forall>u \<in> set (t # ss). is_command u"
    using "3.prems" by (intro all_commands [of "t # ss" os]) (auto split: if_splits)
  then have t: "is_command t" by simp
  have pp: "pipe_present a = Inr (int (length s))"
    unfolding a_def by (rule pipe_present_join [OF stage_simps(1) [OF st] _ all]) simp
  have ne: "s \<noteq> []" using command_simps(1) [OF stage_simps(1) [OF st]] .
  have copy: "copy_args (length s) a = Inr s"
    using copy_args_take [of s] by (simp add: a_def)
  have tl: "drop (Suc (length s)) a = b" by (simp add: a_def b_def)
  have sc: "scan ''|'' 0 b = Inr (length t)" "copy_args (length t) b = Inr t"
    using scan_next [of "t # ss" r] all by (auto simp: b_def)
  have rec: "pipe_and_exec os (Suc k) b =
      (if ss = [] then Inr ([MkPipe (Suc k)], True) else Inr (pipeline ?fin (Suc k) (t # ss), False))"
  proof (cases "ss = []")
    case True
    then show ?thesis using pipe_and_exec_single [OF assms t] by (simp add: b_def)
  next
    case False
    then have "2 \<le> length (t # ss)" "last (s # butlast (t # ss)) = last (butlast (t # ss))" by (cases ss; simp)+
    with "3.IH" "3.prems" False show ?thesis by (simp add: b_def)
  qed
  have up: "pipe_ok os k" "pfork_ok os k" "dup_out_ok os k" "dup_out_ok os (Suc k)" "dup_in_ok os k" "pwait_ok os k"
    using assms by (auto simp: os_up_def)
  obtain ra where ra: "right_argv os k t = To_str (hd t) # ra"
    using right_argv_hd [OF command_simps(1) [OF t]] by blast
  have "pipe_and_exec os k a = Inr (pipeline ?fin k (s # t # ss), False)"
  proof (cases "ss = []")
    case False
    then show ?thesis
      by (subst pipe_and_exec.simps)
        (simp add: pp ne up copy tl sc rec exec_left_stage [OF st up(3)] Let_def)
  next
    case True
    then show ?thesis
      using execvp_right [OF command_simps(1) [OF t], of os k] exec_left_stage [OF st up(4)]
      by (subst pipe_and_exec.simps)
        (cases "last_args os k t"; simp add: pp ne up copy tl sc rec exec_left_stage [OF st up(3)] Let_def
          ending_def again_def ra)
  qed
  then show ?case by (simp add: a_def)
qed


section \<open>What a child does\<close>

text \<open>An instance of the kernel's part, for the witnesses: every call succeeds, four programs exist.\<close>

definition example_os :: os4 where
  "example_os = \<lparr>found = (\<lambda>c. c \<in> {''ls'', ''grep'', ''wc'', ''cat''}),
     pipe_ok = (\<lambda>_. True), pfork_ok = (\<lambda>_. True),
     dup_out_ok = (\<lambda>_. True), dup_in_ok = (\<lambda>_. True), pwait_ok = (\<lambda>_. True), junk = (\<lambda>_ _. Null_ptr), fork_ok = (\<lambda>_. True),
     fork_errno = 11, status = (\<lambda>_. WExited 0), childpid = (\<lambda>n. 100 + int n),
     strerror = (\<lambda>_. ''error''), strsignal = (\<lambda>_. ''signal''), chdir = (\<lambda>_ p. p),
     uname = Some ''host'', login = ''user'', passwd = [(''root'', 0, 0), (''user'', 1000, 1000)]\<rparr>"

lemma execvp_args:
  "xs \<noteq> [] \<Longrightarrow> found os (hd xs) \<Longrightarrow> execvp os (map Some xs @ None # r) = Inr (Some xs)"
  by (cases xs) (auto simp: execvp_def)

lemma redirect_in_absent: "''<'' \<notin> set xs \<Longrightarrow>
    redirect_in (map Some xs @ None # r) = Inr (- 1, map Some xs @ None # r, [])"
  by (simp add: redirect_in_def redirect_absent)

lemma redirect_out_absent: "''>'' \<notin> set xs \<Longrightarrow>
    redirect_out (map Some xs @ None # r) = Inr (- 1, map Some xs @ None # r, [])"
  by (simp add: redirect_out_def redirect_absent)

lemma redirect_in_found: "''<'' \<notin> set xs \<Longrightarrow>
    redirect_in (map Some xs @ Some ''<'' # f # r) =
      Inr (0, map Some xs @ None # None # r, [CloseFd 0, Freopen f ''r'' 0])"
  by (simp add: redirect_in_def redirect_found)

lemma redirect_out_found: "''>'' \<notin> set xs \<Longrightarrow>
    redirect_out (map Some xs @ Some ''>'' # f # r) =
      Inr (0, map Some xs @ None # None # r, [CloseFd 1, Freopen f ''w+'' 1])"
  by (simp add: redirect_out_def redirect_found)

lemmas redirects = redirect_in_absent redirect_out_absent redirect_in_found redirect_out_found

lemma pipe_present_none:
  "xs \<noteq> [] \<Longrightarrow> ''|'' \<notin> set xs \<Longrightarrow> pipe_present (map Some xs @ None # r) = Inr 0"
  using pipe_present_wf [of "map Some xs @ None # r"] by (auto dest: hd_in_set last_in_set)

lemma join_pipes_set:
  "ss \<noteq> [] \<Longrightarrow> set (join_pipes ss) \<subseteq> insert ''|'' (\<Union> (set ` set ss))"
  by (induction ss rule: join_pipes.induct) auto

lemma child4_plan:
  assumes "os_up os" and "2 \<le> length ss"
    and "\<forall>s \<in> set (butlast ss). stage os s" and "is_command (last ss)"
    and "\<forall>s \<in> set ss. ''<'' \<notin> set s \<and> ''>'' \<notin> set s"
  shows "child4 os 0 (map Some (join_pipes ss) @ [None]) = Inr (pipeline_plan os ss)"
proof -
  have "set (join_pipes ss) \<subseteq> insert ''|'' (\<Union> (set ` set ss))"
    using assms(2) by (intro join_pipes_set) auto
  with assms(5) have no: "''<'' \<notin> set (join_pipes ss)" "''>'' \<notin> set (join_pipes ss)" by auto
  obtain s t rest where ss: "ss = s # t # rest"
    using assms(2) by (cases ss rule: join_pipes.cases) auto
  have "\<forall>u \<in> set ss. is_command u" using assms(2-4) by (intro all_commands) auto
  then have s: "is_command s" and "\<forall>u \<in> set (t # rest). is_command u" by (simp_all add: ss)
  then have "pipe_present (map Some (join_pipes ss) @ [None]) = Inr (int (length s))"
    using pipe_present_join [OF s, of "t # rest" "[]"] ss by simp
  moreover have "s \<noteq> []" using command_simps(1) [OF s] .
  ultimately show ?thesis
    using pipe_and_exec_pipeline [OF assms(1-4), of 0 "[]"] no
    by (simp add: child4_def redirects Let_def pipeline_plan_def)
qed

lemma stages_commands:
  assumes "ss \<noteq> []" and "\<forall>s \<in> set ss. stage os s"
  shows "(\<forall>s \<in> set (butlast ss). stage os s) \<and> is_command (last ss)"
  using assms by (auto simp: stage_def dest: in_set_butlastD)

text \<open>
  C1: A command line of two or more commands separated by pipe symbols, every one found and without a
  redirection, makes the child of \<open>run_command\<close>, when none of its system calls fails, run exactly the pipeline
  of these commands: each but the last once in a child, in order, writing to the pipe the next one reads, then
  one more pipe and the last command, for every content of the memory \<open>malloc\<close> returns: with its own
  arguments when the slot behind them holds a null pointer, with one more argument when it points to a
  string; and with a pointer that cannot be followed the command before it is executed again instead.
\<close>

theorem child4_pipeline:
  assumes "os_up os" and "2 \<le> length ss"
    and "\<forall>s \<in> set ss. stage os s \<and> ''<'' \<notin> set s \<and> ''>'' \<notin> set s"
  shows "child4 os 0 (map Some (join_pipes ss) @ [None]) =
    Inr (pipeline
      (case junk os (length ss - 2) (length (last ss)) of
         Null_ptr \<Rightarrow> [Exec (last ss)]
       | To_str g \<Rightarrow> [Exec (last ss @ [g])]
       | Wild \<Rightarrow> ExecFails (hd (last ss)) # again (length ss - 2) (last (butlast ss))) 0 ss)"
proof -
  have ne: "ss \<noteq> []" and st: "\<forall>s \<in> set ss. stage os s" using assms by auto
  then have "found os (hd (last ss))" by (simp add: stage_def)
  with child4_plan [OF assms(1,2)] stages_commands [OF ne st] assms(3) show ?thesis
    by (simp add: pipeline_plan_def ending_def last_args_def stray_args_def split: slot.split)
qed

theorem child4_pipeline_witness:
  "child4 example_os 0 (map Some (join_pipes [[''ls'', ''-l''], [''grep'', ''x''], [''wc'']]) @ [None])
     = Inr (pipeline [Exec [''wc'']] 0 [[''ls'', ''-l''], [''grep'', ''x''], [''wc'']])"
  using child4_pipeline [of example_os "[[''ls'', ''-l''], [''grep'', ''x''], [''wc'']]"]
  by (simp add: example_os_def os_up_def stage_def is_command_def)

text \<open>
  The array \<open>pipe_and_exec\<close> builds for the command right of the pipe is stored one slot past
  its block, and the slot in front of that null pointer is never written: the program gets exactly
  the command's arguments only when the fresh memory there happens to hold a null pointer.
\<close>

theorem right_argv_spill:
  "spills (right_block os k ss) = [psize (right_block os k ss)] \<and>
   slot_args (right_argv os k ss) =
     Inr (case junk os k (length ss) of Null_ptr \<Rightarrow> Some ss | To_str g \<Rightarrow> Some (ss @ [g]) | Wild \<Rightarrow> None)"
  using right_argv_args [of os k ss]
  by (simp add: right_block_def put_slot_def put_slots_spills malloc_ptrs_def stray_args_def)

text \<open>
  Output redirection followed by input redirection does both: standard input is reopened on
  the file after \<open><\<close> and then standard output on the file after \<open>></\<close>, and the program runs with the
  words in front of them.
\<close>

theorem child4_redirect_both:
  assumes "xs \<noteq> []" and "found os (hd xs)" and "''<'' \<notin> set xs" and "''>'' \<notin> set xs"
    and "''|'' \<notin> set xs" and "g \<noteq> ''<''"
  shows "child4 os 0 (map Some (xs @ [''>'', g, ''<'', f]) @ [None]) =
    Inr [Fd (CloseFd 0), Fd (Freopen (Some f) ''r'' 0),
         Fd (CloseFd 1), Fd (Freopen (Some g) ''w+'' 1), Exec xs]"
proof -
  have "redirect_in (map Some (xs @ [''>'', g, ''<'', f]) @ [None]) =
      Inr (0, map Some xs @ Some ''>'' # Some g # [None, None, None],
        [CloseFd 0, Freopen (Some f) ''r'' 0])"
    using redirect_in_found [of "xs @ [''>'', g]" "Some f" "[None]"] assms by simp
  moreover have "redirect_out (map Some xs @ Some ''>'' # Some g # [None, None, None]) =
      Inr (0, map Some xs @ None # None # [None, None, None], [CloseFd 1, Freopen (Some g) ''w+'' 1])"
    using assms by (simp add: redirects)
  ultimately show ?thesis using assms
    by (simp add: child4_def Let_def pipe_present_none execvp_args)
qed

theorem child4_redirect_both_witness:
  "child4 example_os 0 (map Some ([''cat''] @ [''>'', ''out'', ''<'', ''in'']) @ [None]) =
    Inr [Fd (CloseFd 0), Fd (Freopen (Some ''in'') ''r'' 0),
         Fd (CloseFd 1), Fd (Freopen (Some ''out'') ''w+'' 1), Exec [''cat'']]"
  by (rule child4_redirect_both) (simp_all add: example_os_def)

text \<open>
  Everything behind an input redirection is lost: \<open>redirect_in\<close> cuts the array at
  \<open><\<close>, so an output redirection, a second command or further arguments behind the file name never
  take effect.
\<close>

theorem child4_input_redirect_cuts:
  assumes "xs \<noteq> []" and "found os (hd xs)" and "''<'' \<notin> set xs" and "''>'' \<notin> set xs"
    and "''|'' \<notin> set xs"
  shows "child4 os 0 (map Some (xs @ ''<'' # f # ys) @ [None]) =
    Inr [Fd (CloseFd 0), Fd (Freopen (Some f) ''r'' 0), Exec xs]"
proof -
  have "redirect_in (map Some (xs @ ''<'' # f # ys) @ [None]) =
      Inr (0, map Some xs @ None # None # map Some ys @ [None], [CloseFd 0, Freopen (Some f) ''r'' 0])"
    using redirect_in_found [of xs "Some f" "map Some ys @ [None]"] assms by simp
  then show ?thesis using assms
    by (simp add: child4_def Let_def redirects pipe_present_none execvp_args)
qed

theorem child4_input_redirect_cuts_witness:
  "child4 example_os 0 (map Some ([''cat''] @ ''<'' # ''in'' # [''>'', ''out'']) @ [None]) =
    Inr [Fd (CloseFd 0), Fd (Freopen (Some ''in'') ''r'' 0), Exec [''cat'']]"
  by (rule child4_input_redirect_cuts) (simp_all add: example_os_def)

text \<open>
  A line that has only an input redirection and no command makes the child hand a null
  pointer to \<open>strcmp\<close> in \<open>pipe_present\<close>.
\<close>

theorem child4_no_command:
  "child4 os 0 (map Some (''<'' # f # ys) @ [None]) = Inl NullDeref"
proof -
  have "redirect_in (map Some (''<'' # f # ys) @ [None]) =
      Inr (0, None # None # map Some ys @ [None], [CloseFd 0, Freopen (Some f) ''r'' 0])"
    using redirect_in_found [of "[]" "Some f" "map Some ys @ [None]"] by simp
  moreover have "redirect_out (None # None # map Some ys @ [None]) =
      Inr (- 1, None # None # map Some ys @ [None], [])"
    using redirect_out_absent [of "[]"] by simp
  moreover have "pipe_present (None # None # map Some ys @ [None]) = Inl NullDeref"
    by (rule pipe_present_empty) simp_all
  ultimately show ?thesis by (simp add: child4_def Let_def)
qed

text \<open>
  \<open>run_command\<close> on \<open>xs & ys\<close> (the command word not \<open>&\<close>) spawns a child that runs \<open>xs\<close>
  alone, without the \<open>&\<close> and what follows it, and does not wait for it; the shell goes on.
\<close>

theorem run_command4_background:
  assumes "xs \<noteq> []" and "''&'' \<notin> set xs" and "fork_ok os (ncmd st)"
    and "found os (hd xs)" and "''<'' \<notin> set xs" and "''>'' \<notin> set xs" and "''|'' \<notin> set xs"
  shows "run_command4 os (map Some (xs @ ''&'' # ys) @ [None]) st =
    Inr (Running (emit (Spawn (Inr [Exec xs]) False) (st\<lparr>ncmd := Suc (ncmd st)\<rparr>)))"
proof -
  let ?a = "map Some (xs @ ''&'' # ys) @ [None]"
  have wf: "argv_wf ?a" "args ?a = xs @ ''&'' # ys" by (rule argv_wf_args)+
  have bg: "is_background4 ?a = Inr (length xs)"
    unfolding is_background4_wf [OF wf(1)] wf(2) using assms(2) by simp
  have "store ?a (length xs) None = Inr (map Some xs @ None # map Some ys @ [None])"
    using store_append_length [of "map Some xs" "Some ''&''" "map Some ys @ [None]" None] by simp
  then have "child4 os (length xs) ?a = Inr [Exec xs]"
    using assms by (simp add: child4_def Let_def redirects pipe_present_none execvp_args)
  with bg assms(1,3) show ?thesis by (simp add: run_command4_def Let_def)
qed

theorem run_command4_background_witness:
  "run_command4 example_os (map Some ([''ls'', ''-l''] @ ''&'' # []) @ [None])
     \<lparr>this = None, cwd = ''/'', ncmd = 0, trace = []\<rparr> =
   Inr (Running (emit (Spawn (Inr [Exec [''ls'', ''-l'']]) False)
     (\<lparr>this = None, cwd = ''/'', ncmd = 0, trace = []\<rparr>\<lparr>ncmd := Suc 0\<rparr>)))"
  using run_command4_background [of "[''ls'', ''-l'']" example_os
      "\<lparr>this = None, cwd = ''/'', ncmd = 0, trace = []\<rparr>" "[]"]
  by (simp add: example_os_def)

end
