(* ===== verification/ShellMain.thy ===== *)
theory ShellMain
  imports ShellExec
begin

text \<open>
  The builtin commands (\<open>builtin.c\<close>) and the main loops (\<open>shell.c\<close>) of both shells, and
  \<open>run_command.c\<close> of \<open>SP_HW2\<close>.  The contract of the pair \<open>is_builtin\<close>/\<open>do_builtin\<close>,
  which communicate through the static pointer \<open>this\<close>, is the locale \<open>builtin_table\<close>,
  interpreted for both tables.
\<close>

section \<open>The table and its two operations\<close>

text \<open>The loop over the table: the function of the first entry whose keyword is \<open>cmd\<close>.\<close>

fun search_table :: "(string \<times> 'b) list \<Rightarrow> string \<Rightarrow> 'b option" where
  "search_table [] cmd = None"
| "search_table ((keyword, do_it) # table) cmd =
     (if strcmp keyword cmd = 0 then Some do_it else search_table table cmd)"

definition is_builtin_in :: "(string \<times> 'b) list \<Rightarrow> string \<Rightarrow> 'b shell \<Rightarrow> int \<times> 'b shell" where
  "is_builtin_in table cmd st =
     (case search_table table cmd of
        Some f \<Rightarrow> (1, st\<lparr>this := Some f\<rparr>)
      | None \<Rightarrow> (0, st))"

definition loadi :: "'a list \<Rightarrow> int \<Rightarrow> 'a res" where
  "loadi xs i = (if 0 \<le> i then load xs (nat i) else Inl OutOfBounds)"

definition deref :: "'a option \<Rightarrow> 'a res" where
  "deref p = (case p of None \<Rightarrow> Inl NullDeref | Some x \<Rightarrow> Inr x)"

text \<open>\<open>while(argv[i]){ printf("%s ",argv[i]); i++; }\<close> from a pointer.\<close>

fun echo_words :: "argv \<Rightarrow> string res" where
  "echo_words [] = Inl OutOfBounds"
| "echo_words (None # _) = Inr []"
| "echo_words (Some s # a) = bindE (echo_words a) (\<lambda>r. Inr (s @ '' '' @ r))"

text \<open>\<open>bi_echo\<close>, the same text in both shells: what it prints.\<close>

definition bi_echo :: "argv \<Rightarrow> string res" where
  "bi_echo argv =
     bindE (bindE (load argv 1) (\<lambda>p. strcmp_ptr p ''-n'')) (\<lambda>c.
     if c = 0 then
       bindE (bindE (load argv 2) deref) (\<lambda>n.
       let index = atoi n in
       bindE (bindE (loadi argv (index + 2)) deref) (\<lambda>w.
       Inr (w @ [NL])))
     else bindE (echo_words (drop 1 argv)) (\<lambda>s. Inr (s @ [NL])))"

section \<open>SP_HW4/part2/builtin.c\<close>

datatype builtin4 = Bi_builtin | Bi_echo | Bi_quit | Bi_cd | Bi_pwd | Bi_id | Bi_hostname

definition inbuilts4 :: "(string \<times> builtin4) list" where
  "inbuilts4 =
     [(''builtin'', Bi_builtin), (''echo'', Bi_echo), (''quit'', Bi_quit), (''exit'', Bi_quit),
      (''bye'', Bi_quit), (''logout'', Bi_quit), (''cd'', Bi_cd), (''pwd'', Bi_pwd),
      (''id'', Bi_id), (''hostname'', Bi_hostname)]"

definition is_builtin4 :: "string \<Rightarrow> builtin4 shell \<Rightarrow> int \<times> builtin4 shell" where
  "is_builtin4 = is_builtin_in inbuilts4"

definition bi_builtin :: "argv \<Rightarrow> string res" where
  "bi_builtin argv =
     bindE (bindE (load argv 1) deref) (\<lambda>w.
     Inr (if search_table inbuilts4 w \<noteq> None
          then w @ '' is a builtin feature.'' @ [NL]
          else w @ '' is NOT a builtin feature.'' @ [NL]))"

text \<open>The loop of \<open>bi_id\<close> over \<open>getpwent\<close>; at the end of the file it dereferences null.\<close>

fun find_passwd :: "string \<Rightarrow> (string \<times> int \<times> int) list \<Rightarrow> (string \<times> int \<times> int) res" where
  "find_passwd buf [] = Inl NullDeref"
| "find_passwd buf (pw # pws) = (if strcmp (fst pw) buf = 0 then Inr pw else find_passwd buf pws)"

definition bi_id :: "os4 \<Rightarrow> string res" where
  "bi_id os = bindE (find_passwd (login os) (passwd os)) (\<lambda>(name, uid, gid).
     Inr (''UserId = '' @ dec_int uid @ ''('' @ name @ ''), GroupId = '' @ dec_int gid @
          ''('' @ name @ '')'' @ [NL]))"

definition say :: "string res \<Rightarrow> 'b shell \<Rightarrow> 'b shell outcome res" where
  "say r st = bindE r (\<lambda>s. Inr (Running (emit (Output s) st)))"

fun run_builtin4 :: "os4 \<Rightarrow> builtin4 \<Rightarrow> argv \<Rightarrow> builtin4 shell \<Rightarrow> builtin4 shell outcome res" where
  "run_builtin4 os Bi_builtin argv st = say (bi_builtin argv) st"
| "run_builtin4 os Bi_echo argv st = say (bi_echo argv) st"
| "run_builtin4 os Bi_quit argv st = Inr (Exited 0 st)"
| "run_builtin4 os Bi_cd argv st =
     bindE (load argv 1) (\<lambda>p.
     case chdir os (cwd st) p of
       None \<Rightarrow> Inr (Exited 1 (emit (ErrOutput ''chdir error'') st))
     | Some d \<Rightarrow> Inr (Running (st\<lparr>cwd := d\<rparr>)))"
| "run_builtin4 os Bi_pwd argv st = say (Inr (cwd st @ [NL])) st"
| "run_builtin4 os Bi_id argv st = say (bi_id os) st"
| "run_builtin4 os Bi_hostname argv st =
     (case uname os of
        None \<Rightarrow> Inr (Exited 1 (emit (ErrOutput (''uname error'' @ [NL])) st))
      | Some n \<Rightarrow> say (Inr (''hostname: '' @ n @ [NL])) st)"

definition do_builtin4 :: "os4 \<Rightarrow> argv \<Rightarrow> builtin4 shell \<Rightarrow> builtin4 shell outcome res" where
  "do_builtin4 os argv st = bindE (deref (this st)) (\<lambda>f. run_builtin4 os f argv st)"

section \<open>SP_HW4/part2/shell.c\<close>

text \<open>One command: builtin, or else run by a child.\<close>

definition command4 :: "os4 \<Rightarrow> argv \<Rightarrow> builtin4 shell \<Rightarrow> builtin4 shell outcome res" where
  "command4 os myArgv st =
     bindE (bindE (load myArgv 0) deref) (\<lambda>cmd.
     let (b, st1) = is_builtin4 cmd st in
     if b \<noteq> 0 then do_builtin4 os myArgv st1 else run_command4 os myArgv st1)"

function shell_loop4 :: "os4 \<Rightarrow> stream \<Rightarrow> builtin4 shell \<Rightarrow> builtin4 shell outcome res" where
  "shell_loop4 os f st =
     (case fgets 255 f of
        (None, _) \<Rightarrow> Inr (Exited 0 st)
      | (Some line, f') \<Rightarrow>
          (case parse4 (Some (upto_nul line)) of
             None \<Rightarrow> shell_loop4 os f' (emit Prompt st)
           | Some hs \<Rightarrow>
               bindE (command4 os (argv_of hs) st) (\<lambda>r.
               case r of
                 Exited c st' \<Rightarrow> Inr (Exited c st')
               | Running st' \<Rightarrow>
                   bindE (free_argv (argv_of hs)) (\<lambda>_. shell_loop4 os f' (emit Prompt st')))))"
  by pat_completeness auto
termination
  by (relation "measure (\<lambda>(_, f, _). length (rest f))")
    (auto dest!: sym [of "(_, _)" "fgets _ _"] fgets_shorter [rotated])

declare shell_loop4.simps [simp del]

definition shell_main4 :: "os4 \<Rightarrow> string \<Rightarrow> string \<Rightarrow> builtin4 shell outcome res" where
  "shell_main4 os dir input =
     shell_loop4 os (fopen_stream input)
       (emit Prompt \<lparr>this = None, cwd = dir, ncmd = 0, trace = []\<rparr>)"

section \<open>SP_HW2\<close>

datatype builtin2 = Bi_exit2 | Bi_echo2

definition inbuilts2 :: "(string \<times> builtin2) list" where
  "inbuilts2 = [(''quit'', Bi_exit2), (''exit'', Bi_exit2), (''logout'', Bi_exit2),
     (''bye'', Bi_exit2), (''echo'', Bi_echo2)]"

definition is_builtin2 :: "string \<Rightarrow> builtin2 shell \<Rightarrow> int \<times> builtin2 shell" where
  "is_builtin2 = is_builtin_in inbuilts2"

fun run_builtin2 :: "builtin2 \<Rightarrow> argv \<Rightarrow> builtin2 shell \<Rightarrow> builtin2 shell outcome res" where
  "run_builtin2 Bi_exit2 argv st = Inr (Exited 0 st)"
| "run_builtin2 Bi_echo2 argv st = say (bi_echo argv) st"

definition do_builtin2 :: "argv \<Rightarrow> builtin2 shell \<Rightarrow> builtin2 shell outcome res" where
  "do_builtin2 argv st = bindE (deref (this st)) (\<lambda>f. run_builtin2 f argv st)"

text \<open>
  What \<open>waitpid\<close> answers: -1, 0 (no child has changed state; \<open>stat\<close> is not stored), or the
  child with its status.
\<close>

datatype waitres = WaitFails | NoChange | Changed wstatus

record os2 =
  found2 :: "string \<Rightarrow> bool"
  fork_ok2 :: "nat \<Rightarrow> bool"
  fork_errno2 :: int
  waitpid2 :: "nat \<Rightarrow> bool \<Rightarrow> waitres"   \<comment> \<open>for the n-th command; whether WNOHANG is given\<close>

definition report2 :: "string \<Rightarrow> wstatus \<Rightarrow> string" where
  "report2 name stat =
     (case stat of
        WSignaled n \<Rightarrow> name @ '' terminated by signal '' @ dec_nat n @ ''.'' @ [NL]
      | WExited n \<Rightarrow> name @ '' exited with status '' @ dec_nat n @ ''.'' @ [NL]
      | WStopped n \<Rightarrow> name @ '' stopped by signal '' @ dec_nat n @ ''.'' @ [NL]
      | WContinued \<Rightarrow> name @ '' continued'' @ [NL])"

text \<open>The child: cut at the first \<open>&\<close> (or store null over null), then exec.\<close>

definition child2 :: "os2 \<Rightarrow> argv \<Rightarrow> act list res" where
  "child2 os myArgv =
     bindE (scan ''&'' 0 myArgv) (\<lambda>i.
     bindE (store myArgv i None) (\<lambda>a.
     Inr (case args a of
            [] \<Rightarrow> [ExecFails [], ExitCode 1]
          | c # _ \<Rightarrow> if found2 os c then [Exec (args a)] else [ExecFails c, ExitCode 1])))"

definition run_command2 :: "os2 \<Rightarrow> argv \<Rightarrow> builtin2 shell \<Rightarrow> builtin2 shell outcome res" where
  "run_command2 os myArgv st =
     (let n = ncmd st; st1 = st\<lparr>ncmd := Suc n\<rparr> in
      if \<not> fork_ok2 os n then Inr (Exited (fork_errno2 os) (emit (ErrOutput ''fork'') st1))
      else
        bindE (is_background2 myArgv) (\<lambda>bg.
        let st2 = emit (Spawn (child2 os myArgv) (bg = 0)) st1 in
        case waitpid2 os n (bg \<noteq> 0) of
          WaitFails \<Rightarrow> Inr (Exited 1 (emit (ErrOutput ''waitpid'') st2))
        | NoChange \<Rightarrow> Inl Uninitialised
        | Changed stat \<Rightarrow>
            bindE (bindE (load myArgv 0) deref) (\<lambda>name.
            Inr (Running (emit (Output (report2 name stat)) st2)))))"

definition command2 :: "os2 \<Rightarrow> argv \<Rightarrow> builtin2 shell \<Rightarrow> builtin2 shell outcome res" where
  "command2 os myArgv st =
     bindE (bindE (load myArgv 0) deref) (\<lambda>cmd.
     let (b, st1) = is_builtin2 cmd st in
     if b \<noteq> 0 then do_builtin2 myArgv st1 else run_command2 os myArgv st1)"

function shell_loop2 :: "os2 \<Rightarrow> stream \<Rightarrow> builtin2 shell \<Rightarrow> builtin2 shell outcome res" where
  "shell_loop2 os f st =
     (case fgets 255 f of
        (None, _) \<Rightarrow> Inr (Exited 0 st)
      | (Some line, f') \<Rightarrow>
          (case parse2 (Some (upto_nul line)) of
             (None, _) \<Rightarrow> shell_loop2 os f' (emit Prompt st)
           | (Some hs, out) \<Rightarrow>
               bindE (command2 os (argv_of hs) (emit (Output out) st)) (\<lambda>r.
               case r of
                 Exited c st' \<Rightarrow> Inr (Exited c st')
               | Running st' \<Rightarrow>
                   bindE (free_argv (argv_of hs)) (\<lambda>_. shell_loop2 os f' (emit Prompt st')))))"
  by pat_completeness auto
termination
  by (relation "measure (\<lambda>(_, f, _). length (rest f))")
    (auto dest!: sym [of "(_, _)" "fgets _ _"] fgets_shorter [rotated])

declare shell_loop2.simps [simp del]

section \<open>The contract of is_builtin and do_builtin\<close>

locale builtin_table =
  fixes table :: "(string \<times> 'b) list"
    and is_b :: "string \<Rightarrow> 'b shell \<Rightarrow> int \<times> 'b shell"
    and do_b :: "argv \<Rightarrow> 'b shell \<Rightarrow> 'b shell outcome res"
    and run_b :: "'b \<Rightarrow> argv \<Rightarrow> 'b shell \<Rightarrow> 'b shell outcome res"
  assumes hit: "map_of table cmd = Some f \<Longrightarrow> is_b cmd st = (1, st\<lparr>this := Some f\<rparr>)"
    and miss: "map_of table cmd = None \<Longrightarrow> is_b cmd st = (0, st)"
    and run_this: "this st = Some f \<Longrightarrow> do_b a st = run_b f a st"
begin

lemma dispatch:
  "(let (b, st1) = is_b cmd st in if b \<noteq> 0 then do_b a st1 else k st1) =
   (case map_of table cmd of
      Some f \<Rightarrow> run_b f a (st\<lparr>this := Some f\<rparr>)
    | None \<Rightarrow> k st)"
  by (cases "map_of table cmd") (simp_all add: hit miss run_this)

lemma is_b_keyword: "fst (is_b cmd st) = 1 \<longleftrightarrow> cmd \<in> fst ` set table"
proof (cases "map_of table cmd")
  case None
  then show ?thesis by (simp add: miss map_of_eq_None_iff)
next
  case (Some f)
  then have "(cmd, f) \<in> set table" by (rule map_of_SomeD)
  then have "cmd \<in> fst ` set table" by force
  with Some show ?thesis by (simp add: hit)
qed

end

lemma search_table_map_of: "search_table table cmd = map_of table cmd"
  by (induction table) auto

interpretation b4: builtin_table inbuilts4 is_builtin4 "do_builtin4 os" "run_builtin4 os" for os
  by unfold_locales
    (auto simp: is_builtin4_def is_builtin_in_def search_table_map_of do_builtin4_def deref_def)

interpretation b2: builtin_table inbuilts2 is_builtin2 do_builtin2 run_builtin2
  by unfold_locales
    (auto simp: is_builtin2_def is_builtin_in_def search_table_map_of do_builtin2_def deref_def)

lemma load_cmd: "load (map Some (cmd # ws) @ r) 0 = Inr (Some cmd)"
  by (simp add: load_def)

text \<open>
  A command is dispatched to the function the table lists for its first word, run with the
  whole array, and to \<open>run_command\<close> when the table has no such keyword: what \<open>is_builtin\<close>
  leaves in \<open>this\<close> is what \<open>do_builtin\<close> runs, whatever \<open>this\<close> was before.
\<close>

theorem command4_dispatch:
  "command4 os (map Some (cmd # ws) @ None # r) st =
     (case map_of inbuilts4 cmd of
        Some f \<Rightarrow> run_builtin4 os f (map Some (cmd # ws) @ None # r) (st\<lparr>this := Some f\<rparr>)
      | None \<Rightarrow> run_command4 os (map Some (cmd # ws) @ None # r) st)"
  unfolding command4_def load_cmd by (simp add: deref_def b4.dispatch del: list.map append_Cons)

text \<open>
  The command \<open>builtin w\<close> says that \<open>w\<close> is a builtin feature exactly when the shell itself
  would run \<open>w\<close> as a builtin.
\<close>

theorem bi_builtin_agrees:
  "bi_builtin (map Some [c, w] @ None # r) =
     Inr (w @ (if fst (is_builtin4 w st) = 1 then '' is a builtin feature.''
               else '' is NOT a builtin feature.'') @ [NL])"
proof -
  have "search_table inbuilts4 w \<noteq> None \<longleftrightarrow> fst (is_builtin4 w st) = 1"
    unfolding b4.is_b_keyword search_table_map_of by (simp only: map_of_eq_None_iff not_not)
  then show ?thesis by (auto simp: bi_builtin_def load_def deref_def)
qed

section \<open>echo\<close>

lemma echo_words_args:
  "echo_words (map Some ws @ None # r) = Inr (concat (map (\<lambda>w. w @ '' '') ws))"
  by (induction ws) auto

text \<open>
  \<open>echo\<close> with at least one word, the first not \<open>-n\<close>, prints the words, each followed by a
  blank, and a newline.
\<close>

theorem bi_echo_words:
  assumes "w \<noteq> ''-n''"
  shows "bi_echo (map Some (c # w # ws) @ None # r) =
    Inr (concat (map (\<lambda>w. w @ '' '') (w # ws)) @ [NL])"
  using assms echo_words_args [of "w # ws" r]
  by (simp add: bi_echo_def load_def strcmp_ptr_def)

theorem bi_echo_words_witness:
  "bi_echo (map Some [''echo'', ''a'', ''b''] @ [None]) = Inr (''a b '' @ [NL])"
  using bi_echo_words [of "''a''" "''echo''" "[''b'']" "[]"] by simp

text \<open>
  \<open>echo -n k w1 .. wm\<close> prints the \<open>k\<close>-th of the words followed by a newline, for every
  \<open>k\<close> from 1 to \<open>m\<close>; for \<open>k = m+1\<close> it prints the null pointer and beyond that it reads past
  the array.
\<close>

theorem bi_echo_n:
  assumes "k \<ge> 1" and "int k + 2 \<le> INT_MAX"
  shows "bi_echo (map Some (c # ''-n'' # dec_nat k # ws) @ [None]) =
    (if k \<le> length ws then Inr (ws ! (k - 1) @ [NL])
     else if k = length ws + 1 then Inl NullDeref else Inl OutOfBounds)"
proof -
  let ?a = "map Some (c # ''-n'' # dec_nat k # ws) @ [None]"
  have a: "atoi (dec_nat k) = int k" using atoi_dec_nat [of k "[]"] assms(2) by simp
  have "load ?a (k + 2) = load (map Some ws @ [None]) (k - 1)"
    using assms(1) by (auto simp: load_def nth_Cons' nth_append)
  then have "bindE (load ?a (k + 2)) deref = (if k \<le> length ws then Inr (ws ! (k - 1))
      else if k = length ws + 1 then Inl NullDeref else Inl OutOfBounds)"
    using assms(1) by (auto simp: load_def nth_append deref_def)
  moreover have "loadi ?a (int k + 2) = load ?a (k + 2)"
    by (simp add: loadi_def nat_add_distrib)
  ultimately have l: "bindE (loadi ?a (int k + 2)) deref = (if k \<le> length ws then Inr (ws ! (k - 1))
      else if k = length ws + 1 then Inl NullDeref else Inl OutOfBounds)"
    by simp
  have "load ?a 1 = Inr (Some ''-n'')" "load ?a 2 = Inr (Some (dec_nat k))"
    by (simp_all add: load_def)
  with l show ?thesis
    by (simp add: bi_echo_def strcmp_ptr_def deref_def [of "Some _"] a Let_def del: list.map append_Cons)
qed

theorem bi_echo_n_witness:
  "bi_echo (map Some [''echo'', ''-n'', dec_nat 2, ''x'', ''y''] @ [None]) = Inr (''y'' @ [NL])"
  using bi_echo_n [of 2 "''echo''" "[''x'', ''y'']"] by (simp add: INT_MAX_def)

section \<open>A session\<close>

text \<open>
  What the main loop is meant to do: one command per line, lines without tokens skipped, a prompt
  after each, until a command ends the shell or the input ends.
\<close>

fun run_lines :: "os4 \<Rightarrow> string list \<Rightarrow> builtin4 shell \<Rightarrow> builtin4 shell outcome res" where
  "run_lines os [] st = Inr (Exited 0 st)"
| "run_lines os (l # ls) st =
     (if toks delim [] l = [] then run_lines os ls (emit Prompt st)
      else bindE (command4 os (map Some (toks delim [] l) @ [None]) st) (\<lambda>r.
           case r of
             Exited c st' \<Rightarrow> Inr (Exited c st')
           | Running st' \<Rightarrow> run_lines os ls (emit Prompt st')))"

definition text_line :: "string \<Rightarrow> bool" where
  "text_line l \<longleftrightarrow> NL \<notin> set l \<and> nul_free l"

lemma toks_snoc: "c \<in> set d \<Longrightarrow> toks d cur (s @ [c]) = toks d cur s"
  by (induction s arbitrary: cur) auto

lemma parse4_line:
  "parse4 (Some (l @ [NL])) =
     (if toks delim [] l = [] then None else Some (map malloc_strcpy (toks delim [] l)))"
  by (simp add: parse4_toks toks_snoc)

lemma argv_of_malloc: "argv_of (map malloc_strcpy ws) = map Some ws @ [None]"
  by (simp add: argv_of_map)

lemma shell_loop4_line:
  assumes "text_line l" and "length l \<le> 253"
  shows "shell_loop4 os \<lparr>rest = l @ NL # r, ateof = e\<rparr> st =
    (if toks delim [] l = [] then shell_loop4 os \<lparr>rest = r, ateof = e\<rparr> (emit Prompt st)
     else bindE (command4 os (map Some (toks delim [] l) @ [None]) st) (\<lambda>o'.
           case o' of
             Exited c st' \<Rightarrow> Inr (Exited c st')
           | Running st' \<Rightarrow> shell_loop4 os \<lparr>rest = r, ateof = e\<rparr> (emit Prompt st')))"
proof -
  have fg: "fgets 255 \<lparr>rest = l @ NL # r, ateof = e\<rparr> = (Some (l @ [NL]), \<lparr>rest = r, ateof = e\<rparr>)"
    using fgets_line [of l 255 "\<lparr>rest = l @ NL # r, ateof = e\<rparr>" r] assms
    by (simp add: text_line_def)
  have un: "upto_nul (l @ [NL]) = l @ [NL]"
    using assms(1) by (simp add: upto_nul_ident text_line_def)
  have fr: "free_argv (map Some ws @ [None]) = Inr ws" for ws
    using free_argv_frees [of "map Some ws @ [None]"] by simp
  show ?thesis
    by (subst shell_loop4.simps)
      (simp add: fg un parse4_line argv_of_malloc fr cong: outcome.case_cong)
qed

text \<open>
  C14: On an input of text lines of at most 253 characters the shell executes exactly the
  commands of its lines, one per line and in order, and ends with the first command that ends it or
  at the end of the input.
\<close>

theorem shell_main4_session:
  assumes "\<forall>l \<in> set ls. text_line l \<and> length l \<le> 253"
  shows "shell_main4 os dir (concat (map (\<lambda>l. l @ [NL]) ls)) =
    run_lines os ls (emit Prompt \<lparr>this = None, cwd = dir, ncmd = 0, trace = []\<rparr>)"
proof -
  have "shell_loop4 os \<lparr>rest = concat (map (\<lambda>l. l @ [NL]) ls), ateof = False\<rparr> st = run_lines os ls st"
    for st
    using assms
  proof (induction ls arbitrary: st)
    case Nil
    then show ?case by (subst shell_loop4.simps) (simp add: fgets_def)
  next
    case (Cons l ls)
    then have l: "text_line l" "length l \<le> 253" by auto
    have ls: "shell_loop4 os \<lparr>rest = concat (map (\<lambda>l. l @ [NL]) ls), ateof = False\<rparr> st = run_lines os ls st"
      for st using Cons by simp
    have eq: "concat (map (\<lambda>l. l @ [NL]) (l # ls)) = l @ NL # concat (map (\<lambda>l. l @ [NL]) ls)"
      by simp
    show ?case unfolding eq shell_loop4_line [OF l] by (simp add: ls cong: outcome.case_cong)
  qed
  then show ?thesis by (simp add: shell_main4_def fopen_stream_def)
qed

theorem shell_main4_session_witness:
  "shell_main4 example_os ''/'' (concat (map (\<lambda>l. l @ [NL]) [''ls -l'', [], ''quit''])) =
     run_lines example_os [''ls -l'', [], ''quit'']
       (emit Prompt \<lparr>this = None, cwd = ''/'', ncmd = 0, trace = []\<rparr>)"
  by (rule shell_main4_session) (simp add: text_line_def)

text \<open>
  In \<open>SP_HW2\<close>, a background command whose child is still running when the shell looks
  (\<open>waitpid\<close> with \<open>WNOHANG\<close> answers 0) makes \<open>run_command\<close> read the status variable that
  was never stored.
\<close>

theorem run_command2_uninitialised:
  assumes "''&'' \<in> set (c # ws)" and "fork_ok2 os (ncmd st)"
    and "waitpid2 os (ncmd st) True = NoChange"
  shows "run_command2 os (map Some (c # ws) @ [None]) st = Inl Uninitialised"
proof -
  have wf: "argv_wf (map Some (c # ws) @ [None])" "args (map Some (c # ws) @ [None]) = c # ws"
    by (rule argv_wf_args)+
  have "is_background2 (map Some (c # ws) @ [None]) = Inr 1"
    unfolding is_background2_wf [OF wf(1)] wf(2) using assms(1) by simp
  then show ?thesis unfolding run_command2_def Let_def using assms(2,3) by simp
qed

definition example_os2 :: os2 where
  "example_os2 = \<lparr>found2 = (\<lambda>_. True), fork_ok2 = (\<lambda>_. True), fork_errno2 = 11,
     waitpid2 = (\<lambda>_ nohang. if nohang then NoChange else Changed (WExited 0))\<rparr>"

theorem run_command2_uninitialised_witness:
  "run_command2 example_os2 (map Some [''sleep'', ''9'', ''&''] @ [None])
     \<lparr>this = None, cwd = ''/'', ncmd = 0, trace = []\<rparr> = Inl Uninitialised"
  by (rule run_command2_uninitialised) (simp_all add: example_os2_def)

end
