(* ===== verification/PipeRun.thy ===== *)
theory PipeRun
  imports ShellExec
begin

text \<open>
  What the plans of \<open>ShellExec\<close> do: their system calls executed by a process with its standard input and
  output, over pipes of a bounded capacity and files.  A program is a function of its arguments and of all of
  its input that gives its output (\<open>None\<close>: its input cannot be read); the functions are a parameter.

  A process that waits for ever ends the execution without a result: one that reads a pipe whose write end
  somebody holds, one that writes more than a pipe takes while its reader waits, and a parent that waits for
  such a child.  A child is executed when it is forked; what its parent does before it waits for it touches
  neither the pipes nor what the child uses.
\<close>

section \<open>Processes and pipes\<close>

type_synonym program = "string list \<Rightarrow> string option \<Rightarrow> string"

datatype source = Typed string | Pipe_in nat | No_input

datatype sink = Terminal | Pipe_out nat | To_file string | No_output

record io =
  src :: source
  snk :: sink
  held :: "pend list"           \<comment> \<open>ends of pipes on other descriptors\<close>

text \<open>
  A program that was executed: its arguments, its input, and whether its output is a pipe that nobody reads.
  \<open>ran\<close> lists them in the order in which they end, \<open>complaints\<close> is what processes wrote to the standard error.
\<close>

datatype execution = Ran "string list" "string option" bool

record kern =
  buf :: "nat \<Rightarrow> string"
  shown :: string
  files :: "string \<Rightarrow> string option"
  ran :: "execution list"
  complaints :: "string list"

definition ends :: "io \<Rightarrow> pend list" where
  "ends io = held io @ (case src io of Pipe_in k \<Rightarrow> [ReadEnd k] | _ \<Rightarrow> []) @
     (case snk io of Pipe_out k \<Rightarrow> [WriteEnd k] | _ \<Rightarrow> [])"

text \<open>\<open>freopen\<close> for reading finds the contents of the file, for writing empties it.\<close>

fun fd_call :: "fdcall \<Rightarrow> io \<Rightarrow> kern \<Rightarrow> io \<times> kern" where
  "fd_call (CloseFd n) io kn =
     (if n = 0 then (io\<lparr>src := No_input\<rparr>, kn) else if n = 1 then (io\<lparr>snk := No_output\<rparr>, kn) else (io, kn))"
| "fd_call (Freopen file mode n) io kn =
     (if n = 0 then
        (io\<lparr>src := (case file of None \<Rightarrow> No_input
                    | Some f \<Rightarrow> (case files kn f of None \<Rightarrow> No_input | Some t \<Rightarrow> Typed t))\<rparr>, kn)
      else if n = 1 then
        (case file of None \<Rightarrow> (io\<lparr>snk := No_output\<rparr>, kn)
         | Some f \<Rightarrow> (io\<lparr>snk := To_file f\<rparr>, kn\<lparr>files := (files kn)(f \<mapsto> [])\<rparr>))
      else (io, kn))"

fun dup_end :: "pend \<Rightarrow> nat \<Rightarrow> io \<Rightarrow> io" where
  "dup_end (ReadEnd k) n io = (if n = 0 then io\<lparr>src := Pipe_in k\<rparr> else io)"
| "dup_end (WriteEnd k) n io = (if n = 1 then io\<lparr>snk := Pipe_out k\<rparr> else io)"

text \<open>
  The whole input of a program, and what becomes of its output; \<open>others\<close> are the ends that the waiting
  processes hold.  Without a reader the output is lost, and with it the program.
\<close>

definition reads :: "pend list \<Rightarrow> io \<Rightarrow> kern \<Rightarrow> string option option" where
  "reads others io kn =
     (case src io of
        Typed t \<Rightarrow> Some (Some t)
      | No_input \<Rightarrow> Some None
      | Pipe_in k \<Rightarrow> if WriteEnd k \<in> set (ends io @ others) then None else Some (Some (buf kn k)))"

definition writes :: "nat \<Rightarrow> pend list \<Rightarrow> io \<Rightarrow> string \<Rightarrow> kern \<Rightarrow> kern option" where
  "writes cap others io t kn =
     (case snk io of
        Terminal \<Rightarrow> Some (kn\<lparr>shown := shown kn @ t\<rparr>)
      | To_file f \<Rightarrow> Some (kn\<lparr>files := (files kn)(f \<mapsto> (case files kn f of None \<Rightarrow> [] | Some old \<Rightarrow> old) @ t)\<rparr>)
      | No_output \<Rightarrow> Some kn
      | Pipe_out k \<Rightarrow>
          if ReadEnd k \<notin> set (ends io @ others) then Some kn
          else if length (buf kn k @ t) \<le> cap then Some (kn\<lparr>buf := (buf kn)(k := buf kn k @ t)\<rparr>)
          else None)"

definition unread :: "pend list \<Rightarrow> io \<Rightarrow> bool" where
  "unread others io = (case snk io of Pipe_out k \<Rightarrow> ReadEnd k \<notin> set (ends io @ others) | _ \<Rightarrow> False)"

text \<open>The calls of a process in order; \<open>stuck\<close>: its child waits for ever.\<close>

fun run_acts :: "program \<Rightarrow> nat \<Rightarrow> pend list \<Rightarrow> bool \<Rightarrow> io \<Rightarrow> kern \<Rightarrow> act list \<Rightarrow> kern option" where
  "run_acts prog cap others stuck io kn [] = Some kn"
| "run_acts prog cap others stuck io kn (Fd c # as) =
     (case fd_call c io kn of (io', kn') \<Rightarrow> run_acts prog cap others stuck io' kn' as)"
| "run_acts prog cap others stuck io kn (MkPipe k # as) =
     run_acts prog cap others stuck (io\<lparr>held := ReadEnd k # WriteEnd k # held io\<rparr>)
       (kn\<lparr>buf := (buf kn)(k := [])\<rparr>) as"
| "run_acts prog cap others stuck io kn (CloseEnd e # as) =
     run_acts prog cap others stuck (io\<lparr>held := filter (\<lambda>h. h \<noteq> e) (held io)\<rparr>) kn as"
| "run_acts prog cap others stuck io kn (Dup2 e n # as) = run_acts prog cap others stuck (dup_end e n io) kn as"
| "run_acts prog cap others stuck io kn (Fork c # as) =
     (case run_acts prog cap (ends io @ others) False io kn c of
        None \<Rightarrow> run_acts prog cap others True io kn as
      | Some kn' \<Rightarrow> run_acts prog cap others False io kn' as)"
| "run_acts prog cap others stuck io kn (WaitChild # as) =
     (if stuck then None else run_acts prog cap others False io kn as)"
| "run_acts prog cap others stuck io kn (Exec ss # as) =
     (case reads others io kn of
        None \<Rightarrow> None
      | Some x \<Rightarrow> writes cap others io (prog ss x) (kn\<lparr>ran := ran kn @ [Ran ss x (unread others io)]\<rparr>))"
| "run_acts prog cap others stuck io kn (ExecFails c # as) = run_acts prog cap others stuck io kn as"
| "run_acts prog cap others stuck io kn (Message m # as) =
     run_acts prog cap others stuck io (kn\<lparr>complaints := complaints kn @ [m]\<rparr>) as"
| "run_acts prog cap others stuck io kn (ExitErrno # as) = Some kn"
| "run_acts prog cap others stuck io kn (ExitCode n # as) = Some kn"

section \<open>What a pipeline computes\<close>

text \<open>What reaches the command behind the commands \<open>ss\<close>, and their executions.\<close>

fun piped :: "program \<Rightarrow> string option \<Rightarrow> string list list \<Rightarrow> string option" where
  "piped prog x [] = x"
| "piped prog x (s # ss) = piped prog (Some (prog s x)) ss"

fun executions :: "program \<Rightarrow> string option \<Rightarrow> string list list \<Rightarrow> execution list" where
  "executions prog x [] = []"
| "executions prog x (s # ss) = Ran s x False # executions prog (Some (prog s x)) ss"

text \<open>The output of every command but the last goes into a pipe at once.\<close>

fun fit_pipes :: "program \<Rightarrow> nat \<Rightarrow> string option \<Rightarrow> string list list \<Rightarrow> bool" where
  "fit_pipes prog cap x [] = True"
| "fit_pipes prog cap x [s] = True"
| "fit_pipes prog cap x (s # ss) \<longleftrightarrow> length (prog s x) \<le> cap \<and> fit_pipes prog cap (Some (prog s x)) ss"

lemma executions_snoc: "executions prog x (us @ [t]) = executions prog x us @ [Ran t (piped prog x us) False]"
  by (induction us arbitrary: x) simp_all

definition unused :: "nat \<Rightarrow> pend list \<Rightarrow> bool" where
  "unused k es \<longleftrightarrow> (\<forall>j \<ge> k. ReadEnd j \<notin> set es \<and> WriteEnd j \<notin> set es)"

lemma reads_old:
  assumes "reads others io kn = Some x" and "unused k (ends io @ others)"
  shows "reads others' (io\<lparr>held := h\<rparr>) (kn\<lparr>buf := (buf kn)(k := b)\<rparr>) =
    (if \<exists>j. src io = Pipe_in j \<and> WriteEnd j \<in> set (ends (io\<lparr>held := h\<rparr>) @ others') then None else Some x)"
  using assms by (auto simp: reads_def unused_def ends_def split: source.splits if_splits)

lemma unused_filter: "unused k (held io @ r) \<Longrightarrow> filter (\<lambda>h. h \<noteq> ReadEnd k) (held io) = held io \<and>
    filter (\<lambda>h. h \<noteq> WriteEnd k) (held io) = held io"
  by (auto simp: unused_def filter_id_conv)

lemma unused_held: "unused k (ends io @ others) \<Longrightarrow> unused k (held io @ others)"
  by (auto simp: unused_def ends_def)

text \<open>One stage: the child gets the input and leaves its output in the pipe, or everything waits for ever.\<close>

lemma run_stage:
  assumes "reads others io kn = Some x" and "unused k (ends io @ others)" and "snk io = Terminal"
  shows "run_acts prog cap others False io kn
      (MkPipe k # Fork [CloseEnd (ReadEnd k), Dup2 (WriteEnd k) 1, CloseEnd (WriteEnd k), Exec s] #
       CloseEnd (WriteEnd k) # Dup2 (ReadEnd k) 0 # WaitChild # CloseEnd (ReadEnd k) # as) =
    (if length (prog s x) \<le> cap
     then run_acts prog cap others False (io\<lparr>src := Pipe_in k\<rparr>)
       (kn\<lparr>buf := (buf kn)(k := prog s x), ran := ran kn @ [Ran s x False]\<rparr>) as
     else None)"
proof -
  let ?io = "io\<lparr>held := ReadEnd k # WriteEnd k # held io\<rparr>"
  let ?kn = "kn\<lparr>buf := (buf kn)(k := [])\<rparr>"
  let ?child = "io\<lparr>snk := Pipe_out k, held := held io\<rparr>"
  have old: "src io = Pipe_in j \<Longrightarrow> j \<noteq> k \<and> WriteEnd j \<notin> set (ends io @ others)" for j
    using assms(1,2) by (auto simp: reads_def unused_def ends_def split: if_splits)
  have get: "reads (ends ?io @ others) ?child ?kn = Some x"
    using assms(1,3) old by (auto simp: reads_def ends_def split: source.splits if_splits)
  have put: "writes cap (ends ?io @ others) ?child t (?kn\<lparr>ran := r\<rparr>) =
      (if length t \<le> cap then Some (?kn\<lparr>buf := (buf ?kn)(k := t), ran := r\<rparr>) else None)" for t r
    by (simp add: writes_def ends_def)
  have seen: "\<not> unread (ends ?io @ others) ?child" by (simp add: unread_def ends_def)
  have child: "run_acts prog cap (ends ?io @ others) False ?io ?kn
      [CloseEnd (ReadEnd k), Dup2 (WriteEnd k) 1, CloseEnd (WriteEnd k), Exec s] =
      (if length (prog s x) \<le> cap
       then Some (kn\<lparr>buf := (buf kn)(k := prog s x), ran := ran kn @ [Ran s x False]\<rparr>) else None)"
    using get put [of "prog s x"] seen unused_filter [OF unused_held [OF assms(2)]] by simp
  show ?thesis
    using child unused_filter [OF unused_held [OF assms(2)]] by simp
qed

text \<open>The end: the last command is executed, or the one before it again with an output nobody reads.\<close>

lemma last_input:
  assumes "reads others io kn = Some x" and "unused k (ends io @ others)" and "snk io = Terminal"
  shows "reads others (io\<lparr>held := ReadEnd k # WriteEnd k # held io\<rparr>) (kn\<lparr>buf := (buf kn)(k := [])\<rparr>) = Some x"
    and "reads others (io\<lparr>snk := Pipe_out k, held := held io\<rparr>) (kn\<lparr>buf := (buf kn)(k := [])\<rparr>) = Some x"
proof -
  have "src io = Pipe_in j \<Longrightarrow> j \<noteq> k \<and> WriteEnd j \<notin> set (ends io @ others)" for j
    using assms(1,2) by (auto simp: reads_def unused_def ends_def split: if_splits)
  with assms(1,3) show "reads others (io\<lparr>held := ReadEnd k # WriteEnd k # held io\<rparr>) (kn\<lparr>buf := (buf kn)(k := [])\<rparr>) = Some x"
    and "reads others (io\<lparr>snk := Pipe_out k, held := held io\<rparr>) (kn\<lparr>buf := (buf kn)(k := [])\<rparr>) = Some x"
    by (auto simp: reads_def ends_def split: source.splits if_splits)
qed

lemma run_last:
  assumes "reads others io kn = Some x" and "unused k (ends io @ others)" and "snk io = Terminal"
  shows "run_acts prog cap others False io kn [MkPipe k, Exec s] =
    Some (kn\<lparr>buf := (buf kn)(k := []), shown := shown kn @ prog s x, ran := ran kn @ [Ran s x False]\<rparr>)"
  using last_input(1) [OF assms] assms(3) by (simp add: writes_def unread_def)

lemma run_again:
  assumes "reads others io kn = Some x" and "unused (Suc k) (ends io @ others)" and "snk io = Terminal"
  shows "run_acts prog cap others False io kn (MkPipe (Suc k) # ExecFails c # again k s) =
    Some (kn\<lparr>buf := (buf kn)(Suc k := []), ran := ran kn @ [Ran s x True]\<rparr>)"
proof -
  have "ReadEnd (Suc k) \<notin> set (ends (io\<lparr>snk := Pipe_out (Suc k), held := held io\<rparr>) @ others)"
    using assms by (auto simp: unused_def ends_def split: source.splits)
  then show ?thesis
    using last_input(2) [OF assms] unused_filter [OF unused_held [OF assms(2)]]
    by (simp add: again_def writes_def unread_def)
qed

text \<open>\<open>out\<close> and \<open>e\<close>: what the end shows of the input it gets, and what it executes.\<close>

lemma run_pipeline:
  assumes "ss \<noteq> []" and "reads others io kn = Some x" and "unused k (ends io @ others)" and "snk io = Terminal"
    and "\<And>io kn x. reads others io kn = Some x \<Longrightarrow> unused (k + length ss - 1) (ends io @ others) \<Longrightarrow> snk io = Terminal \<Longrightarrow>
      run_acts prog cap others False io kn (MkPipe (k + length ss - 1) # fin) =
        Some (kn\<lparr>buf := (buf kn)(k + length ss - 1 := []), shown := shown kn @ out x, ran := ran kn @ [e x]\<rparr>)"
  shows "(fit_pipes prog cap x ss \<longrightarrow> (\<exists>b. run_acts prog cap others False io kn (pipeline fin k ss) =
      Some (kn\<lparr>buf := b, shown := shown kn @ out (piped prog x (butlast ss)),
        ran := ran kn @ executions prog x (butlast ss) @ [e (piped prog x (butlast ss))]\<rparr>))) \<and>
    (\<not> fit_pipes prog cap x ss \<longrightarrow> run_acts prog cap others False io kn (pipeline fin k ss) = None)"
  using assms
proof (induction fin k ss arbitrary: io kn x rule: pipeline.induct)
  case (1 fin k)
  then show ?case by simp
next
  case (2 fin k s)
  then show ?case using 2(5) [of io kn x] by auto
next
  case (3 fin k s t ss)
  let ?io = "io\<lparr>src := Pipe_in k\<rparr>" and ?kn = "kn\<lparr>buf := (buf kn)(k := prog s x), ran := ran kn @ [Ran s x False]\<rparr>"
  have next_in: "reads others ?io ?kn = Some (Some (prog s x))"
    using 3(4,5) by (auto simp: reads_def ends_def unused_def)
  have next_free: "unused (Suc k) (ends ?io @ others)"
    using 3(4,5) by (auto simp: ends_def unused_def)
  have at: "Suc k + length (t # ss) - 1 = k + length (s # t # ss) - 1" by simp
  note rec = 3(1) [OF _ next_in next_free, unfolded at, OF _ _ 3(6)]
  have rest: "(fit_pipes prog cap (Some (prog s x)) (t # ss) \<longrightarrow>
      (\<exists>b. run_acts prog cap others False ?io ?kn (pipeline fin (Suc k) (t # ss)) =
        Some (?kn\<lparr>buf := b, shown := shown ?kn @ out (piped prog (Some (prog s x)) (butlast (t # ss))),
          ran := ran ?kn @ executions prog (Some (prog s x)) (butlast (t # ss)) @
            [e (piped prog (Some (prog s x)) (butlast (t # ss)))]\<rparr>))) \<and>
    (\<not> fit_pipes prog cap (Some (prog s x)) (t # ss) \<longrightarrow>
      run_acts prog cap others False ?io ?kn (pipeline fin (Suc k) (t # ss)) = None)"
    by (rule rec) (simp_all add: 3(5))
  have stage: "run_acts prog cap others False io kn (pipeline fin k (s # t # ss)) =
    (if length (prog s x) \<le> cap then run_acts prog cap others False ?io ?kn (pipeline fin (Suc k) (t # ss)) else None)"
    using run_stage [OF 3(3-5), of prog cap s "pipeline fin (Suc k) (t # ss)"] by simp
  have last: "butlast (s # t # ss) = s # butlast (t # ss)" by simp
  show ?case
    using rest unfolding stage last fit_pipes.simps piped.simps executions.simps
    by (cases "length (prog s x) \<le> cap") simp_all
qed

section \<open>Properties\<close>

definition shell_child :: "string \<Rightarrow> io" where
  "shell_child inp = \<lparr>src = Typed inp, snk = Terminal, held = []\<rparr>"

text \<open>A pipeline, whatever becomes of its last command.\<close>

lemma plan_runs:
  assumes "os_up os" and "2 \<le> length ss"
    and "\<forall>s \<in> set (butlast ss). stage os s" and "is_command (last ss)"
    and "\<forall>s \<in> set ss. ''<'' \<notin> set s \<and> ''>'' \<notin> set s"
    and "x = piped prog (Some inp) (butlast ss)"
  shows "\<exists>acts. child4 os 0 (map Some (join_pipes ss) @ [None]) = Inr acts \<and>
    (if fit_pipes prog cap (Some inp) ss
     then \<exists>b. run_acts prog cap [] False (shell_child inp) kn acts =
       Some (case last_args os (length ss - 2) (last ss) of
           Some t \<Rightarrow> kn\<lparr>buf := b, shown := shown kn @ prog t x,
             ran := ran kn @ executions prog (Some inp) (butlast ss @ [t])\<rparr>
         | None \<Rightarrow> kn\<lparr>buf := b,
             ran := ran kn @ executions prog (Some inp) (butlast ss) @ [Ran (last (butlast ss)) x True]\<rparr>)
     else run_acts prog cap [] False (shell_child inp) kn acts = None)"
proof -
  let ?la = "last_args os (length ss - 2) (last ss)" and ?s = "last (butlast ss)"
  let ?fin = "ending os (length ss - 2) ?s (last ss)"
  let ?out = "\<lambda>x. case ?la of Some t \<Rightarrow> prog t x | None \<Rightarrow> []"
  let ?e = "\<lambda>x. case ?la of Some t \<Rightarrow> Ran t x False | None \<Rightarrow> Ran ?s x True"
  have at: "0 + length ss - 1 = Suc (length ss - 2)" using assms(2) by simp
  have fin: "run_acts prog cap [] False io kn (MkPipe (0 + length ss - 1) # ?fin) =
      Some (kn\<lparr>buf := (buf kn)(0 + length ss - 1 := []), shown := shown kn @ ?out x, ran := ran kn @ [?e x]\<rparr>)"
    if "reads [] io kn = Some x" "unused (0 + length ss - 1) (ends io @ [])" "snk io = Terminal" for io kn x
    using run_last [OF that, of prog cap] run_again [OF that [unfolded at], of prog cap]
    unfolding at ending_def by (cases ?la) simp_all
  have "ss \<noteq> []" using assms(2) by auto
  moreover have "reads [] (shell_child inp) kn = Some (Some inp)" "unused 0 (ends (shell_child inp) @ [])"
      "snk (shell_child inp) = Terminal"
    by (simp_all add: reads_def shell_child_def ends_def unused_def)
  ultimately have "(fit_pipes prog cap (Some inp) ss \<longrightarrow>
      (\<exists>b. run_acts prog cap [] False (shell_child inp) kn (pipeline_plan os ss) =
        Some (kn\<lparr>buf := b, shown := shown kn @ ?out x, ran := ran kn @ executions prog (Some inp) (butlast ss) @ [?e x]\<rparr>))) \<and>
    (\<not> fit_pipes prog cap (Some inp) ss \<longrightarrow> run_acts prog cap [] False (shell_child inp) kn (pipeline_plan os ss) = None)"
    using run_pipeline [where ss = ss and others = "[]" and io = "shell_child inp" and kn = kn and x = "Some inp" and k = 0
        and prog = prog and cap = cap and fin = ?fin and out = ?out and e = ?e, OF _ _ _ _ fin]
    unfolding assms(6) pipeline_plan_def by blast
  moreover have "kn\<lparr>buf := b, shown := shown kn @ ?out x, ran := ran kn @ executions prog (Some inp) (butlast ss) @ [?e x]\<rparr> =
      (case ?la of
         Some t \<Rightarrow> kn\<lparr>buf := b, shown := shown kn @ prog t x, ran := ran kn @ executions prog (Some inp) (butlast ss @ [t])\<rparr>
       | None \<Rightarrow> kn\<lparr>buf := b,
           ran := ran kn @ executions prog (Some inp) (butlast ss) @ [Ran ?s x True]\<rparr>)" for b
    by (cases ?la; cases kn) (simp_all add: executions_snoc assms(6))
  ultimately show ?thesis using child4_plan [OF assms(1-5)] by simp
qed

text \<open>
  C2: the calls the child of the shell makes for a pipeline (no redirection, every command found, no failing
  call) compute the composition of its commands: each runs once, on the output of the one before it, the
  last command's output appears on the terminal and nothing else changes, provided that the output of each
  other command fits into a pipe; if one does not, shell and commands wait for ever, because the parent waits
  for the command before anybody reads its output.  What the memory from \<open>malloc\<close> holds behind the arguments
  of the last command decides whether it runs with these, or with one more, or not at all: then the command
  before it runs again, on its own output, and nothing is shown.
\<close>
theorem pipeline_computes:
  assumes "os_up os" and "2 \<le> length ss"
    and "\<forall>s \<in> set ss. stage os s \<and> ''<'' \<notin> set s \<and> ''>'' \<notin> set s"
    and "x = piped prog (Some inp) (butlast ss)"
  shows "\<exists>acts. child4 os 0 (map Some (join_pipes ss) @ [None]) = Inr acts \<and>
    (if fit_pipes prog cap (Some inp) ss
     then \<exists>b. run_acts prog cap [] False (shell_child inp) kn acts =
       Some (case junk os (length ss - 2) (length (last ss)) of
           Null_ptr \<Rightarrow> kn\<lparr>buf := b, shown := shown kn @ prog (last ss) x,
             ran := ran kn @ executions prog (Some inp) ss\<rparr>
         | To_str g \<Rightarrow> kn\<lparr>buf := b, shown := shown kn @ prog (last ss @ [g]) x,
             ran := ran kn @ executions prog (Some inp) (butlast ss @ [last ss @ [g]])\<rparr>
         | Wild \<Rightarrow> kn\<lparr>buf := b,
             ran := ran kn @ executions prog (Some inp) (butlast ss) @ [Ran (last (butlast ss)) x True]\<rparr>)
     else run_acts prog cap [] False (shell_child inp) kn acts = None)"
proof -
  have ne: "ss \<noteq> []" and st: "\<forall>s \<in> set ss. stage os s" using assms by auto
  then have "found os (hd (last ss))" by (simp add: stage_def)
  then have la: "last_args os (length ss - 2) (last ss) =
      (case junk os (length ss - 2) (length (last ss)) of
         Null_ptr \<Rightarrow> Some (last ss) | To_str g \<Rightarrow> Some (last ss @ [g]) | Wild \<Rightarrow> None)"
    by (simp add: last_args_def stray_args_def)
  have "executions prog (Some inp) (butlast ss @ [last ss]) = executions prog (Some inp) ss" using ne by simp
  then have "(case last_args os (length ss - 2) (last ss) of
           Some t \<Rightarrow> kn\<lparr>buf := b, shown := shown kn @ prog t x,
             ran := ran kn @ executions prog (Some inp) (butlast ss @ [t])\<rparr>
         | None \<Rightarrow> kn\<lparr>buf := b,
             ran := ran kn @ executions prog (Some inp) (butlast ss) @ [Ran (last (butlast ss)) x True]\<rparr>) =
      (case junk os (length ss - 2) (length (last ss)) of
           Null_ptr \<Rightarrow> kn\<lparr>buf := b, shown := shown kn @ prog (last ss) x,
             ran := ran kn @ executions prog (Some inp) ss\<rparr>
         | To_str g \<Rightarrow> kn\<lparr>buf := b, shown := shown kn @ prog (last ss @ [g]) x,
             ran := ran kn @ executions prog (Some inp) (butlast ss @ [last ss @ [g]])\<rparr>
         | Wild \<Rightarrow> kn\<lparr>buf := b,
             ran := ran kn @ executions prog (Some inp) (butlast ss) @ [Ran (last (butlast ss)) x True]\<rparr>)" for b
    by (simp add: la split: slot.split)
  note same = this
  have plain: "\<forall>s \<in> set ss. ''<'' \<notin> set s \<and> ''>'' \<notin> set s" using assms(3) by blast
  note cmds = stages_commands [OF ne st]
  show ?thesis
    using plan_runs [OF assms(1,2) cmds [THEN conjunct1] cmds [THEN conjunct2] plain assms(4), where cap = cap and kn = kn]
    by (simp only: same)
qed

text \<open>Commands for the witnesses: \<open>cat\<close>, one that doubles its input, and one that counts characters.\<close>

definition example_prog :: program where
  "example_prog ss inp =
     (case inp of None \<Rightarrow> [] | Some t \<Rightarrow> if hd ss = ''ls'' then t @ t else if hd ss = ''wc'' then dec_nat (length t) else t)"

text \<open>With pipes of four bytes the doubled input of two characters comes through, and that of three does not.\<close>
definition empty_kern :: kern where
  "empty_kern = \<lparr>buf = (\<lambda>_. []), shown = [], files = (\<lambda>_. None), ran = [], complaints = []\<rparr>"

theorem pipeline_computes_witness:
  "\<exists>acts b. child4 example_os 0 (map Some (join_pipes [[''ls''], [''wc'']]) @ [None]) = Inr acts \<and>
    run_acts example_prog 4 [] False (shell_child ''ab'') empty_kern acts =
      Some (empty_kern\<lparr>buf := b, shown := ''4'', ran := [Ran [''ls''] (Some ''ab'') False, Ran [''wc''] (Some ''abab'') False]\<rparr>) \<and>
    run_acts example_prog 4 [] False (shell_child ''abc'') empty_kern acts = None"
proof -
  have ok: "os_up example_os" "2 \<le> length [[''ls''], [''wc'']]"
      "\<forall>s \<in> set [[''ls''], [''wc'']]. stage example_os s \<and> ''<'' \<notin> set s \<and> ''>'' \<notin> set s"
    by (simp_all add: example_os_def os_up_def stage_def is_command_def)
  have four: "dec_nat (Suc (Suc (Suc (Suc 0)))) = ''4''" by code_simp
  note run = pipeline_computes [OF ok refl, where prog = example_prog and cap = 4 and kn = empty_kern]
  have junk: "junk example_os n m = Null_ptr" for n m by (simp add: example_os_def)
  have fits: "fit_pipes example_prog 4 (Some ''ab'') [[''ls''], [''wc'']] = True"
      "fit_pipes example_prog 4 (Some ''abc'') [[''ls''], [''wc'']] = False"
    by (simp_all add: example_prog_def)
  obtain acts b where a: "child4 example_os 0 (map Some (join_pipes [[''ls''], [''wc'']]) @ [None]) = Inr acts"
    and b: "run_acts example_prog 4 [] False (shell_child ''ab'') empty_kern acts = Some (empty_kern\<lparr>buf := b,
      shown := ''4'', ran := [Ran [''ls''] (Some ''ab'') False, Ran [''wc''] (Some ''abab'') False]\<rparr>)"
    using run [where inp = "''ab''"] unfolding junk slot.case fits if_True
    by (auto simp: example_prog_def empty_kern_def four)
  moreover obtain acts' where "child4 example_os 0 (map Some (join_pipes [[''ls''], [''wc'']]) @ [None]) = Inr acts'"
    and "run_acts example_prog 4 [] False (shell_child ''abc'') empty_kern acts' = None"
    using run [where inp = "''abc''"] unfolding fits if_False by blast
  ultimately show ?thesis by (metis sum.inject(2))
qed

text \<open>
  An output redirection in front of an input redirection does both: the file behind \<open>>\<close> holds the output of
  the command on the contents of the file behind \<open><\<close>, and the terminal shows nothing.
\<close>
theorem redirections_compute:
  assumes "xs \<noteq> []" and "found os (hd xs)" and "''<'' \<notin> set xs" and "''>'' \<notin> set xs" and "''|'' \<notin> set xs"
    and "g \<noteq> ''<''" and "f \<noteq> g" and "files kn f = Some t"
  shows "\<exists>acts. child4 os 0 (map Some (xs @ [''>'', g, ''<'', f]) @ [None]) = Inr acts \<and>
    run_acts prog cap [] False (shell_child inp) kn acts = Some (kn\<lparr>files := (files kn)(g \<mapsto> prog xs (Some t)), ran := ran kn @ [Ran xs (Some t) False]\<rparr>)"
  using child4_redirect_both [OF assms(1-6), of f] assms(7,8)
  by (simp add: shell_child_def reads_def writes_def unread_def)

theorem redirections_compute_witness:
  "\<exists>acts. child4 example_os 0 (map Some ([''cat''] @ [''>'', ''out'', ''<'', ''in'']) @ [None]) = Inr acts \<and>
    run_acts example_prog 4 [] False (shell_child []) (empty_kern\<lparr>files := [''in'' \<mapsto> ''abc'']\<rparr>) acts =
      Some (empty_kern\<lparr>files := [''in'' \<mapsto> ''abc'', ''out'' \<mapsto> ''abc''], ran := [Ran [''cat''] (Some ''abc'') False]\<rparr>)"
  using redirections_compute [of "[''cat'']" example_os "''out''" "''in''"
      "empty_kern\<lparr>files := [''in'' \<mapsto> ''abc'']\<rparr>" "''abc''" example_prog 4 "[]"]
  by (simp add: example_os_def example_prog_def empty_kern_def)

text \<open>
  In the other order the output redirection is forgotten: the output of the command appears on the terminal,
  and no file changes.
\<close>
theorem input_first_shows_output:
  assumes "xs \<noteq> []" and "found os (hd xs)" and "''<'' \<notin> set xs" and "''>'' \<notin> set xs" and "''|'' \<notin> set xs"
    and "files kn f = Some t"
  shows "\<exists>acts. child4 os 0 (map Some (xs @ ''<'' # f # [''>'', g]) @ [None]) = Inr acts \<and>
    run_acts prog cap [] False (shell_child inp) kn acts = Some (kn\<lparr>shown := shown kn @ prog xs (Some t), ran := ran kn @ [Ran xs (Some t) False]\<rparr>)"
  using child4_input_redirect_cuts [OF assms(1-5), of f "[''>'', g]"] assms(6)
  by (simp add: shell_child_def reads_def writes_def unread_def)


section \<open>A last command that is not found\<close>

text \<open>
  C28: when the program behind the last pipe is not found (no redirection, the other programs found, no failing
  call), nothing is shown and no process writes a message: every other command runs once, and the one in front
  of that pipe is then executed a second time, on its own output, into a pipe that nobody reads; with an
  output that does not fit into its pipe the shell waits for ever.
\<close>
theorem missing_command_silent:
  assumes "os_up os" and "2 \<le> length ss" and "\<forall>s \<in> set (butlast ss). stage os s"
    and "is_command (last ss)" and "\<not> found os (hd (last ss))"
    and "\<forall>s \<in> set ss. ''<'' \<notin> set s \<and> ''>'' \<notin> set s"
  shows "\<exists>acts. child4 os 0 (map Some (join_pipes ss) @ [None]) = Inr acts \<and>
    (if fit_pipes prog cap (Some inp) ss
     then \<exists>b. run_acts prog cap [] False (shell_child inp) kn acts =
       Some (kn\<lparr>buf := b, ran := ran kn @ executions prog (Some inp) (butlast ss) @
         [Ran (last (butlast ss)) (piped prog (Some inp) (butlast ss)) True]\<rparr>)
     else run_acts prog cap [] False (shell_child inp) kn acts = None)"
proof -
  have none: "last_args os (length ss - 2) (last ss) = None" using assms(5) by (simp add: last_args_def)
  show ?thesis
    using plan_runs [OF assms(1-4,6) refl, where prog = prog and inp = inp and cap = cap and kn = kn]
    unfolding none option.case .
qed

theorem missing_command_silent_witness:
  "\<exists>acts b. child4 example_os 0 (map Some (join_pipes [[''ls''], [''nosuch'']]) @ [None]) = Inr acts \<and>
    run_acts example_prog 4 [] False (shell_child ''ab'') empty_kern acts =
      Some (empty_kern\<lparr>buf := b, ran := [Ran [''ls''] (Some ''ab'') False, Ran [''ls''] (Some ''abab'') True]\<rparr>)"
  using missing_command_silent [where os = example_os and ss = "[[''ls''], [''nosuch'']]" and prog = example_prog and cap = 4
      and inp = "''ab''" and kn = empty_kern]
  by (auto simp: example_os_def os_up_def stage_def is_command_def example_prog_def empty_kern_def)

end
