(* ===== verification/DictRecord.thy ===== *)
theory DictRecord
  imports CLib
begin

text \<open>
  The dictionary file: \<open>dict.h\<close> (the fixed-length record), \<open>src/SP_HW4/part3/convert.c\<close>
  (text to records) and \<open>src/SP_HW4/part3/lookup1.c\<close> (linear search through the file).

  A record is its two character arrays; a dictionary file is the concatenation of its records'
  bytes.  \<open>render\<close> and \<open>encode\<close> are the specification of \<open>convert\<close>: the text of an entry and
  the record that stands for it.
\<close>

definition WORD :: nat where "WORD = 32"
definition TEXT :: nat where "TEXT = 480"
definition FOUND :: int where "FOUND = 0"
definition NOTFOUND :: int where "NOTFOUND = 1"
definition UNAVAIL :: int where "UNAVAIL = 2"

record dictrec =
  dword :: "char list"
  dtext :: "char list"

definition rec_bytes :: "dictrec \<Rightarrow> char list" where
  "rec_bytes r = dword r @ dtext r"

definition wf_rec :: "dictrec \<Rightarrow> bool" where
  "wf_rec r \<longleftrightarrow> length (dword r) = WORD \<and> length (dtext r) = TEXT"

definition blank :: dictrec where
  "blank = \<lparr>dword = zeros WORD, dtext = zeros TEXT\<rparr>"

section \<open>convert.c\<close>

text \<open>The loops that store characters at consecutive indices of an array.\<close>

fun put_chars :: "char list \<Rightarrow> nat \<Rightarrow> char list \<Rightarrow> char list res" where
  "put_chars b i [] = Inr b"
| "put_chars b i (c # cs) = bindE (store b i c) (\<lambda>b'. put_chars b' (Suc i) cs)"

text \<open>The word: the line with its newline and the terminator, a line \<open>"\n"\<close> only its newline.\<close>

definition put_word :: "dictrec \<Rightarrow> string \<Rightarrow> dictrec res" where
  "put_word r buffer =
     (let l = upto_nul buffer; cs = (if l \<noteq> [] \<and> hd l = NL then [NL] else l @ [NUL])
      in bindE (put_chars (dword r) 0 cs) (\<lambda>w. Inr (r\<lparr>dword := w\<rparr>)))"

text \<open>The definition: line after line, each with its terminator, up to a blank line or the end.\<close>

function read_def :: "stream \<Rightarrow> char list \<Rightarrow> nat \<Rightarrow> (stream \<times> char list) res" where
  "read_def f tx index =
     (case getline f of
        (None, f') \<Rightarrow> Inr (f', tx)
      | (Some buf, f') \<Rightarrow>
          (let l = upto_nul buf in
           if strcmp l [NL] = 0 then Inr (f', tx)
           else bindE (put_chars tx index (l @ [NUL])) (\<lambda>tx'.
                read_def f' tx' (index + length l + 1))))"
  by pat_completeness auto
termination
  by (relation "measure (\<lambda>(f, _, _). length (rest f))") (auto dest: getline_shorter [OF sym])

declare read_def.simps [simp del]

lemma read_def_end: "getline f = (None, g) \<Longrightarrow> read_def f t i = Inr (g, t)"
  by (simp add: read_def.simps [of f])

lemma read_def_blank:
  "getline f = (Some buf, g) \<Longrightarrow> upto_nul buf = [NL] \<Longrightarrow> read_def f t i = Inr (g, t)"
  by (simp add: read_def.simps [of f] Let_def)

lemma read_def_more:
  "getline f = (Some buf, g) \<Longrightarrow> upto_nul buf \<noteq> [NL] \<Longrightarrow>
   read_def f t i = bindE (put_chars t i (upto_nul buf @ [NUL]))
     (\<lambda>t'. read_def g t' (i + length (upto_nul buf) + 1))"
  by (simp add: read_def.simps [of f] Let_def)

lemma getline_keeps_eof: "getline f = (Some l, g) \<Longrightarrow> ateof f \<Longrightarrow> ateof g"
  by (auto simp: getline_def Let_def simp del: dropWhile_eq_Nil_conv split: if_splits)

lemma read_def_shrinks:
  "read_def f t i = Inr (f', t') \<Longrightarrow> length (rest f') \<le> length (rest f) \<and> (ateof f \<longrightarrow> ateof f')"
proof (induction f t i arbitrary: f' t' rule: read_def.induct)
  case (1 f t i)
  obtain l g where gl: "getline f = (l, g)" by (cases "getline f")
  show ?case
  proof (cases l)
    case None
    with gl 1(2) have "f' = f\<lparr>ateof := True\<rparr>"
      using getline_None [of f g] by (simp add: read_def_end)
    then show ?thesis by simp
  next
    case (Some buf)
    with gl have sh: "length (rest g) < length (rest f)" "ateof f \<longrightarrow> ateof g"
      by (auto simp: getline_shorter getline_keeps_eof)
    show ?thesis
    proof (cases "upto_nul buf = [NL]")
      case True
      with gl Some 1(2) have "f' = g" by (simp add: read_def_blank)
      with sh show ?thesis by simp
    next
      case False
      with gl Some 1(2) obtain u where "put_chars t i (upto_nul buf @ [NUL]) = Inr u"
        and "read_def g u (i + length (upto_nul buf) + 1) = Inr (f', t')"
        by (auto simp: read_def_more bind_simps)
      with 1(1) [OF gl [symmetric] Some refl, of u f' t'] False sh show ?thesis by auto
    qed
  qed
qed

text \<open>
  The main loop.  The record is the static \<open>blank\<close>, cleared at the start of each round; it is
  written only when the end of the file has not been met.
\<close>

function convert_loop :: "stream \<Rightarrow> dictrec list \<Rightarrow> dictrec list res" where
  "convert_loop f out =
     (if ateof f then Inr out
      else (case getline f of (l, f1) \<Rightarrow>
        bindE (case l of None \<Rightarrow> Inr blank | Some buffer \<Rightarrow> put_word blank buffer) (\<lambda>r.
        bindE (read_def f1 (dtext r) 0) (\<lambda>(f2, tx).
        convert_loop f2 (if \<not> ateof f2 then out @ [r\<lparr>dtext := tx\<rparr>] else out)))))"
  by pat_completeness auto
termination
proof (relation "measure (\<lambda>(f, _). length (rest f) + (if ateof f then 0 else 1))", goal_cases)
  case 1
  then show ?case by simp
next
  case (2 f out l f1 r p f2 tx)
  note eof = 2(1) and gl = 2(2) and rdf = 2(4)
  have rd: "length (rest f2) \<le> length (rest f1)" "ateof f1 \<longrightarrow> ateof f2"
    using read_def_shrinks [of f1 "dtext r" 0 f2 tx] 2 by auto
  show ?case
  proof (cases l)
    case None
    with gl have "rest f = [] \<and> f1 = f\<lparr>ateof := True\<rparr>" by (intro getline_None) simp
    with rd eof show ?thesis by simp
  next
    case (Some b)
    with gl have "length (rest f1) < length (rest f)" by (intro getline_shorter [of f b]) simp
    with rd eof show ?thesis by simp
  qed
qed

declare convert_loop.simps [simp del]

text \<open>
  \<open>main\<close>: the file system as a partial map from names to contents, whether the output file can be
  opened, and the arguments.  The result is the exit status and the records written.
\<close>

datatype exit_status = Returns int | Dies string

text \<open>Opening the output truncates it, and with it the input when both have the same name.\<close>

definition convert_main :: "(string \<Rightarrow> string option) \<Rightarrow> (string \<Rightarrow> bool) \<Rightarrow> string list \<Rightarrow>
    (exit_status \<times> dictrec list) res" where
  "convert_main fs can_write argv =
     (case argv of
        [_, infile, outfile] \<Rightarrow>
          (case fs infile of
             None \<Rightarrow> Inr (Dies infile, [])
           | Some input \<Rightarrow>
               if \<not> can_write outfile then Inr (Dies outfile, [])
               else bindE (convert_loop (fopen_stream (if outfile = infile then [] else input)) []) (\<lambda>out. Inr (Returns 0, out)))
      | _ \<Rightarrow> Inr (Returns (- 1), []))"

section \<open>lookup1.c\<close>

text \<open>The static variables: \<open>first_time\<close> and the open file, by its contents.\<close>

record lookup1_state =
  first_time :: bool
  dictfile :: "string option"

function lookup1_loop :: "stream \<Rightarrow> char list \<Rightarrow> dictrec \<Rightarrow> (int \<times> dictrec) res" where
  "lookup1_loop f word sought =
     (case fread WORD word f of (word', n, f1) \<Rightarrow>
        if n = 0 then
          bindE (cstr (dword sought)) (\<lambda>s.
          bindE (store (dword sought) (length s - 1) NUL) (\<lambda>w.
          Inr (NOTFOUND, sought\<lparr>dword := w\<rparr>)))
        else
          bindE (cstr word') (\<lambda>a.
          bindE (cstr (dword sought)) (\<lambda>s.
          if strcmp a s \<noteq> 0 then
            (case fread TEXT (zeros TEXT) f1 of (_, _, f2) \<Rightarrow> lookup1_loop f2 word' sought)
          else
            bindE (store (dword sought) (length a - 1) NUL) (\<lambda>w.
            (case fread TEXT (dtext sought) f1 of (tx, _, _) \<Rightarrow>
               Inr (FOUND, sought\<lparr>dword := w, dtext := tx\<rparr>))))))"
  by pat_completeness auto
termination
  by (relation "measure (\<lambda>(f, _, _). length (rest f))") (auto simp: fread_def Let_def WORD_def)

declare lookup1_loop.simps [simp del]

definition lookup1 :: "(string \<Rightarrow> string option) \<Rightarrow> string \<Rightarrow> lookup1_state \<Rightarrow> dictrec \<Rightarrow>
    ((int \<times> dictrec) \<times> lookup1_state) res" where
  "lookup1 fs resource st sought =
     (let st1 = (if first_time st then \<lparr>first_time = False, dictfile = fs resource\<rparr> else st) in
      if first_time st \<and> dictfile st1 = None then Inr ((0, sought), st1)
      else case dictfile st1 of
          None \<Rightarrow> Inl NullDeref
        | Some contents \<Rightarrow>
            bindE (strcat (dword sought) [NL]) (\<lambda>w.
            bindE (lookup1_loop (fopen_stream contents) (zeros WORD) (sought\<lparr>dword := w\<rparr>)) (\<lambda>r.
            Inr (r, st1))))"

section \<open>The text format and the records it stands for\<close>

text \<open>
  An entry is a word and the lines of its definition.  \<open>render\<close> is its text: the word, the lines
  and a blank line; \<open>encode\<close> is its record: the word with its newline, padded; and the lines, each
  with newline and terminator, padded.
\<close>

type_synonym entry = "string \<times> string list"

definition render_lines :: "string list \<Rightarrow> string" where
  "render_lines ds = concat (map (\<lambda>d. d @ [NL]) ds)"

definition render :: "entry \<Rightarrow> string" where
  "render e = (case e of (w, ds) \<Rightarrow> w @ [NL] @ render_lines ds @ [NL])"

definition stored_lines :: "string list \<Rightarrow> char list" where
  "stored_lines ds = concat (map (\<lambda>d. d @ [NL, NUL]) ds)"

definition encode :: "entry \<Rightarrow> dictrec" where
  "encode e = (case e of (w, ds) \<Rightarrow>
     \<lparr>dword = pad WORD (w @ [NL]), dtext = pad TEXT (stored_lines ds)\<rparr>)"

definition plain :: "string \<Rightarrow> bool" where
  "plain s \<longleftrightarrow> NL \<notin> set s \<and> nul_free s"

definition fits :: "entry \<Rightarrow> bool" where
  "fits e = (case e of (w, ds) \<Rightarrow>
     plain w \<and> length w + 2 \<le> WORD \<and>
     (\<forall>d \<in> set ds. plain d \<and> d \<noteq> []) \<and> length (stored_lines ds) \<le> TEXT)"

lemma put_chars_zeros:
  "length pre + length cs \<le> n \<Longrightarrow>
   put_chars (pre @ zeros (n - length pre)) (length pre) cs =
     Inr ((pre @ cs) @ zeros (n - length (pre @ cs)))"
proof (induction cs arbitrary: pre)
  case Nil
  then show ?case by simp
next
  case (Cons c cs)
  then have "n - length pre = Suc (n - length (pre @ [c]))" by simp
  then have z: "zeros (n - length pre) = NUL # zeros (n - length (pre @ [c]))"
    by (simp add: zeros_def)
  have "put_chars ((pre @ [c]) @ zeros (n - length (pre @ [c]))) (length (pre @ [c])) cs =
      Inr (((pre @ [c]) @ cs) @ zeros (n - length ((pre @ [c]) @ cs)))"
    by (rule Cons.IH) (use Cons.prems in simp)
  then show ?case by (simp add: z)
qed

lemma put_chars_overflow:
  "i \<le> length b \<Longrightarrow> length b < i + length cs \<Longrightarrow> put_chars b i cs = Inl OutOfBounds"
proof (induction cs arbitrary: b i)
  case Nil
  then show ?case by simp
next
  case (Cons c cs)
  show ?case
  proof (cases "i < length b")
    case True
    with Cons.IH [of "Suc i" "b[i := c]"] Cons.prems show ?thesis by (simp add: store_in)
  next
    case False
    then show ?thesis by (simp add: store_out)
  qed
qed

lemma zeros_add: "zeros (m + n) = zeros m @ zeros n"
  by (simp add: zeros_def replicate_add)

lemma pad_zeros: "pad n s = s @ zeros (n - length s)"
  by (simp add: pad_def zeros_def)

lemma upto_nul_line: "plain l \<Longrightarrow> upto_nul (l @ [NL]) = l @ [NL]"
  by (simp add: plain_def upto_nul_ident)

lemma put_word_pad:
  assumes "plain w" and "length w + 2 \<le> WORD"
  shows "put_word blank (w @ [NL]) = Inr (blank\<lparr>dword := pad WORD (w @ [NL])\<rparr>)"
proof (cases w)
  case Nil
  have "put_chars (zeros WORD) 0 [NL] = Inr ([NL] @ zeros (WORD - 1))"
    using put_chars_zeros [of "[]" "[NL]" WORD] by (simp add: WORD_def)
  with Nil show ?thesis
    by (simp add: put_word_def upto_nul_def blank_def pad_zeros)
next
  case (Cons c cs)
  have "WORD - Suc (length w) = Suc (WORD - Suc (Suc (length w)))"
    using assms(2) by simp
  then have z: "zeros (WORD - Suc (length w)) = NUL # zeros (WORD - Suc (Suc (length w)))"
    by (simp add: zeros_def)
  have "put_chars (zeros WORD) 0 (w @ [NL, NUL]) =
      Inr ((w @ [NL, NUL]) @ zeros (WORD - length (w @ [NL, NUL])))"
    using put_chars_zeros [of "[]" "w @ [NL, NUL]" WORD] assms(2) by simp
  moreover have "hd (w @ [NL]) \<noteq> NL" using assms(1) Cons by (auto simp: plain_def)
  ultimately show ?thesis
    by (simp add: put_word_def upto_nul_line [OF assms(1)] blank_def pad_zeros z Let_def)
qed

text \<open>
  A word line of 31 characters or more does not fit: \<open>convert\<close> stores past the end of the
  \<open>word\<close> field.  It does not truncate the word as its comment says.
\<close>

theorem put_word_overflow:
  assumes "plain w" and "WORD < length w + 2"
  shows "put_word blank (w @ [NL]) = Inl OutOfBounds"
proof -
  have "w \<noteq> []" using assms(2) by (auto simp: WORD_def)
  then have "hd (w @ [NL]) \<noteq> NL" using assms(1) by (cases w) (auto simp: plain_def)
  moreover have "put_chars (zeros WORD) 0 (w @ [NL, NUL]) = Inl OutOfBounds"
    using assms(2) by (intro put_chars_overflow) auto
  ultimately show ?thesis by (simp add: put_word_def upto_nul_line [OF assms(1)] blank_def)
qed

theorem put_word_overflow_witness:
  "put_word blank (replicate 31 CHR ''a'' @ [NL]) = Inl OutOfBounds"
  by (rule put_word_overflow) (auto simp: plain_def nul_free_def WORD_def)

section \<open>convert on rendered text\<close>

lemma getline_plain:
  "plain l \<Longrightarrow> getline \<lparr>rest = l @ NL # r, ateof = e\<rparr> = (Some (l @ [NL]), \<lparr>rest = r, ateof = e\<rparr>)"
  using getline_line [of l "\<lparr>rest = l @ NL # r, ateof = e\<rparr>" r] by (simp add: plain_def)

lemma stored_lines_Cons: "stored_lines (d # ds) = d @ [NL, NUL] @ stored_lines ds"
  by (simp add: stored_lines_def)

lemma read_def_lines:
  assumes "\<forall>d \<in> set ds. plain d \<and> d \<noteq> []" and "length (pre @ stored_lines ds) \<le> TEXT"
  shows "read_def \<lparr>rest = render_lines ds @ r, ateof = e\<rparr> (pre @ zeros (TEXT - length pre)) (length pre)
    = read_def \<lparr>rest = r, ateof = e\<rparr>
        ((pre @ stored_lines ds) @ zeros (TEXT - length (pre @ stored_lines ds)))
        (length (pre @ stored_lines ds))"
  using assms
proof (induction ds arbitrary: pre)
  case Nil
  then show ?case by (simp add: render_lines_def stored_lines_def)
next
  case (Cons d ds)
  let ?f = "\<lparr>rest = render_lines (d # ds) @ r, ateof = e\<rparr>"
  have d: "plain d" "d \<noteq> []" using Cons.prems(1) by auto
  have gl: "getline ?f = (Some (d @ [NL]), \<lparr>rest = render_lines ds @ r, ateof = e\<rparr>)"
    using getline_plain [OF d(1)] by (simp add: render_lines_def)
  have un: "upto_nul (d @ [NL]) = d @ [NL]" by (rule upto_nul_line [OF d(1)])
  have ne: "d @ [NL] \<noteq> [NL]" using d(2) by simp
  have pc: "put_chars (pre @ zeros (TEXT - length pre)) (length pre) ((d @ [NL]) @ [NUL]) =
      Inr ((pre @ (d @ [NL]) @ [NUL]) @ zeros (TEXT - length (pre @ (d @ [NL]) @ [NUL])))"
    by (rule put_chars_zeros) (use Cons.prems(2) in \<open>simp add: stored_lines_Cons\<close>)
  have "read_def ?f (pre @ zeros (TEXT - length pre)) (length pre) =
      read_def \<lparr>rest = render_lines ds @ r, ateof = e\<rparr>
        ((pre @ (d @ [NL]) @ [NUL]) @ zeros (TEXT - length (pre @ (d @ [NL]) @ [NUL])))
        (length pre + length (d @ [NL]) + 1)"
    using pc ne by (subst read_def_more [OF gl]) (simp_all add: un)
  also have "length pre + length (d @ [NL]) + 1 = length (pre @ (d @ [NL]) @ [NUL])" by simp
  also have "read_def \<lparr>rest = render_lines ds @ r, ateof = e\<rparr>
        ((pre @ (d @ [NL]) @ [NUL]) @ zeros (TEXT - length (pre @ (d @ [NL]) @ [NUL])))
        (length (pre @ (d @ [NL]) @ [NUL])) =
      read_def \<lparr>rest = r, ateof = e\<rparr>
        (((pre @ (d @ [NL]) @ [NUL]) @ stored_lines ds) @
           zeros (TEXT - length ((pre @ (d @ [NL]) @ [NUL]) @ stored_lines ds)))
        (length ((pre @ (d @ [NL]) @ [NUL]) @ stored_lines ds))"
    by (rule Cons.IH) (use Cons.prems in \<open>auto simp: stored_lines_Cons\<close>)
  also have "(pre @ (d @ [NL]) @ [NUL]) @ stored_lines ds = pre @ stored_lines (d # ds)"
    by (simp add: stored_lines_Cons)
  finally show ?case .
qed

lemma read_def_entry:
  assumes "\<forall>d \<in> set ds. plain d \<and> d \<noteq> []" and "length (stored_lines ds) \<le> TEXT"
  shows "read_def \<lparr>rest = render_lines ds @ NL # r, ateof = e\<rparr> (zeros TEXT) 0 =
      Inr (\<lparr>rest = r, ateof = e\<rparr>, pad TEXT (stored_lines ds))"
    and "read_def \<lparr>rest = render_lines ds, ateof = e\<rparr> (zeros TEXT) 0 =
      Inr (\<lparr>rest = [], ateof = True\<rparr>, pad TEXT (stored_lines ds))"
proof -
  have rl: "read_def \<lparr>rest = render_lines ds @ s, ateof = e\<rparr> (zeros TEXT) 0 =
      read_def \<lparr>rest = s, ateof = e\<rparr> (pad TEXT (stored_lines ds)) (length (stored_lines ds))" for s
    using read_def_lines [of ds "[]" s e] assms by (simp add: pad_zeros)
  have "getline \<lparr>rest = NL # r, ateof = e\<rparr> = (Some [NL], \<lparr>rest = r, ateof = e\<rparr>)"
    using getline_plain [of "[]"] by (simp add: plain_def)
  then show "read_def \<lparr>rest = render_lines ds @ NL # r, ateof = e\<rparr> (zeros TEXT) 0 =
      Inr (\<lparr>rest = r, ateof = e\<rparr>, pad TEXT (stored_lines ds))"
    unfolding rl by (rule read_def_blank) (simp add: upto_nul_def)
  have "getline \<lparr>rest = [], ateof = e\<rparr> = (None, \<lparr>rest = [], ateof = True\<rparr>)"
    by (simp add: getline_end)
  then show "read_def \<lparr>rest = render_lines ds, ateof = e\<rparr> (zeros TEXT) 0 =
      Inr (\<lparr>rest = [], ateof = True\<rparr>, pad TEXT (stored_lines ds))"
    using rl [of "[]"] by (simp add: read_def_end)
qed

lemma convert_loop_step:
  assumes "plain w" and "length w + 2 \<le> WORD"
    and "read_def \<lparr>rest = r, ateof = False\<rparr> (zeros TEXT) 0 = Inr (f2, t)"
  shows "convert_loop \<lparr>rest = w @ NL # r, ateof = False\<rparr> out =
    convert_loop f2 (if \<not> ateof f2
      then out @ [\<lparr>dword = pad WORD (w @ [NL]), dtext = t\<rparr>] else out)"
proof -
  have bt: "dtext blank = zeros TEXT" "blank\<lparr>dword := x, dtext := u\<rparr> = \<lparr>dword = x, dtext = u\<rparr>" for x u
    by (simp_all add: blank_def)
  show ?thesis
    by (subst convert_loop.simps)
      (simp add: getline_plain [OF assms(1)] put_word_pad [OF assms(1,2)] assms(3) bt)
qed

lemma convert_loop_entry:
  assumes "fits e"
  shows "convert_loop \<lparr>rest = render e @ r, ateof = False\<rparr> out =
    convert_loop \<lparr>rest = r, ateof = False\<rparr> (out @ [encode e])"
proof -
  obtain w ds where e: "e = (w, ds)" by (cases e)
  with assms have w: "plain w" "length w + 2 \<le> WORD"
    and ds: "\<forall>d \<in> set ds. plain d \<and> d \<noteq> []" "length (stored_lines ds) \<le> TEXT"
    by (auto simp: fits_def)
  show ?thesis
    using convert_loop_step [OF w read_def_entry(1) [OF ds], of r out]
    by (simp add: e render_def encode_def)
qed

lemma convert_loop_entries:
  assumes "\<forall>e \<in> set es. fits e"
  shows "convert_loop \<lparr>rest = concat (map render es) @ r, ateof = False\<rparr> out =
    convert_loop \<lparr>rest = r, ateof = False\<rparr> (out @ map encode es)"
  using assms
proof (induction es arbitrary: out)
  case Nil
  then show ?case by simp
next
  case (Cons e es)
  then show ?case using convert_loop_entry [of e "concat (map render es) @ r" out] by simp
qed

lemma convert_loop_end: "convert_loop \<lparr>rest = [], ateof = False\<rparr> out = Inr out"
proof -
  have "getline \<lparr>rest = [], ateof = False\<rparr> = (None, \<lparr>rest = [], ateof = True\<rparr>)"
    by (simp add: getline_end)
  moreover have "getline \<lparr>rest = [], ateof = True\<rparr> = (None, \<lparr>rest = [], ateof = True\<rparr>)"
    by (simp add: getline_end)
  moreover have "convert_loop \<lparr>rest = [], ateof = True\<rparr> out = Inr out"
    by (simp add: convert_loop.simps)
  ultimately show ?thesis
    by (subst convert_loop.simps) (simp add: read_def_end)
qed

text \<open>The entries \<open>convert\<close> finds: none when it has truncated its own input.\<close>

definition entries_read :: "string \<Rightarrow> string \<Rightarrow> entry list \<Rightarrow> entry list" where
  "entries_read infile outfile es = (if outfile = infile then [] else es)"

lemma convert_writes:
  assumes "\<forall>e \<in> set es. fits e" and "fs infile = Some (concat (map render es))" and "can_write outfile"
  shows "convert_main fs can_write [prog, infile, outfile] = Inr (Returns 0, map encode (entries_read infile outfile es))"
  using convert_loop_entries [OF assms(1), of "[]" "[]"] assms(2,3)
  by (simp add: convert_main_def fopen_stream_def convert_loop_end entries_read_def)

text \<open>
  C6: \<open>convert\<close> turns a dictionary text in which every entry ends with a blank line into exactly
  the records of its entries, in order, provided the words and definitions fit their fields; when it is
  given its input as its output too, it has emptied it before it reads, and writes nothing.
\<close>

theorem convert_entries:
  assumes "\<forall>e \<in> set es. fits e" and "fs infile = Some (concat (map render es))" and "can_write outfile"
  shows "convert_main fs can_write [prog, infile, outfile] =
    Inr (Returns 0, if outfile = infile then [] else map encode es)"
  using convert_writes [where fs = fs and can_write = can_write, OF assms] by (simp add: entries_read_def)

definition example_entries :: "entry list" where
  "example_entries =
     [(''bore'', [''A person who talks'', ''when you wish him to listen.'']),
      (''work'', [''The curse of the drinking classes.''])]"

lemma example_fits: "\<forall>e \<in> set example_entries. fits e"
  by (simp add: example_entries_def fits_def plain_def stored_lines_def WORD_def TEXT_def)

theorem convert_entries_witness:
  "convert_main [''dict'' \<mapsto> concat (map render example_entries)] (\<lambda>_. True)
     [''convert'', ''dict'', ''fixrec''] = Inr (Returns 0, map encode example_entries)"
  using convert_entries [OF example_fits, of "[''dict'' \<mapsto> concat (map render example_entries)]" "''dict''" "\<lambda>_. True" "''fixrec''"]
  by simp

text \<open>
  The last entry of a text that is not followed by a blank line is lost: \<open>convert\<close> reads it
  up to the end of the file and does not write its record.
\<close>

theorem convert_drops_unterminated:
  assumes "\<forall>e \<in> set es. fits e" and "fits (w, ds)"
    and "fs infile = Some (concat (map render es) @ w @ [NL] @ render_lines ds)"
    and "can_write outfile" and "outfile \<noteq> infile"
  shows "convert_main fs can_write [prog, infile, outfile] = Inr (Returns 0, map encode es)"
proof -
  have w: "plain w" "length w + 2 \<le> WORD"
    and ds: "\<forall>d \<in> set ds. plain d \<and> d \<noteq> []" "length (stored_lines ds) \<le> TEXT"
    using assms(2) by (auto simp: fits_def)
  have "convert_loop \<lparr>rest = [], ateof = True\<rparr> out = Inr out" for out
    by (simp add: convert_loop.simps)
  then show ?thesis
    using convert_loop_entries [OF assms(1), of "w @ NL # render_lines ds" "[]"]
      convert_loop_step [OF w read_def_entry(2) [OF ds], of "map encode es"] assms(3-5)
    by (simp add: convert_main_def fopen_stream_def)
qed

theorem convert_drops_unterminated_witness:
  "convert_main [''dict'' \<mapsto> concat (map render example_entries) @ ''zeal'' @ [NL] @
       render_lines [''A certain nervous disorder.'']] (\<lambda>_. True)
     [''convert'', ''dict'', ''fixrec''] = Inr (Returns 0, map encode example_entries)"
  by (rule convert_drops_unterminated [OF example_fits, of "''zeal''" "[''A certain nervous disorder.'']"])
    (simp_all add: fits_def plain_def stored_lines_def WORD_def TEXT_def)

section \<open>lookup1 on a file of records\<close>

definition file_bytes :: "dictrec list \<Rightarrow> char list" where
  "file_bytes recs = concat (map rec_bytes recs)"

definition has_word :: "string \<Rightarrow> dictrec \<Rightarrow> bool" where
  "has_word w r \<longleftrightarrow> cstr (dword r) = Inr w"

definition good_rec :: "dictrec \<Rightarrow> bool" where
  "good_rec r \<longleftrightarrow> wf_rec r \<and> NUL \<in> set (dword r)"

lemma good_rec_cstr: "good_rec r \<Longrightarrow> cstr (dword r) = Inr (upto_nul (dword r))"
  by (simp add: good_rec_def cstr_def)

lemma lookup1_loop_records:
  assumes "length dw = WORD" and "length dt = TEXT"
    and "cstr dw = Inr (w @ [NL])"
    and "\<forall>r \<in> set recs. good_rec r"
  shows "length wb = WORD \<Longrightarrow>
    lookup1_loop \<lparr>rest = file_bytes recs, ateof = e\<rparr> wb \<lparr>dword = dw, dtext = dt\<rparr> =
      Inr (case find (has_word (w @ [NL])) recs of
             Some r \<Rightarrow> (FOUND, \<lparr>dword = dw[length w := NUL], dtext = dtext r\<rparr>)
           | None \<Rightarrow> (NOTFOUND, \<lparr>dword = dw[length w := NUL], dtext = dt\<rparr>))"
  using assms(4)
proof (induction recs arbitrary: wb)
  case Nil
  have "fread WORD wb \<lparr>rest = [], ateof = e\<rparr> = (wb, 0, \<lparr>rest = [], ateof = e \<or> 0 < WORD\<rparr>)"
    by (simp add: fread_end)
  moreover have "store dw (length w) NUL = Inr (dw[length w := NUL])"
    using cstr_Inr_length [OF assms(3)] by (simp add: store_in)
  ultimately show ?case using assms(3)
    by (subst lookup1_loop.simps) (simp add: file_bytes_def)
next
  case (Cons r recs)
  let ?s = "upto_nul (dword r)"
  have r: "length (dword r) = WORD" "length (dtext r) = TEXT" "cstr (dword r) = Inr ?s"
    using Cons.prems good_rec_cstr [of r] by (auto simp: good_rec_def wf_rec_def)
  have fb: "file_bytes (r # recs) = dword r @ dtext r @ file_bytes recs"
    by (simp add: file_bytes_def rec_bytes_def)
  have f1: "fread WORD wb \<lparr>rest = file_bytes (r # recs), ateof = e\<rparr> =
      (dword r, WORD, \<lparr>rest = dtext r @ file_bytes recs, ateof = e\<rparr>)"
    unfolding fb using r(1) Cons.prems(1) by (subst fread_exact) simp_all
  have f2: "fread TEXT b \<lparr>rest = dtext r @ file_bytes recs, ateof = e\<rparr> =
      (dtext r, TEXT, \<lparr>rest = file_bytes recs, ateof = e\<rparr>)" if "length b = TEXT" for b
    using r(2) that by (subst fread_exact) simp_all
  have W: "WORD \<noteq> 0" by (simp add: WORD_def)
  show ?case
  proof (cases "?s = w @ [NL]")
    case True
    have "store dw (length w) NUL = Inr (dw[length w := NUL])"
      using cstr_Inr_length [OF assms(3)] by (simp add: store_in)
    with True show ?thesis
      by (subst lookup1_loop.simps)
        (simp add: f1 W r(3) assms(3) f2 [OF assms(2)] has_word_def)
  next
    case False
    have "find (has_word (w @ [NL])) (r # recs) = find (has_word (w @ [NL])) recs"
      using False by (simp add: has_word_def r(3))
    moreover have "lookup1_loop \<lparr>rest = file_bytes (r # recs), ateof = e\<rparr> wb \<lparr>dword = dw, dtext = dt\<rparr> =
        lookup1_loop \<lparr>rest = file_bytes recs, ateof = e\<rparr> (dword r) \<lparr>dword = dw, dtext = dt\<rparr>"
      using False by (subst lookup1_loop.simps)
        (simp add: f1 W r(3) assms(3) f2 [of "zeros TEXT"])
    ultimately show ?thesis using Cons.IH [of "dword r"] Cons.prems r(1) by simp
  qed
qed

definition lookup1_ready :: "(string \<Rightarrow> string option) \<Rightarrow> string \<Rightarrow> dictrec list \<Rightarrow> lookup1_state \<Rightarrow> bool" where
  "lookup1_ready fs resource recs st \<longleftrightarrow>
     (if first_time st then fs resource else dictfile st) = Some (file_bytes recs)"

lemma lookup1_opened:
  "lookup1_ready fs resource recs st \<Longrightarrow> strcat (dword q) [NL] = Inr d \<Longrightarrow>
   lookup1 fs resource st q =
     bindE (lookup1_loop \<lparr>rest = file_bytes recs, ateof = False\<rparr> (zeros WORD) (q\<lparr>dword := d\<rparr>)) (\<lambda>r.
     Inr (r, \<lparr>first_time = False, dictfile = Some (file_bytes recs)\<rparr>))"
  by (cases st) (auto simp: lookup1_def lookup1_ready_def fopen_stream_def Let_def split: if_splits)

lemma lookup1_records:
  assumes "lookup1_ready fs resource recs st" and "\<forall>r \<in> set recs. good_rec r"
    and "wf_rec q" and "cstr (dword q) = Inr w" and "length w + 2 \<le> WORD"
  shows "lookup1 fs resource st q =
    (let d = w @ NUL # NUL # drop (length w + 2) (dword q) in
     Inr (case find (has_word (w @ [NL])) recs of
            Some r \<Rightarrow> (FOUND, \<lparr>dword = d, dtext = dtext r\<rparr>)
          | None \<Rightarrow> (NOTFOUND, q\<lparr>dword := d\<rparr>),
          \<lparr>first_time = False, dictfile = Some (file_bytes recs)\<rparr>))"
proof -
  let ?d = "(w @ [NL]) @ NUL # drop (length w + 2) (dword q)"
  have len: "length (dword q) = WORD" "length (dtext q) = TEXT" using assms(3) by (auto simp: wf_rec_def)
  have cat: "strcat (dword q) [NL] = Inr ?d"
    using assms(4,5) len by (simp add: strcat_def strcpy_def)
  have nf: "nul_free (w @ [NL])" using cstr_Inr_nul_free [OF assms(4)] by simp
  have upd: "?d[length w := NUL] = w @ NUL # NUL # drop (length w + 2) (dword q)"
    by (simp add: list_update_append)
  have d: "length ?d = WORD" "cstr ?d = Inr (w @ [NL])"
    using cstr_append_nul [OF nf] len assms(5) by (auto simp del: append_assoc)
  have loop: "lookup1_loop \<lparr>rest = file_bytes recs, ateof = False\<rparr> (zeros WORD) \<lparr>dword = ?d, dtext = dtext q\<rparr> =
      Inr (case find (has_word (w @ [NL])) recs of
             Some r \<Rightarrow> (FOUND, \<lparr>dword = ?d[length w := NUL], dtext = dtext r\<rparr>)
           | None \<Rightarrow> (NOTFOUND, \<lparr>dword = ?d[length w := NUL], dtext = dtext q\<rparr>))"
    by (rule lookup1_loop_records [OF d(1) len(2) d(2) assms(2)]) (simp add: zeros_def)
  have q: "q\<lparr>dword := x\<rparr> = \<lparr>dword = x, dtext = dtext q\<rparr>" for x by (cases q) simp
  show ?thesis
    unfolding lookup1_opened [OF assms(1) cat] q loop upd Let_def by simp
qed

lemma good_encode: "fits e \<Longrightarrow> good_rec (encode e) \<and> cstr (dword (encode e)) = Inr (fst e @ [NL])"
proof -
  assume f: "fits e"
  obtain w ds where e: "e = (w, ds)" by (cases e)
  have w: "length (w @ [NL]) < WORD" "nul_free (w @ [NL])" "length (stored_lines ds) \<le> TEXT"
    using f by (auto simp: e fits_def plain_def)
  have c: "cstr (pad WORD (w @ [NL])) = Inr (w @ [NL])" by (rule cstr_pad [OF w(2,1)])
  then have "NUL \<in> set (pad WORD (w @ [NL]))" by (auto simp: cstr_def split: if_splits)
  with c w show ?thesis by (simp add: e encode_def good_rec_def wf_rec_def)
qed

lemma find_encoded:
  "\<forall>e \<in> set es. fits e \<Longrightarrow>
   find (has_word (w @ [NL])) (map encode es) = map_option (\<lambda>ds. encode (w, ds)) (map_of es w)"
  by (induction es) (auto simp: has_word_def dest: good_encode)

text \<open>
  C13: The dictionary end to end: \<open>convert\<close> on a text of entries and then \<open>lookup\<close> on the
  file it wrote, for any word that fits the field, answers FOUND with the stored definition of the
  first entry with that word, and NOTFOUND when there is none; the query's word is restored and the
  next call finds the file ready.  There is no entry left when \<open>convert\<close> was given one name for both files.
\<close>

theorem convert_lookup1:
  assumes "\<forall>e \<in> set es. fits e"
    and "fs infile = Some (concat (map render es))" and "can_write dict"
    and "convert_main fs can_write [prog, infile, dict] = Inr (Returns 0, out)"
    and "fs' dict = Some (file_bytes out)"
    and "wf_rec q" and "cstr (dword q) = Inr w" and "length w + 2 \<le> WORD"
  shows "\<exists>q' st'. lookup1 fs' dict \<lparr>first_time = True, dictfile = None\<rparr> q =
      Inr ((if w \<in> fst ` set (if dict = infile then [] else es) then FOUND else NOTFOUND, q'), st') \<and>
    cstr (dword q') = Inr w \<and>
    dtext q' = (case map_of (if dict = infile then [] else es) w of Some ds \<Rightarrow> pad TEXT (stored_lines ds) | None \<Rightarrow> dtext q) \<and>
    lookup1_ready fs' dict out st'"
proof -
  let ?es = "entries_read infile dict es"
  have fit: "\<forall>e \<in> set ?es. fits e" using assms(1) by (simp add: entries_read_def)
  have out: "out = map encode ?es"
    using convert_writes [of es fs infile can_write dict prog] assms(1-4) by simp
  have good: "\<forall>r \<in> set out. good_rec r" using fit good_encode by (auto simp: out)
  have ready: "lookup1_ready fs' dict out \<lparr>first_time = True, dictfile = None\<rparr>"
    using assms(5) by (simp add: lookup1_ready_def)
  have nf: "nul_free w" using assms(7) by (rule cstr_Inr_nul_free)
  have key: "w \<in> fst ` set ?es \<longleftrightarrow> map_of ?es w \<noteq> None" by (simp add: map_of_eq_None_iff)
  show ?thesis
    using lookup1_records [OF ready good assms(6-8)] find_encoded [OF fit, of w] nf
    unfolding entries_read_def [symmetric] key
    by (cases "map_of ?es w") (auto simp: out Let_def encode_def lookup1_ready_def)
qed

theorem convert_lookup1_witness:
  "\<exists>q' st'. lookup1 [''fixrec'' \<mapsto> file_bytes (map encode example_entries)] ''fixrec''
      \<lparr>first_time = True, dictfile = None\<rparr> \<lparr>dword = pad WORD ''work'', dtext = zeros TEXT\<rparr> =
      Inr ((FOUND, q'), st') \<and>
    dtext q' = pad TEXT (stored_lines [''The curse of the drinking classes.''])"
proof -
  have "\<exists>q' st'. lookup1 [''fixrec'' \<mapsto> file_bytes (map encode example_entries)] ''fixrec''
      \<lparr>first_time = True, dictfile = None\<rparr> \<lparr>dword = pad WORD ''work'', dtext = zeros TEXT\<rparr> =
      Inr ((if ''work'' \<in> fst ` set (if ''fixrec'' = ''dict'' then [] else example_entries) then FOUND else NOTFOUND, q'), st') \<and>
    cstr (dword q') = Inr ''work'' \<and>
    dtext q' = (case map_of (if ''fixrec'' = ''dict'' then [] else example_entries) ''work'' of
        Some ds \<Rightarrow> pad TEXT (stored_lines ds)
      | None \<Rightarrow> dtext \<lparr>dword = pad WORD ''work'', dtext = zeros TEXT\<rparr>) \<and>
    lookup1_ready [''fixrec'' \<mapsto> file_bytes (map encode example_entries)] ''fixrec''
      (map encode example_entries) st'"
    by (rule convert_lookup1 [OF example_fits, of "[''dict'' \<mapsto> concat (map render example_entries)]"
          "''dict''" "\<lambda>_. True" _ "''convert''"])
      (simp_all add: convert_writes [OF example_fits] entries_read_def wf_rec_def WORD_def cstr_pad)
  then show ?thesis by (auto simp: example_entries_def)
qed

text \<open>
  A definition of two or more lines is stored with a terminator between its lines, so what
  a program prints of the record with \<open>%s\<close> is its first line only.
\<close>

theorem encode_shows_first_line:
  assumes "fits (w, d # ds)"
  shows "cstr (dtext (encode (w, d # ds))) = Inr (d @ [NL])"
proof -
  have "nul_free (d @ [NL])" using assms by (auto simp: fits_def plain_def)
  then show ?thesis
    using cstr_append_nul [of "d @ [NL]" "stored_lines ds @ replicate (TEXT - length (stored_lines (d # ds))) NUL"]
    by (simp add: encode_def pad_def stored_lines_Cons)
qed

theorem encode_shows_first_line_witness:
  "cstr (dtext (encode (''bore'', [''A person who talks'', ''when you wish him to listen.'']))) =
     Inr (''A person who talks'' @ [NL])"
  by (rule encode_shows_first_line)
    (simp add: fits_def plain_def stored_lines_def WORD_def TEXT_def)

text \<open>
  When the dictionary file cannot be opened, the first \<open>lookup\<close> answers 0, which is FOUND,
  with the query unchanged, and the second one uses the null file pointer.
\<close>

theorem lookup1_missing_file:
  assumes "fs resource = None"
  shows "\<exists>st. lookup1 fs resource \<lparr>first_time = True, dictfile = None\<rparr> q = Inr ((FOUND, q), st) \<and>
    lookup1 fs resource st q' = Inl NullDeref"
  using assms by (simp add: lookup1_def FOUND_def Let_def)

theorem lookup1_missing_file_witness:
  "\<exists>st. lookup1 Map.empty ''fixrec'' \<lparr>first_time = True, dictfile = None\<rparr> blank = Inr ((FOUND, blank), st) \<and>
    lookup1 Map.empty ''fixrec'' st blank = Inl NullDeref"
  by (rule lookup1_missing_file) simp

end
