(* ===== verification/DictSearch.thy ===== *)
theory DictSearch
  imports DictRecord
begin

text \<open>
  The dictionary service of \<open>src/SP_HW11\<close>: \<open>lookup5.c\<close>, the same file in \<open>part1\<close>, \<open>part2\<close>
  and \<open>part3\<close>, maps the record file into memory once and searches it with \<open>bsearch\<close>.

  \<open>bsearch\<close> is the C library's loop, over any comparator that may itself fail.  The locale
  \<open>search_order\<close> states what the comparator has to promise; inside it the search is proved right
  once, and the interpretation \<open>dict\<close> discharges the laws for \<open>dict_cmp\<close>.
\<close>

section \<open>bsearch\<close>

function bsearch :: "('k \<Rightarrow> 'e \<Rightarrow> int res) \<Rightarrow> 'k \<Rightarrow> 'e list \<Rightarrow> nat \<Rightarrow> nat \<Rightarrow> 'e option res" where
  "bsearch cmp k xs l u =
     (if l < u then
        (let i = (l + u) div 2 in
         bindE (load xs i) (\<lambda>e.
         bindE (cmp k e) (\<lambda>c.
         if c < 0 then bsearch cmp k xs l i
         else if 0 < c then bsearch cmp k xs (Suc i) u
         else Inr (Some e))))
      else Inr None)"
  by pat_completeness auto
termination
  by (relation "measure (\<lambda>(_, _, _, l, u). u - l)") auto

declare bsearch.simps [simp del]

locale search_order =
  fixes cmp :: "'k \<Rightarrow> 'e \<Rightarrow> int res"
    and key_ok :: "'k \<Rightarrow> bool"
    and elem_ok :: "'e \<Rightarrow> bool"
    and leq :: "'e \<Rightarrow> 'e \<Rightarrow> bool"
  assumes compares: "key_ok k \<Longrightarrow> elem_ok e \<Longrightarrow> \<exists>c. cmp k e = Inr c"
    and below: "leq x y \<Longrightarrow> cmp k x = Inr c \<Longrightarrow> c < 0 \<Longrightarrow> cmp k y = Inr d \<Longrightarrow> d < 0"
    and above: "leq x y \<Longrightarrow> cmp k y = Inr d \<Longrightarrow> 0 < d \<Longrightarrow> cmp k x = Inr c \<Longrightarrow> 0 < c"
begin

definition answers :: "'k \<Rightarrow> 'e list \<Rightarrow> 'e option \<Rightarrow> bool" where
  "answers k xs r \<longleftrightarrow>
     (case r of Some e \<Rightarrow> e \<in> set xs \<and> cmp k e = Inr 0
      | None \<Rightarrow> \<forall>e \<in> set xs. cmp k e \<noteq> Inr 0)"

lemma bsearch_range:
  assumes "key_ok k" and "\<forall>e \<in> set xs. elem_ok e" and "sorted_wrt leq xs"
  shows "u \<le> length xs \<Longrightarrow>
    \<forall>i < l. \<exists>c. i < length xs \<longrightarrow> cmp k (xs ! i) = Inr c \<and> 0 < c \<Longrightarrow>
    \<forall>i < length xs. u \<le> i \<longrightarrow> (\<exists>c. cmp k (xs ! i) = Inr c \<and> c < 0) \<Longrightarrow>
    \<exists>r. bsearch cmp k xs l u = Inr r \<and> answers k xs r"
proof (induction "u - l" arbitrary: l u rule: less_induct)
  case less
  show ?case
  proof (cases "l < u")
    case False
    have "cmp k e \<noteq> Inr 0" if "e \<in> set xs" for e
    proof -
      from that obtain j where j: "j < length xs" "e = xs ! j" by (auto simp: in_set_conv_nth)
      with False have "j < l \<or> u \<le> j" by linarith
      with less.prems(2,3) j show ?thesis by auto
    qed
    with False show ?thesis by (subst bsearch.simps) (simp add: answers_def)
  next
    case True
    let ?i = "(l + u) div 2"
    have i: "l \<le> ?i" "?i < u" "?i < length xs" using True less.prems(1) by auto
    then obtain c where c: "cmp k (xs ! ?i) = Inr c"
      using compares [OF assms(1)] assms(2) by (meson nth_mem)
    have each: "\<exists>d. cmp k (xs ! j) = Inr d" if "j < length xs" for j
      using compares [OF assms(1)] assms(2) that by (meson nth_mem)
    have mono: "leq (xs ! a) (xs ! b)" if "a < b" "b < length xs" for a b
      using sorted_wrt_nth_less [OF assms(3)] that by blast
    have unf: "bsearch cmp k xs l u =
        (if c < 0 then bsearch cmp k xs l ?i else if 0 < c then bsearch cmp k xs (Suc ?i) u
         else Inr (Some (xs ! ?i)))"
      using True i c by (subst bsearch.simps) (simp add: Let_def load_in)
    consider "c < 0" | "0 < c" | "c = 0" by linarith
    then show ?thesis
    proof cases
      case 1
      have "\<exists>d. cmp k (xs ! j) = Inr d \<and> d < 0" if "j < length xs" "?i \<le> j" for j
      proof (cases "j = ?i")
        case True
        with c 1 show ?thesis by auto
      next
        case False
        with that have "?i < j" by simp
        then show ?thesis using each [OF that(1)] below [OF mono _ 1] c that(1) by blast
      qed
      then have "\<exists>r. bsearch cmp k xs l ?i = Inr r \<and> answers k xs r"
        using less.hyps [of ?i l] i less.prems by auto
      with unf 1 show ?thesis by simp
    next
      case 2
      have "\<exists>d. cmp k (xs ! j) = Inr d \<and> 0 < d" if "j < Suc ?i" "j < length xs" for j
      proof (cases "j = ?i")
        case True
        with c 2 show ?thesis by auto
      next
        case False
        with that have "j < ?i" by simp
        then show ?thesis using each [OF that(2)] above [OF mono c 2] i by blast
      qed
      then have "\<exists>r. bsearch cmp k xs (Suc ?i) u = Inr r \<and> answers k xs r"
        using less.hyps [of u "Suc ?i"] i less.prems by auto
      with unf 2 show ?thesis by simp
    next
      case 3
      with unf c i show ?thesis by (auto simp: answers_def)
    qed
  qed
qed

lemma bsearch_correct:
  assumes "key_ok k" and "\<forall>e \<in> set xs. elem_ok e" and "sorted_wrt leq xs"
  shows "\<exists>r. bsearch cmp k xs 0 (length xs) = Inr r \<and> answers k xs r"
  by (rule bsearch_range [OF assms]) auto

end

section \<open>lookup5.c\<close>

text \<open>
  What a call of \<open>lookup\<close> does besides changing its argument: it answers with a code, or it prints a
  message and leaves the process, or it waits for a reply that never comes, or the signal of a broken
  connection kills the process.
\<close>

datatype answer = Answer int | Quit int | Blocked | Broken

definition rec_at :: "char list \<Rightarrow> nat \<Rightarrow> dictrec" where
  "rec_at bytes i =
     (let r = drop (i * (WORD + TEXT)) bytes
      in \<lparr>dword = take WORD r, dtext = take TEXT (drop WORD r)\<rparr>)"

definition mmap_table :: "char list \<Rightarrow> dictrec list" where
  "mmap_table bytes = map (rec_at bytes) [0..<length bytes div (WORD + TEXT)]"

definition dict_cmp :: "dictrec \<Rightarrow> dictrec \<Rightarrow> int res" where
  "dict_cmp a b = bindE (cstr (dword a)) (\<lambda>x. bindE (cstr (dword b)) (\<lambda>y. Inr (strcmp x y)))"

text \<open>The static variables: \<open>first_time\<close>, and the mapped records with their number.\<close>

record lookup5_state =
  fresh5 :: bool
  table5 :: "dictrec list"

definition lookup5 :: "(string \<Rightarrow> string option) \<Rightarrow> string \<Rightarrow> lookup5_state \<Rightarrow> dictrec \<Rightarrow>
    ((answer \<times> dictrec) \<times> lookup5_state) res" where
  "lookup5 fs resource st sought =
     (if fresh5 st \<and> fs resource = None then Inr ((Quit 1, sought), st\<lparr>fresh5 := False\<rparr>)
      else
        (let st1 = (if fresh5 st then \<lparr>fresh5 = False, table5 = mmap_table (the (fs resource))\<rparr> else st) in
         bindE (bsearch dict_cmp sought (table5 st1) 0 (length (table5 st1))) (\<lambda>hit.
         case hit of
           None \<Rightarrow> Inr ((Answer NOTFOUND, sought), st1)
         | Some r \<Rightarrow>
             bindE (cstr (dtext r)) (\<lambda>s.
             bindE (strcpy (dtext sought) s) (\<lambda>t.
             Inr ((Answer FOUND, sought\<lparr>dtext := t\<rparr>), st1))))))"

text \<open>A record \<open>lookup5\<close> can search and copy, and the order it expects of the file.\<close>

definition keyed :: "dictrec \<Rightarrow> bool" where
  "keyed r \<longleftrightarrow> NUL \<in> set (dword r)"

definition key_of :: "dictrec \<Rightarrow> string" where
  "key_of r = upto_nul (dword r)"

definition sound_rec :: "dictrec \<Rightarrow> bool" where
  "sound_rec r \<longleftrightarrow> wf_rec r \<and> keyed r \<and> NUL \<in> set (dtext r)"

definition word_order :: "dictrec \<Rightarrow> dictrec \<Rightarrow> bool" where
  "word_order a b \<longleftrightarrow> Key (key_of a) < Key (key_of b)"

definition sound_dict :: "dictrec list \<Rightarrow> bool" where
  "sound_dict recs \<longleftrightarrow> (\<forall>r \<in> set recs. sound_rec r) \<and> sorted_wrt word_order recs"

text \<open>That order is a sorted file without a word twice.\<close>

lemma sorted_word_order:
  "sorted_wrt word_order recs \<longleftrightarrow>
     sorted (map (\<lambda>r. Key (key_of r)) recs) \<and> distinct (map (\<lambda>r. Key (key_of r)) recs)"
  using strict_sorted_iff [of "map (\<lambda>r. Key (key_of r)) recs"]
  unfolding word_order_def by (simp only: sorted_wrt_map)

text \<open>The dictionary as a map from words to definitions.\<close>

definition dict_map :: "dictrec list \<Rightarrow> string \<Rightarrow> string option" where
  "dict_map recs = map_of (map (\<lambda>r. (key_of r, upto_nul (dtext r))) recs)"

lemma cstr_keyed: "keyed r \<Longrightarrow> cstr (dword r) = Inr (key_of r)"
  by (simp add: keyed_def key_of_def cstr_def)

lemma dict_cmp_keyed: "keyed a \<Longrightarrow> keyed b \<Longrightarrow> dict_cmp a b = Inr (strcmp (key_of a) (key_of b))"
  by (simp add: dict_cmp_def cstr_keyed)

lemma dict_cmp_Inr: "dict_cmp a b = Inr c \<Longrightarrow> c = strcmp (key_of a) (key_of b)"
  by (auto simp: dict_cmp_def cstr_def key_of_def bind_simps split: if_splits)

lemma dict_cmp_below:
  assumes "word_order x y" and "dict_cmp k x = Inr c" and "c < 0" and "dict_cmp k y = Inr d"
  shows "d < 0"
  using assms(1,3) strcmp_less_trans [of "key_of k" "key_of x" "key_of y"]
    dict_cmp_Inr [OF assms(2)] dict_cmp_Inr [OF assms(4)] by (simp add: word_order_def)

lemma dict_cmp_above:
  assumes "word_order x y" and "dict_cmp k y = Inr d" and "0 < d" and "dict_cmp k x = Inr c"
  shows "0 < c"
proof -
  have "strcmp (key_of y) (key_of k) < 0"
    using assms(3) strcmp_antisym [of "key_of y" "key_of k"] dict_cmp_Inr [OF assms(2)] by linarith
  then have "strcmp (key_of x) (key_of k) < 0"
    using assms(1) strcmp_less_trans [of "key_of x" "key_of y" "key_of k"] by (simp add: word_order_def)
  then show ?thesis
    using strcmp_antisym [of "key_of x" "key_of k"] dict_cmp_Inr [OF assms(4)] by linarith
qed

interpretation dict: search_order dict_cmp keyed keyed word_order
  using dict_cmp_keyed dict_cmp_below dict_cmp_above by unfold_locales blast+

lemma rec_at_file_bytes:
  "\<forall>r \<in> set recs. wf_rec r \<Longrightarrow> i < length recs \<Longrightarrow> rec_at (file_bytes recs) i = recs ! i"
proof (induction recs arbitrary: i)
  case Nil
  then show ?case by simp
next
  case (Cons r recs)
  have len: "length (rec_bytes r) = WORD + TEXT"
    using Cons.prems by (simp add: rec_bytes_def wf_rec_def)
  show ?case
  proof (cases i)
    case 0
    with Cons.prems show ?thesis
      by (cases r) (simp add: rec_at_def file_bytes_def rec_bytes_def wf_rec_def)
  next
    case (Suc j)
    with Cons.prems len Cons.IH [of j] show ?thesis
      by (simp add: rec_at_def file_bytes_def Let_def)
  qed
qed

lemma length_file_bytes:
  "\<forall>r \<in> set recs. wf_rec r \<Longrightarrow> length (file_bytes recs) = length recs * (WORD + TEXT)"
  by (induction recs) (auto simp: file_bytes_def rec_bytes_def wf_rec_def)

lemma mmap_file_bytes: "\<forall>r \<in> set recs. wf_rec r \<Longrightarrow> mmap_table (file_bytes recs) = recs"
  by (rule nth_equalityI)
    (auto simp: mmap_table_def length_file_bytes rec_at_file_bytes WORD_def TEXT_def)

text \<open>The records of a sorted dictionary, looked up by word.\<close>

lemma dict_map_Some:
  assumes "sound_dict recs" and "r \<in> set recs"
  shows "dict_map recs (key_of r) = Some (upto_nul (dtext r))"
  using assms
proof (induction recs)
  case Nil
  then show ?case by simp
next
  case (Cons x recs)
  have "key_of x \<noteq> key_of r" if "r \<in> set recs"
    using Cons.prems that by (auto simp: sound_dict_def word_order_def)
  with Cons show ?case by (auto simp: dict_map_def sound_dict_def)
qed

lemma dict_map_None: "\<forall>r \<in> set recs. key_of r \<noteq> w \<Longrightarrow> dict_map recs w = None"
  by (auto simp: dict_map_def map_of_eq_None_iff)

definition lookup5_ready :: "(string \<Rightarrow> string option) \<Rightarrow> string \<Rightarrow> dictrec list \<Rightarrow> lookup5_state \<Rightarrow> bool" where
  "lookup5_ready fs resource recs st \<longleftrightarrow>
     (if fresh5 st then fs resource = Some (file_bytes recs) else table5 st = recs)"

definition answer_of :: "string option \<Rightarrow> answer" where
  "answer_of r = (case r of None \<Rightarrow> Answer NOTFOUND | Some _ \<Rightarrow> Answer FOUND)"

lemma lookup5_dict:
  assumes dict: "sound_dict recs" and ready: "lookup5_ready fs resource recs st"
    and q: "wf_rec q" "cstr (dword q) = Inr w"
  shows "lookup5 fs resource st q =
    Inr ((answer_of (dict_map recs w),
          case dict_map recs w of None \<Rightarrow> q
          | Some t \<Rightarrow> q\<lparr>dtext := t @ NUL # drop (Suc (length t)) (dtext q)\<rparr>),
         \<lparr>fresh5 = False, table5 = recs\<rparr>)"
proof -
  have kq: "keyed q" "key_of q = w" using q(2) by (auto simp: keyed_def key_of_def cstr_def split: if_splits)
  have wf: "\<forall>r \<in> set recs. wf_rec r \<and> keyed r"
    using dict by (simp add: sound_dict_def sound_rec_def)
  have st1: "lookup5 fs resource st q =
      bindE (bsearch dict_cmp q recs 0 (length recs)) (\<lambda>hit.
         case hit of
           None \<Rightarrow> Inr ((Answer NOTFOUND, q), \<lparr>fresh5 = False, table5 = recs\<rparr>)
         | Some r \<Rightarrow>
             bindE (cstr (dtext r)) (\<lambda>s.
             bindE (strcpy (dtext q) s) (\<lambda>t.
             Inr ((Answer FOUND, q\<lparr>dtext := t\<rparr>), \<lparr>fresh5 = False, table5 = recs\<rparr>))))"
    using ready wf by (cases st) (auto simp: lookup5_def lookup5_ready_def mmap_file_bytes Let_def)
  obtain r where r: "bsearch dict_cmp q recs 0 (length recs) = Inr r" "dict.answers q recs r"
    using dict.bsearch_correct [of q recs] kq wf dict by (auto simp: sound_dict_def)
  show ?thesis
  proof (cases r)
    case None
    have "key_of x \<noteq> w" if "x \<in> set recs" for x
      using r(2) None that wf kq dict_cmp_keyed [of q x] by (auto simp: dict.answers_def)
    then have "dict_map recs w = None" by (simp add: dict_map_None)
    with st1 r(1) None show ?thesis by (simp add: answer_of_def)
  next
    case (Some x)
    with r(2) have x: "x \<in> set recs" "key_of x = w"
      using kq by (auto simp: dict.answers_def dest: dict_cmp_Inr)
    have c: "cstr (dtext x) = Inr (upto_nul (dtext x))" "length (upto_nul (dtext x)) < length (dtext q)"
      using dict x(1) q(1) length_upto_nul_less [of "dtext x"]
      by (auto simp: sound_dict_def sound_rec_def wf_rec_def cstr_def)
    have "dict_map recs w = Some (upto_nul (dtext x))" using dict_map_Some [OF dict x(1)] x(2) by simp
    with st1 r(1) Some c show ?thesis by (simp add: answer_of_def strcpy_ok)
  qed
qed

text \<open>
  C8: On a file of terminated records in strictly increasing order of their words, the first call of
  \<open>lookup\<close> maps the file and every call, first or later, finds exactly the words of the file: FOUND with
  the definition copied behind the word, NOTFOUND with the query untouched.  The query's word and
  the table are kept.
\<close>

theorem lookup5_finds:
  assumes "sound_dict recs" and "lookup5_ready fs resource recs st"
    and "wf_rec q" and "cstr (dword q) = Inr w"
  shows "\<exists>q' st'. lookup5 fs resource st q = Inr ((answer_of (dict_map recs w), q'), st') \<and>
    lookup5_ready fs resource recs st' \<and> wf_rec q' \<and> dword q' = dword q \<and>
    (case dict_map recs w of None \<Rightarrow> q' = q | Some t \<Rightarrow> cstr (dtext q') = Inr t)"
proof (cases "dict_map recs w")
  case None
  with lookup5_dict [OF assms] assms(3) show ?thesis by (simp add: lookup5_ready_def)
next
  case (Some t)
  then obtain r where r: "r \<in> set recs" "t = upto_nul (dtext r)"
    by (auto simp: dict_map_def dest!: map_of_SomeD)
  with assms(1) have "sound_rec r" by (simp add: sound_dict_def)
  then have "length t < length (dtext q)"
    using assms(3) length_upto_nul_less [of "dtext r"] by (simp add: r(2) sound_rec_def wf_rec_def)
  with lookup5_dict [OF assms] Some r assms(3) show ?thesis
    by (simp add: lookup5_ready_def wf_rec_def)
qed

definition example_dict :: "dictrec list" where
  "example_dict =
     [\<lparr>dword = pad WORD ''bore'', dtext = pad TEXT ''A person who talks.''\<rparr>,
      \<lparr>dword = pad WORD ''peace'', dtext = pad TEXT ''A period of cheating.''\<rparr>,
      \<lparr>dword = pad WORD ''work'', dtext = pad TEXT ''The curse of the drinking classes.''\<rparr>]"

definition ask :: "string \<Rightarrow> dictrec" where
  "ask w = \<lparr>dword = pad WORD w, dtext = zeros TEXT\<rparr>"

lemma key_pad: "nul_free w \<Longrightarrow> length w < n \<Longrightarrow> upto_nul (pad n w) = w"
  by (simp add: pad_nul_split)

lemma nul_in_pad: "length w < n \<Longrightarrow> NUL \<in> set (pad n w)"
  by (simp add: pad_nul_split)

lemma sound_example_dict: "sound_dict example_dict"
  by (simp add: sound_dict_def example_dict_def sound_rec_def wf_rec_def keyed_def word_order_def
      key_of_def key_pad nul_in_pad WORD_def TEXT_def)

lemma dict_map_example:
  "dict_map example_dict ''peace'' = Some ''A period of cheating.''"
  "dict_map example_dict ''zeal'' = None"
  by (simp_all add: dict_map_def example_dict_def key_of_def key_pad WORD_def TEXT_def)

lemma ask_ok: "nul_free w \<Longrightarrow> length w < WORD \<Longrightarrow>
    wf_rec (ask w) \<and> cstr (dword (ask w)) = Inr w \<and> dtext (ask w) = zeros TEXT"
  by (simp add: ask_def wf_rec_def cstr_pad)

theorem lookup5_finds_witness:
  "\<exists>q' st'. lookup5 [''fixrec'' \<mapsto> file_bytes example_dict] ''fixrec''
      \<lparr>fresh5 = True, table5 = []\<rparr> (ask ''peace'') = Inr ((Answer FOUND, q'), st') \<and>
    cstr (dtext q') = Inr ''A period of cheating.''"
  using lookup5_finds [OF sound_example_dict, of "[''fixrec'' \<mapsto> file_bytes example_dict]" "''fixrec''"
      "\<lparr>fresh5 = True, table5 = []\<rparr>" "ask ''peace''" "''peace''"] ask_ok [of "''peace''"]
  by (auto simp: lookup5_ready_def WORD_def dict_map_example answer_of_def)

text \<open>
  A dictionary that cannot be opened ends the process at the first call.
\<close>

theorem lookup5_no_file:
  assumes "fs resource = None"
  shows "lookup5 fs resource \<lparr>fresh5 = True, table5 = t\<rparr> q = Inr ((Quit 1, q), \<lparr>fresh5 = False, table5 = t\<rparr>)"
  using assms by (simp add: lookup5_def)

theorem lookup5_no_file_witness:
  "lookup5 Map.empty ''fixrec'' \<lparr>fresh5 = True, table5 = []\<rparr> (ask ''peace'') =
     Inr ((Quit 1, ask ''peace''), \<lparr>fresh5 = False, table5 = []\<rparr>)"
  by (rule lookup5_no_file) simp

end
