(* ===== verification/DictMain.thy ===== *)
theory DictMain
  imports DictSearch
begin

text \<open>
  The question loop of the dictionary programs: \<open>src/SP_HW4/part3/main.c\<close>, an endless loop that does
  not look at what \<open>gets\<close> returns, and \<open>src/SP_HW11/part1/main.c\<close> (the same in \<open>part2\<close> and \<open>part3\<close>),
  which ends at the end of the input and clears its record after every answer.

  Both call a function \<open>lookup\<close> that each exercise defines in its own way.  The contract between them
  is a pair of locales: \<open>cleared_lookup\<close> promises the right answer for a record whose text has been
  cleared, \<open>lookup_service\<close>, which extends it, for any record.  Each loop is proved once, inside the
  locale whose promise it needs.
\<close>

section \<open>gets\<close>

text \<open>
  Read a line without its newline into the buffer: whether there was one, the buffer and the stream.
\<close>

definition gets :: "char list \<Rightarrow> stream \<Rightarrow> (bool \<times> char list \<times> stream) res" where
  "gets buf f =
     (case getline f of
        (None, f') \<Rightarrow> Inr (False, buf, f')
      | (Some l, f') \<Rightarrow>
          bindE (strcpy buf (if last l = NL then butlast l else l)) (\<lambda>b. Inr (True, b, f')))"

lemma gets_line:
  assumes "NL \<notin> set w" and "length w < length buf" and "rest f = w @ NL # r"
  shows "gets buf f = Inr (True, w @ NUL # drop (Suc (length w)) buf, f\<lparr>rest := r\<rparr>)"
  using getline_line [OF assms(1,3)] assms(2) by (simp add: gets_def strcpy_ok)

lemma gets_end: "rest f = [] \<Longrightarrow> gets buf f = Inr (False, buf, f\<lparr>ateof := True\<rparr>)"
  by (simp add: gets_def getline_end)

lemma gets_shorter: "gets buf f = Inr (True, b, f') \<Longrightarrow> length (rest f') < length (rest f)"
  by (auto simp: gets_def bind_simps dest: getline_shorter split: prod.splits option.splits)

section \<open>The two loops\<close>

type_synonym 's lookup = "'s \<Rightarrow> dictrec \<Rightarrow> ((answer \<times> dictrec) \<times> 's) res"

text \<open>How a program ends, if it does, and where its loop goes on.\<close>

datatype fate = Exited int | Stuck | Signalled

datatype 'a progress = Go 'a | Halt string fate

text \<open>What \<open>printf\<close> prints for an answer; \<open>tail\<close> is the end of the format of a found word.\<close>

definition show_answer :: "string \<Rightarrow> int \<Rightarrow> dictrec \<Rightarrow> string res" where
  "show_answer tail c t =
     (if c = FOUND then
        bindE (cstr (dword t)) (\<lambda>w. bindE (cstr (dtext t)) (\<lambda>x. Inr (w @ '' : '' @ x @ tail)))
      else if c = NOTFOUND then
        bindE (cstr (dword t)) (\<lambda>w. Inr (w @ '' : Not Found!'' @ [NL]))
      else Inr [])"

text \<open>
  One round of the loop of \<open>SP_HW4\<close>: prompt and answers on the standard output, the result of
  \<open>gets\<close> not used.
\<close>

definition prompt :: string where
  "prompt = ''What word do you want : ''"

type_synonym 's main_state = "'s \<times> dictrec \<times> stream \<times> string"

definition main4_round :: "'s lookup \<Rightarrow> 's main_state \<Rightarrow> 's main_state progress res" where
  "main4_round lookup s =
     (case s of (st, tryit, f, out) \<Rightarrow>
        bindE (gets (dword tryit) f) (\<lambda>(_, wd, f').
        bindE (lookup st (tryit\<lparr>dword := wd\<rparr>)) (\<lambda>((a, t), st').
        case a of
          Quit n \<Rightarrow> Inr (Halt (out @ prompt) (Exited n))
        | Blocked \<Rightarrow> Inr (Halt (out @ prompt) Stuck)
        | Broken \<Rightarrow> Inr (Halt (out @ prompt) Signalled)
        | Answer c \<Rightarrow>
            bindE (show_answer [NL] c t) (\<lambda>shown.
            Inr (if c = UNAVAIL then Halt (out @ prompt) (Exited 1)
                 else Go (st', t, f', out @ prompt @ shown))))))"

fun main4_rounds :: "'s lookup \<Rightarrow> nat \<Rightarrow> 's main_state \<Rightarrow> 's main_state progress res" where
  "main4_rounds lookup 0 s = Inr (Go s)"
| "main4_rounds lookup (Suc n) s =
     bindE (main4_round lookup s) (\<lambda>p.
     case p of Go s' \<Rightarrow> main4_rounds lookup n s' | Halt out e \<Rightarrow> Inr (Halt out e))"

text \<open>
  The loop of \<open>SP_HW11\<close>: the prompt goes to the standard error and is left out; \<open>out\<close> is what has
  been printed.
\<close>

function main11_loop :: "'s lookup \<Rightarrow> 's \<Rightarrow> dictrec \<Rightarrow> stream \<Rightarrow> string \<Rightarrow> (string \<times> fate) res" where
  "main11_loop lookup st tryit f out =
     bindE (gets (dword tryit) f) (\<lambda>(got, wd, f').
       if \<not> got then Inr (out, Exited 0)
       else
         bindE (lookup st (tryit\<lparr>dword := wd\<rparr>)) (\<lambda>((a, t), st').
         case a of
           Quit n \<Rightarrow> Inr (out, Exited n)
         | Blocked \<Rightarrow> Inr (out, Stuck)
         | Broken \<Rightarrow> Inr (out, Signalled)
         | Answer c \<Rightarrow>
             bindE (show_answer [] c t) (\<lambda>shown.
             if c = UNAVAIL then Inr (out, Exited 1)
             else main11_loop lookup st' blank f' (out @ shown))))"
  by pat_completeness auto
termination
  by (relation "measure (\<lambda>(_, _, _, f, _). length (rest f))") (auto dest: gets_shorter)

declare main11_loop.simps [simp del]

section \<open>The contract of lookup\<close>

text \<open>
  \<open>ready\<close> are the states of a lookup whose resource is available, \<open>legal\<close> the words it can be asked,
  \<open>meaning\<close> the dictionary.
\<close>

definition answered :: "string \<Rightarrow> string option \<Rightarrow> dictrec \<Rightarrow> bool" where
  "answered w m q \<longleftrightarrow> wf_rec q \<and> cstr (dword q) = Inr w \<and> (\<forall>t. m = Some t \<longrightarrow> cstr (dtext q) = Inr t)"

definition line_of :: "string \<Rightarrow> string \<Rightarrow> string option \<Rightarrow> string" where
  "line_of tail w m =
     w @ '' : '' @ (case m of None \<Rightarrow> ''Not Found!'' @ [NL] | Some t \<Rightarrow> t @ tail)"

lemma show_answered:
  "answered w m q \<Longrightarrow> answer_of m = Answer c \<Longrightarrow> show_answer tail c q = Inr (line_of tail w m)"
  by (cases m) (auto simp: answered_def answer_of_def show_answer_def line_of_def FOUND_def NOTFOUND_def)

lemma answer_of_cases: "\<exists>c. answer_of m = Answer c \<and> c \<noteq> UNAVAIL"
  by (cases m) (auto simp: answer_of_def FOUND_def NOTFOUND_def UNAVAIL_def)

definition typed :: "(string \<Rightarrow> bool) \<Rightarrow> string \<Rightarrow> bool" where
  "typed legal w \<longleftrightarrow> plain w \<and> length w < WORD \<and> legal w"

lemma typed_word:
  assumes "typed legal w" and "wf_rec q"
  shows "wf_rec (q\<lparr>dword := w @ NUL # drop (Suc (length w)) (dword q)\<rparr>) \<and>
    cstr (w @ NUL # drop (Suc (length w)) (dword q)) = Inr w \<and> legal w"
  using assms by (auto simp: typed_def plain_def wf_rec_def)

text \<open>One round of the loop that ends at the end of the input, for a line that gets its answer.\<close>

lemma main11_round:
  assumes "typed legal w" and "wf_rec q"
    and "lookup st (q\<lparr>dword := w @ NUL # drop (Suc (length w)) (dword q)\<rparr>) = Inr ((answer_of m, q'), st')"
    and "answered w m q'"
  shows "main11_loop lookup st q \<lparr>rest = render_lines (w # ws) @ r, ateof = e\<rparr> out =
    main11_loop lookup st' blank \<lparr>rest = render_lines ws @ r, ateof = e\<rparr> (out @ line_of [] w m)"
proof -
  have g: "gets (dword q) \<lparr>rest = render_lines (w # ws) @ r, ateof = e\<rparr> =
      Inr (True, w @ NUL # drop (Suc (length w)) (dword q), \<lparr>rest = render_lines ws @ r, ateof = e\<rparr>)"
    using gets_line [of w "dword q" "\<lparr>rest = render_lines (w # ws) @ r, ateof = e\<rparr>" "render_lines ws @ r"] assms(1,2)
    by (simp add: plain_def render_lines_def typed_def wf_rec_def)
  obtain c where c: "answer_of m = Answer c" "c \<noteq> UNAVAIL" using answer_of_cases by blast
  show ?thesis
    using show_answered [OF assms(4) c(1)] c assms(3) by (subst main11_loop.simps) (simp add: g)
qed

lemma blank_clear: "wf_rec blank" "dtext blank = zeros TEXT"
  by (simp_all add: blank_def wf_rec_def)

locale cleared_lookup =
  fixes lookup :: "'s lookup"
    and ready :: "'s \<Rightarrow> bool"
    and legal :: "string \<Rightarrow> bool"
    and meaning :: "string \<Rightarrow> string option"
  assumes reply_cleared: "ready st \<Longrightarrow> wf_rec q \<Longrightarrow> cstr (dword q) = Inr w \<Longrightarrow> legal w \<Longrightarrow>
    dtext q = zeros TEXT \<Longrightarrow>
    \<exists>q' st'. lookup st q = Inr ((answer_of (meaning w), q'), st') \<and> ready st' \<and> answered w (meaning w) q'"
begin

lemma main11_reads:
  "ready st \<Longrightarrow> wf_rec q \<Longrightarrow> dtext q = zeros TEXT \<Longrightarrow> \<forall>w \<in> set ws. typed legal w \<Longrightarrow>
   \<exists>st' q'. main11_loop lookup st q \<lparr>rest = render_lines ws @ r, ateof = e\<rparr> out =
      main11_loop lookup st' q' \<lparr>rest = r, ateof = e\<rparr>
        (out @ concat (map (\<lambda>w. line_of [] w (meaning w)) ws)) \<and>
    ready st' \<and> wf_rec q' \<and> dtext q' = zeros TEXT"
proof (induction ws arbitrary: st q out)
  case Nil
  then show ?case by (auto simp: render_lines_def)
next
  case (Cons w ws)
  let ?q = "q\<lparr>dword := w @ NUL # drop (Suc (length w)) (dword q)\<rparr>"
  have q: "wf_rec ?q" "cstr (dword ?q) = Inr w" "legal w" "dtext ?q = zeros TEXT"
    using typed_word [of legal w q] Cons.prems by auto
  obtain q' st' where l: "lookup st ?q = Inr ((answer_of (meaning w), q'), st')" "ready st'"
      "answered w (meaning w) q'"
    using reply_cleared [OF Cons.prems(1) q] by blast
  have "typed legal w" using Cons.prems(4) by simp
  from main11_round [where lookup = lookup, OF this Cons.prems(2) l(1,3)] show ?case
    using Cons.IH [OF l(2) blank_clear, of "out @ line_of [] w (meaning w)"] Cons.prems(4) by simp
qed

lemma main11_session:
  assumes "ready st" and "wf_rec q" and "dtext q = zeros TEXT" and "\<forall>w \<in> set ws. typed legal w"
  shows "main11_loop lookup st q \<lparr>rest = render_lines ws, ateof = e\<rparr> out =
     Inr (out @ concat (map (\<lambda>w. line_of [] w (meaning w)) ws), Exited 0)"
proof -
  have "main11_loop lookup st' q' \<lparr>rest = [], ateof = e\<rparr> out = Inr (out, Exited 0)" for st' q' out
    by (subst main11_loop.simps) (simp add: gets_end)
  then show ?thesis using main11_reads [OF assms, of "[]" e out] by auto
qed

text \<open>A lookup that waits for ever when it is asked the empty word: the session stops at the first empty line.\<close>

lemma main11_stops:
  assumes "ready st" and "wf_rec q" and "dtext q = zeros TEXT" and "\<forall>w \<in> set ws. typed (\<lambda>_. True) w"
    and "\<And>w. w \<noteq> [] \<Longrightarrow> legal w"
    and "\<And>st q. ready st \<Longrightarrow> cstr (dword q) = Inr [] \<Longrightarrow> \<exists>st'. lookup st q = Inr ((Blocked, q), st')"
  shows "main11_loop lookup st q \<lparr>rest = render_lines ws, ateof = e\<rparr> out =
     Inr (out @ concat (map (\<lambda>w. line_of [] w (meaning w)) (takeWhile (\<lambda>w. w \<noteq> []) ws)),
       if [] \<in> set ws then Stuck else Exited 0)"
proof (cases "[] \<in> set ws")
  case False
  then have "w \<noteq> []" if "w \<in> set ws" for w using that by blast
  then have us: "takeWhile (\<lambda>w. w \<noteq> []) ws = ws" by (simp add: takeWhile_eq_all_conv)
  have "typed legal w" if "w \<in> set ws" for w
    using that assms(4) assms(5) [of w] False by (cases w) (auto simp: typed_def)
  then show ?thesis unfolding us using main11_session [OF assms(1-3)] False by simp
next
  case True
  let ?us = "takeWhile (\<lambda>w. w \<noteq> []) ws"
  obtain vs where ws: "ws = ?us @ [] # vs"
  proof -
    have "dropWhile (\<lambda>w. w \<noteq> []) ws \<noteq> []" using True by (auto simp: dropWhile_eq_Nil_conv)
    with hd_dropWhile [OF this] have "dropWhile (\<lambda>w. w \<noteq> []) ws = [] # tl (dropWhile (\<lambda>w. w \<noteq> []) ws)"
      by (cases "dropWhile (\<lambda>w. w \<noteq> []) ws") auto
    then show ?thesis using takeWhile_dropWhile_id [of "\<lambda>w. w \<noteq> []" ws] that by metis
  qed
  have us: "\<forall>w \<in> set ?us. typed legal w"
    using assms(4,5) by (auto simp: typed_def dest: set_takeWhileD)
  have lines: "render_lines ws = render_lines ?us @ NL # render_lines vs"
    by (subst ws) (simp add: render_lines_def)
  obtain st' q' where s: "main11_loop lookup st q \<lparr>rest = render_lines ws, ateof = e\<rparr> out =
        main11_loop lookup st' q' \<lparr>rest = NL # render_lines vs, ateof = e\<rparr>
          (out @ concat (map (\<lambda>w. line_of [] w (meaning w)) ?us))"
    and st': "ready st'" "wf_rec q'"
    using main11_reads [OF assms(1-3) us, of "NL # render_lines vs" e out] lines by auto
  let ?wd = "NUL # drop 1 (dword q')"
  have g: "gets (dword q') \<lparr>rest = NL # render_lines vs, ateof = e\<rparr> =
      Inr (True, ?wd, \<lparr>rest = render_lines vs, ateof = e\<rparr>)"
    using gets_line [of "[]" "dword q'" "\<lparr>rest = NL # render_lines vs, ateof = e\<rparr>" "render_lines vs"] st'(2)
    by (cases "dword q'") (simp_all add: wf_rec_def WORD_def)
  have "cstr (dword (q'\<lparr>dword := ?wd\<rparr>)) = Inr []" using cstr_append_nul [of "[]"] by simp
  from assms(6) [OF st'(1) this] obtain st2 where
    "lookup st' (q'\<lparr>dword := ?wd\<rparr>) = Inr ((Blocked, q'\<lparr>dword := ?wd\<rparr>), st2)" by blast
  then have "main11_loop lookup st' q' \<lparr>rest = NL # render_lines vs, ateof = e\<rparr> o' = Inr (o', Stuck)" for o'
    by (subst main11_loop.simps) (simp add: g)
  with s True show ?thesis by simp
qed

end

locale lookup_service =
  fixes lookup :: "'s lookup"
    and ready :: "'s \<Rightarrow> bool"
    and legal :: "string \<Rightarrow> bool"
    and meaning :: "string \<Rightarrow> string option"
  assumes reply: "ready st \<Longrightarrow> wf_rec q \<Longrightarrow> cstr (dword q) = Inr w \<Longrightarrow> legal w \<Longrightarrow>
    \<exists>q' st'. lookup st q = Inr ((answer_of (meaning w), q'), st') \<and> ready st' \<and> answered w (meaning w) q'"

sublocale lookup_service \<subseteq> cleared_lookup lookup ready legal meaning
  by unfold_locales (rule reply)

section \<open>The endless loop\<close>

lemma main4_rounds_add:
  "main4_rounds lookup (m + n) s =
     bindE (main4_rounds lookup m s) (\<lambda>p.
     case p of Go s' \<Rightarrow> main4_rounds lookup n s' | Halt out e \<Rightarrow> Inr (Halt out e))"
proof (induction m arbitrary: s)
  case 0
  then show ?case by simp
next
  case (Suc m)
  then show ?case
    by (cases "main4_round lookup s") (auto split: progress.splits)
qed

context lookup_service
begin

text \<open>The record of the first round need not be clear here.\<close>

lemma main11_answers:
  assumes "ready st" and "wf_rec q" and "\<forall>w \<in> set ws. typed legal w"
  shows "main11_loop lookup st q \<lparr>rest = render_lines ws, ateof = e\<rparr> out =
     Inr (out @ concat (map (\<lambda>w. line_of [] w (meaning w)) ws), Exited 0)"
proof (cases ws)
  case Nil
  then show ?thesis by (subst main11_loop.simps) (simp add: gets_end render_lines_def)
next
  case (Cons w us)
  let ?q = "q\<lparr>dword := w @ NUL # drop (Suc (length w)) (dword q)\<rparr>"
  have w: "typed legal w" and us: "\<forall>w \<in> set us. typed legal w" using assms(3) Cons by simp_all
  have q: "wf_rec ?q" "cstr (dword ?q) = Inr w" "legal w" using typed_word [OF w assms(2)] by auto
  obtain q' st' where l: "lookup st ?q = Inr ((answer_of (meaning w), q'), st')" "ready st'"
      "answered w (meaning w) q'"
    using reply [OF assms(1) q] by blast
  show ?thesis
    using main11_round [where lookup = lookup and r = "[]" and ws = us and e = e and out = out, OF w assms(2) l(1,3)]
      main11_session [OF l(2) blank_clear us, of e "out @ line_of [] w (meaning w)"] Cons by simp
qed

lemma main4_answer:
  assumes "ready st" and "wf_rec q" and "gets (dword q) f = Inr (got, wd, f')"
    and "wf_rec (q\<lparr>dword := wd\<rparr>)" and "cstr wd = Inr w" and "legal w"
  shows "\<exists>st' q'. main4_round lookup (st, q, f, out) =
      Inr (Go (st', q', f', out @ prompt @ line_of [NL] w (meaning w))) \<and>
    ready st' \<and> answered w (meaning w) q'"
proof -
  obtain q' st' where l: "lookup st (q\<lparr>dword := wd\<rparr>) = Inr ((answer_of (meaning w), q'), st')"
      "ready st'" "answered w (meaning w) q'"
    using reply [OF assms(1,4)] assms(5,6) by fastforce
  obtain c where c: "answer_of (meaning w) = Answer c" "c \<noteq> UNAVAIL" using answer_of_cases by blast
  show ?thesis
    using l c show_answered [OF l(3) c(1)] by (simp add: main4_round_def assms(3))
qed

lemma main4_reads:
  "ready st \<Longrightarrow> wf_rec q \<Longrightarrow> \<forall>w \<in> set ws. typed legal w \<Longrightarrow>
   \<exists>st' q'. main4_rounds lookup (length ws) (st, q, \<lparr>rest = render_lines ws, ateof = e\<rparr>, out) =
      Inr (Go (st', q', \<lparr>rest = [], ateof = e\<rparr>,
        out @ concat (map (\<lambda>w. prompt @ line_of [NL] w (meaning w)) ws))) \<and>
    ready st' \<and> wf_rec q' \<and> (ws \<noteq> [] \<longrightarrow> cstr (dword q') = Inr (last ws))"
proof (induction ws arbitrary: st q out)
  case Nil
  then show ?case by (simp add: render_lines_def)
next
  case (Cons w ws)
  let ?wd = "w @ NUL # drop (Suc (length w)) (dword q)"
  have w: "plain w" "length w < length (dword q)" using Cons.prems by (auto simp: typed_def wf_rec_def)
  have g: "gets (dword q) \<lparr>rest = render_lines (w # ws), ateof = e\<rparr> =
      Inr (True, ?wd, \<lparr>rest = render_lines ws, ateof = e\<rparr>)"
    using gets_line [of w "dword q" "\<lparr>rest = render_lines (w # ws), ateof = e\<rparr>" "render_lines ws"] w
    by (simp add: plain_def render_lines_def)
  have ok: "wf_rec (q\<lparr>dword := ?wd\<rparr>)" "cstr ?wd = Inr w" "legal w"
    using typed_word [of legal w q] Cons.prems by auto
  obtain st1 q1 where r: "main4_round lookup (st, q, \<lparr>rest = render_lines (w # ws), ateof = e\<rparr>, out) =
        Inr (Go (st1, q1, \<lparr>rest = render_lines ws, ateof = e\<rparr>, out @ prompt @ line_of [NL] w (meaning w)))"
      "ready st1" "answered w (meaning w) q1"
    using main4_answer [OF Cons.prems(1,2) g ok] by blast
  have q1: "wf_rec q1" "cstr (dword q1) = Inr w" using r(3) by (auto simp: answered_def)
  show ?case
    using Cons.IH [OF r(2) q1(1), of "out @ prompt @ line_of [NL] w (meaning w)"] Cons.prems(3) r(1) q1
    by (cases "ws = []") (auto simp: render_lines_def)
qed

lemma main4_at_end:
  "ready st \<Longrightarrow> wf_rec q \<Longrightarrow> cstr (dword q) = Inr w \<Longrightarrow> legal w \<Longrightarrow> rest f = [] \<Longrightarrow>
   \<exists>s'. main4_rounds lookup n (st, q, f, out) =
      Inr (Go s') \<and> snd (snd (snd s')) = out @ concat (replicate n (prompt @ line_of [NL] w (meaning w)))"
proof (induction n arbitrary: st q f out)
  case 0
  then show ?case by simp
next
  case (Suc n)
  have g: "gets (dword q) f = Inr (False, dword q, f\<lparr>ateof := True\<rparr>)"
    using Suc.prems(5) by (rule gets_end)
  have ok: "wf_rec (q\<lparr>dword := dword q\<rparr>)" "cstr (dword q) = Inr w" "legal w" using Suc.prems by auto
  obtain st1 q1 where r: "main4_round lookup (st, q, f, out) =
        Inr (Go (st1, q1, f\<lparr>ateof := True\<rparr>, out @ prompt @ line_of [NL] w (meaning w)))"
      "ready st1" "answered w (meaning w) q1"
    using main4_answer [OF Suc.prems(1,2) g ok] by blast
  show ?case
    using Suc.IH [OF r(2), of q1 "f\<lparr>ateof := True\<rparr>" "out @ prompt @ line_of [NL] w (meaning w)"]
      r(1,3) Suc.prems(4,5) by (simp add: answered_def)
qed

lemma main4_session:
  assumes "ready st" and "wf_rec q" and "\<forall>w \<in> set ws. typed legal w" and "ws \<noteq> []"
  shows "\<exists>s'. main4_rounds lookup (length ws + n) (st, q, \<lparr>rest = render_lines ws, ateof = False\<rparr>, []) =
      Inr (Go s') \<and>
    snd (snd (snd s')) =
      concat (map (\<lambda>w. prompt @ line_of [NL] w (meaning w)) (ws @ replicate n (last ws)))"
proof -
  obtain st' q' where r: "main4_rounds lookup (length ws) (st, q, \<lparr>rest = render_lines ws, ateof = False\<rparr>, []) =
      Inr (Go (st', q', \<lparr>rest = [], ateof = False\<rparr>,
        [] @ concat (map (\<lambda>w. prompt @ line_of [NL] w (meaning w)) ws)))"
      "ready st'" "wf_rec q'" "cstr (dword q') = Inr (last ws)"
    using main4_reads [OF assms(1-3), of False "[]"] assms(4) by auto
  have "legal (last ws)" using assms(3,4) by (auto simp: typed_def)
  then show ?thesis
    using main4_at_end [OF r(2-4), of "\<lparr>rest = [], ateof = False\<rparr>" n] r(1)
    by (auto simp: main4_rounds_add)
qed

end

section \<open>SP_HW4: main and lookup1\<close>

definition lookup1_answer :: "(string \<Rightarrow> string option) \<Rightarrow> string \<Rightarrow> lookup1_state lookup" where
  "lookup1_answer fs resource st q =
     bindE (lookup1 fs resource st q) (\<lambda>((c, q'), st'). Inr ((Answer c, q'), st'))"

definition file_map :: "dictrec list \<Rightarrow> string \<Rightarrow> string option" where
  "file_map recs w = map_option (\<lambda>r. upto_nul (dtext r)) (find (has_word (w @ [NL])) recs)"

definition lookup1_legal :: "string \<Rightarrow> bool" where
  "lookup1_legal w \<longleftrightarrow> length w + 2 \<le> WORD"

definition lookup1_serves :: "(string \<Rightarrow> string option) \<Rightarrow> string \<Rightarrow> dictrec list \<Rightarrow> lookup1_state \<Rightarrow> bool" where
  "lookup1_serves fs resource recs st \<longleftrightarrow>
     lookup1_ready fs resource recs st \<and> (\<forall>r \<in> set recs. good_rec r \<and> NUL \<in> set (dtext r))"

lemma lookup1_reply:
  assumes "lookup1_serves fs resource recs st" and "wf_rec q" and "cstr (dword q) = Inr w"
    and "lookup1_legal w"
  shows "\<exists>q' st'. lookup1_answer fs resource st q = Inr ((answer_of (file_map recs w), q'), st') \<and>
    lookup1_serves fs resource recs st' \<and> answered w (file_map recs w) q'"
proof -
  have pre: "lookup1_ready fs resource recs st" "\<forall>r \<in> set recs. good_rec r" "length w + 2 \<le> WORD"
    using assms by (auto simp: lookup1_serves_def lookup1_legal_def)
  have good: "wf_rec r \<and> NUL \<in> set (dtext r)" if "find P recs = Some r" for P r
    using that assms(1) by (auto simp: lookup1_serves_def good_rec_def find_Some_iff)
  have nf: "nul_free w" using assms(3) by (rule cstr_Inr_nul_free)
  have ready: "lookup1_ready fs resource recs \<lparr>first_time = False, dictfile = Some (file_bytes recs)\<rparr>"
    by (simp add: lookup1_ready_def)
  show ?thesis
    using lookup1_records [OF pre(1,2) assms(2,3) pre(3)] nf good assms(1,2) pre(3) ready
    by (cases "find (has_word (w @ [NL])) recs")
      (auto simp: lookup1_answer_def file_map_def answer_of_def answered_def lookup1_serves_def
        Let_def wf_rec_def cstr_def)
qed

interpretation lk1: lookup_service "lookup1_answer fs resource" "lookup1_serves fs resource recs"
    lookup1_legal "file_map recs" for fs resource recs
  by unfold_locales (rule lookup1_reply)

text \<open>The map of the file \<open>convert\<close> writes: each word to the first line of its definition.\<close>

definition first_line :: "string list \<Rightarrow> string" where
  "first_line ds = (case ds of [] \<Rightarrow> [] | d # _ \<Rightarrow> d @ [NL])"

lemma encode_text:
  assumes "fits (w, ds)"
  shows "cstr (dtext (encode (w, ds))) = Inr (first_line ds)"
proof (cases ds)
  case Nil
  then show ?thesis
    by (simp add: encode_def stored_lines_def first_line_def cstr_pad TEXT_def)
next
  case (Cons d ds')
  have "nul_free (d @ [NL])" using assms Cons by (auto simp: fits_def plain_def)
  then show ?thesis
    using cstr_append_nul [of "d @ [NL]" "stored_lines ds' @ replicate (TEXT - length (stored_lines ds)) NUL"]
    by (simp add: encode_def pad_def stored_lines_Cons first_line_def Cons)
qed

lemma encode_text_nul: "fits e \<Longrightarrow> NUL \<in> set (dtext (encode e))"
  using encode_text [of "fst e" "snd e"] by (auto simp: cstr_def split: if_splits)

lemma file_map_encode:
  assumes "\<forall>e \<in> set es. fits e"
  shows "file_map (map encode es) w = map_option first_line (map_of es w)"
proof (cases "map_of es w")
  case None
  then show ?thesis by (simp add: file_map_def find_encoded [OF assms])
next
  case (Some ds)
  then have "fits (w, ds)" using assms by (auto dest: map_of_SomeD)
  with Some show ?thesis
    using encode_text [of w ds] by (auto simp: file_map_def find_encoded [OF assms] cstr_def split: if_splits)
qed

text \<open>
  The main program: \<open>e0\<close> is \<open>errno\<close> when it finds the wrong number of arguments; the usage goes to the
  standard error.  \<open>n\<close> is the number of rounds looked at.
\<close>

definition main4 :: "int \<Rightarrow> (string \<Rightarrow> 's lookup) \<Rightarrow> nat \<Rightarrow> 's \<Rightarrow> dictrec \<Rightarrow> string list \<Rightarrow> stream \<Rightarrow>
    's main_state progress res" where
  "main4 e0 lookup n st tryit argv f =
     (if length argv \<noteq> 2 then Inr (Halt [] (Exited e0))
      else main4_rounds (lookup (argv ! 1)) n (st, tryit, f, []))"

text \<open>
  The program of \<open>SP_HW4\<close> on a file that \<open>convert\<close> wrote: it answers every line typed, in order,
  with the first line of the stored definition or ``Not Found!''; when the input ends it does
  not stop, but answers the last word again in every further round.
\<close>

theorem main4_repeats_last_word:
  assumes "\<forall>e \<in> set es. fits e" and "\<forall>w \<in> set ws. typed lookup1_legal w" and "ws \<noteq> []"
    and "wf_rec q" and "fs dict = Some (file_bytes (map encode es))"
  shows "\<exists>s'. main4 e0 (lookup1_answer fs) (length ws + n) \<lparr>first_time = True, dictfile = None\<rparr> q [prog, dict]
        \<lparr>rest = render_lines ws, ateof = False\<rparr> = Inr (Go s') \<and>
    snd (snd (snd s')) =
      concat (map (\<lambda>w. prompt @ line_of [NL] w (map_option first_line (map_of es w)))
        (ws @ replicate n (last ws)))"
proof -
  have "lookup1_serves fs dict (map encode es) \<lparr>first_time = True, dictfile = None\<rparr>"
    using assms(1,5) good_encode encode_text_nul by (auto simp: lookup1_serves_def lookup1_ready_def)
  from lk1.main4_session [OF this assms(4,2,3)] show ?thesis
    by (simp add: main4_def file_map_encode [OF assms(1)])
qed

theorem main4_repeats_last_word_witness:
  "\<exists>s'. main4 0 (lookup1_answer [''fixrec'' \<mapsto> file_bytes (map encode example_entries)])
      (length [''bore'', ''zeal''] + 1) \<lparr>first_time = True, dictfile = None\<rparr> blank [''lookup1'', ''fixrec'']
      \<lparr>rest = render_lines [''bore'', ''zeal''], ateof = False\<rparr> = Inr (Go s') \<and>
    snd (snd (snd s')) =
      prompt @ ''bore : A person who talks'' @ [NL, NL] @
      prompt @ ''zeal : Not Found!'' @ [NL] @ prompt @ ''zeal : Not Found!'' @ [NL]"
proof -
  have words: "\<forall>w \<in> set [''bore'', ''zeal'']. typed lookup1_legal w"
    by (simp add: typed_def plain_def lookup1_legal_def WORD_def)
  have shown: "concat (map (\<lambda>w. prompt @ line_of [NL] w (map_option first_line (map_of example_entries w)))
      ([''bore'', ''zeal''] @ replicate 1 (last [''bore'', ''zeal'']))) =
      prompt @ ''bore : A person who talks'' @ [NL, NL] @
      prompt @ ''zeal : Not Found!'' @ [NL] @ prompt @ ''zeal : Not Found!'' @ [NL]"
    by (simp add: example_entries_def line_of_def first_line_def)
  show ?thesis
    by (rule main4_repeats_last_word [OF example_fits words, where n = 1, unfolded shown])
      (simp_all add: wf_rec_def blank_def)
qed

end
