(* ===== verification/DictNet.thy ===== *)
theory DictNet
  imports DictMain
begin

text \<open>
  The dictionary over the network, \<open>src/SP_HW11\<close>: the servers \<open>usock_server.c\<close>, \<open>isock_server.c\<close>
  (stream sockets, one forked child per connection) and \<open>udp_server.c\<close>, all of them around
  \<open>lookup5\<close>, and the clients \<open>lookup7.c\<close>, \<open>lookup8.c\<close>, \<open>lookup9.c\<close>.

  The network itself is a function from the server's state and the bytes sent to what arrives: a
  stream socket delivers nothing for an empty send, a datagram socket delivers an empty message.
  Messages are shorter than the buffers and are taken to arrive whole.  The locale \<open>reply_service\<close> is
  what a client relies on; \<open>connected\<close> adds that its connection can be made, and gives the contract
  of \<open>DictMain\<close> for both stream clients.
\<close>

section \<open>The servers\<close>

text \<open>\<open>recv\<close> into a buffer: the bytes received in front of what it held.\<close>

definition recv :: "char list \<Rightarrow> char list \<Rightarrow> char list" where
  "recv buf msg = take (length buf) msg @ drop (length msg) buf"

text \<open>
  One request in the loop of the servers: the reply sent, if any, with the record and the state of
  \<open>lookup5\<close> for the next round, or the end of the process.
\<close>

datatype served = Served "string option" dictrec lookup5_state | Ends int | Hangs

definition sentinel :: string where "sentinel = ''XXXX''"

definition serve :: "(string \<Rightarrow> string option) \<Rightarrow> string \<Rightarrow> dictrec \<Rightarrow> lookup5_state \<Rightarrow> char list \<Rightarrow> served res" where
  "serve fs resource tryit st msg =
     bindE (lookup5 fs resource st (tryit\<lparr>dword := recv (dword tryit) msg\<rparr>)) (\<lambda>((a, t), st').
     case a of
       Quit n \<Rightarrow> Inr (Ends n)
     | Blocked \<Rightarrow> Inr Hangs
     | Broken \<Rightarrow> Inr Hangs
     | Answer c \<Rightarrow>
         if c = FOUND then
           bindE (cstr (dtext t)) (\<lambda>s. Inr (Served (Some s) (t\<lparr>dword := zeros WORD\<rparr>) st'))
         else if c = NOTFOUND then
           bindE (strcpy (dtext t) sentinel) (\<lambda>x.
           bindE (cstr x) (\<lambda>s. Inr (Served (Some s) (t\<lparr>dword := zeros WORD, dtext := x\<rparr>) st')))
         else if c = UNAVAIL then Inr (Ends 1)
         else Inr (Served None (t\<lparr>dword := zeros WORD\<rparr>) st'))"

text \<open>
  The dialog of a server child with its client: a list of what \<open>recv\<close> gets, with whether the client's end
  still takes the reply; \<open>None\<close> for an error, which ends the child.  A closed connection is an empty
  message and does not end the loop, but the reply to it ends the process with \<open>SIGPIPE\<close>, on a Unix socket
  the first one and on the internet one of the next.  Result: the replies and how the child ends, if it does.
\<close>

datatype dialog_end = Status int | Sigpipe

fun dialog :: "(string \<Rightarrow> string option) \<Rightarrow> string \<Rightarrow> dictrec \<Rightarrow> lookup5_state \<Rightarrow> (char list \<times> bool) option list \<Rightarrow>
    (string option list \<times> dialog_end option) res" where
  "dialog fs resource tryit st [] = Inr ([], None)"
| "dialog fs resource tryit st (None # ms) = Inr ([], Some (Status 0))"
| "dialog fs resource tryit st (Some (m, takes) # ms) =
     bindE (serve fs resource tryit st m) (\<lambda>s.
     case s of
       Ends n \<Rightarrow> Inr ([], Some (Status n))
     | Hangs \<Rightarrow> Inr ([], None)
     | Served r tryit' st' \<Rightarrow>
         if r \<noteq> None \<and> \<not> takes then Inr ([], Some Sigpipe)
         else bindE (dialog fs resource tryit' st' ms) (\<lambda>(rs, e). Inr (r # rs, e)))"

text \<open>The loop of \<open>udp_server\<close>: an error of \<open>recvfrom\<close> only starts the inner loop again.\<close>

fun udp_loop :: "(string \<Rightarrow> string option) \<Rightarrow> string \<Rightarrow> dictrec \<Rightarrow> lookup5_state \<Rightarrow> char list option list \<Rightarrow>
    (string option list \<times> int option) res" where
  "udp_loop fs resource tryit st [] = Inr ([], None)"
| "udp_loop fs resource tryit st (None # ms) = udp_loop fs resource tryit st ms"
| "udp_loop fs resource tryit st (Some m # ms) =
     bindE (serve fs resource tryit st m) (\<lambda>s.
     case s of
       Ends n \<Rightarrow> Inr ([], Some n)
     | Hangs \<Rightarrow> Inr ([], None)
     | Served r tryit' st' \<Rightarrow>
         bindE (udp_loop fs resource tryit' st' ms) (\<lambda>(rs, e). Inr (r # rs, e)))"

text \<open>A server process as its client sees it, over a stream and over datagrams.\<close>

datatype peer = Alive dictrec lookup5_state | Gone

datatype delivery = Delivered string | Nothing | SendFails | SendBreaks | RecvFails

definition stream_net :: "(string \<Rightarrow> string option) \<Rightarrow> string \<Rightarrow> peer \<Rightarrow> string \<Rightarrow> (delivery \<times> peer) res" where
  "stream_net fs resource p msg =
     (case p of
        Gone \<Rightarrow> Inr (SendBreaks, Gone)
      | Alive tryit st \<Rightarrow>
          if msg = [] then Inr (Nothing, p)
          else
            bindE (serve fs resource tryit st msg) (\<lambda>s.
            case s of
              Ends n \<Rightarrow> Inr (Delivered [], Gone)
            | Hangs \<Rightarrow> Inr (Nothing, p)
            | Served r tryit' st' \<Rightarrow>
                Inr (case r of None \<Rightarrow> Nothing | Some s \<Rightarrow> if s = [] then Nothing else Delivered s,
                     Alive tryit' st')))"

definition datagram_net :: "(string \<Rightarrow> string option) \<Rightarrow> string \<Rightarrow> peer \<Rightarrow> string \<Rightarrow> (delivery \<times> peer) res" where
  "datagram_net fs resource p msg =
     (case p of
        Gone \<Rightarrow> Inr (Nothing, Gone)
      | Alive tryit st \<Rightarrow>
          bindE (serve fs resource tryit st msg) (\<lambda>s.
          case s of
            Ends n \<Rightarrow> Inr (Nothing, Gone)
          | Hangs \<Rightarrow> Inr (Nothing, p)
          | Served r tryit' st' \<Rightarrow>
              Inr (case r of None \<Rightarrow> Nothing | Some s \<Rightarrow> Delivered s, Alive tryit' st')))"

section \<open>The clients\<close>

text \<open>Which of the calls that set up the connection succeed.\<close>

record conn_env =
  host_ok :: bool
  socket_ok :: bool
  connect_ok :: bool

definition SUN_PATH :: nat where "SUN_PATH = 108"

text \<open>Write the query, await the reply, look for the sentinel (\<open>lookup7\<close> and \<open>lookup8\<close>).\<close>

definition exchange :: "('p \<Rightarrow> string \<Rightarrow> (delivery \<times> 'p) res) \<Rightarrow> 'p \<Rightarrow> dictrec \<Rightarrow>
    ((answer \<times> dictrec) \<times> 'p) res" where
  "exchange net p sought =
     bindE (cstr (dword sought)) (\<lambda>w.
     bindE (net p w) (\<lambda>(d, p').
     case d of
       SendFails \<Rightarrow> Inr ((Quit 1, sought), p')
     | SendBreaks \<Rightarrow> Inr ((Broken, sought), p')
     | RecvFails \<Rightarrow> Inr ((Quit 1, sought), p')
     | Nothing \<Rightarrow> Inr ((Blocked, sought), p')
     | Delivered msg \<Rightarrow>
         bindE (cstr (recv (dtext sought) msg)) (\<lambda>s.
         Inr ((Answer (if strcmp s sentinel \<noteq> 0 then FOUND else NOTFOUND),
               sought\<lparr>dtext := recv (dtext sought) msg\<rparr>), p'))))"

text \<open>The state of a client's \<open>lookup\<close>: \<open>first_time\<close>, and the server at the other end.\<close>

definition lookup7 :: "conn_env \<Rightarrow> ('p \<Rightarrow> string \<Rightarrow> (delivery \<times> 'p) res) \<Rightarrow> string \<Rightarrow> (bool \<times> 'p) lookup" where
  "lookup7 env net resource st sought =
     (let fresh = fst st; p = snd st in
      if fresh \<and> \<not> socket_ok env then Inr ((Quit 1, sought), (False, p))
      else if fresh \<and> SUN_PATH \<le> length resource then Inl OutOfBounds
      else if fresh \<and> \<not> connect_ok env then Inr ((Quit 1, sought), (False, p))
      else bindE (exchange net p sought) (\<lambda>(r, p'). Inr (r, (False, p'))))"

definition lookup8 :: "conn_env \<Rightarrow> ('p \<Rightarrow> string \<Rightarrow> (delivery \<times> 'p) res) \<Rightarrow> (bool \<times> 'p) lookup" where
  "lookup8 env net st sought =
     (let fresh = fst st; p = snd st in
      if fresh \<and> \<not> (host_ok env \<and> socket_ok env \<and> connect_ok env) then Inr ((Quit 1, sought), (False, p))
      else bindE (exchange net p sought) (\<lambda>(r, p'). Inr (r, (False, p'))))"

text \<open>
  \<open>lookup9\<close> does not look at the results of its calls.  The length it hands to \<open>recvfrom\<close> is an
  automatic variable that only the first call sets.
\<close>

definition lookup9 :: "conn_env \<Rightarrow> ('p \<Rightarrow> string \<Rightarrow> (delivery \<times> 'p) res) \<Rightarrow> (bool \<times> 'p) lookup" where
  "lookup9 env net st sought =
     (let fresh = fst st; p = snd st in
      if fresh \<and> \<not> (host_ok env \<and> socket_ok env) then Inr ((Quit 1, sought), (False, p))
      else
        bindE (cstr (dword sought)) (\<lambda>w.
        bindE (net p w) (\<lambda>(d, p').
        if \<not> fresh then Inl Uninitialised
        else
          (let reply = (\<lambda>t. bindE (cstr t) (\<lambda>s.
             Inr ((Answer (if strcmp s sentinel \<noteq> 0 then FOUND else NOTFOUND),
                   sought\<lparr>dtext := t\<rparr>), (False, p'))))
           in case d of
                Delivered msg \<Rightarrow> reply (recv (dtext sought) msg)
              | RecvFails \<Rightarrow> reply (dtext sought)
              | SendFails \<Rightarrow> Inr ((Blocked, sought), (False, p'))
              | SendBreaks \<Rightarrow> Inr ((Broken, sought), (False, p'))
              | Nothing \<Rightarrow> Inr ((Blocked, sought), (False, p'))))))"

section \<open>The contract of a server\<close>

definition wire :: "string option \<Rightarrow> string" where
  "wire m = (case m of None \<Rightarrow> sentinel | Some t \<Rightarrow> t)"

text \<open>Definitions that survive the trip: not empty, not the sentinel, and room for a terminator.\<close>

definition sendable :: "string option \<Rightarrow> bool" where
  "sendable m \<longleftrightarrow> (\<forall>t. m = Some t \<longrightarrow> t \<noteq> [] \<and> t \<noteq> sentinel \<and> nul_free t \<and> length t < TEXT)"

lemma recv_zeros: "length msg \<le> n \<Longrightarrow> recv (zeros n) msg = pad n msg"
  by (simp add: recv_def zeros_def pad_def)

lemma wire_ok: "sendable m \<Longrightarrow> nul_free (wire m) \<and> length (wire m) < TEXT \<and>
    (wire m = sentinel \<longleftrightarrow> m = None)"
  by (cases m) (auto simp: sendable_def wire_def sentinel_def TEXT_def)

locale reply_service =
  fixes net :: "'p \<Rightarrow> string \<Rightarrow> (delivery \<times> 'p) res"
    and up :: "'p \<Rightarrow> bool"
    and legal :: "string \<Rightarrow> bool"
    and meaning :: "string \<Rightarrow> string option"
  assumes delivers: "up p \<Longrightarrow> legal w \<Longrightarrow> nul_free w \<Longrightarrow> length w < WORD \<Longrightarrow>
      \<exists>p'. net p w = Inr (Delivered (wire (meaning w)), p') \<and> up p'"
    and meaning_sendable: "up p \<Longrightarrow> sendable (meaning w)"
begin

lemma exchange_reply:
  assumes "up p" and "legal w" and "wf_rec q" and "cstr (dword q) = Inr w" and "dtext q = zeros TEXT"
  shows "\<exists>q' p'. exchange net p q = Inr ((answer_of (meaning w), q'), p') \<and> up p' \<and>
    answered w (meaning w) q'"
proof -
  have w: "nul_free w" "length w < WORD"
    using cstr_Inr_nul_free [OF assms(4)] cstr_Inr_length [OF assms(4)] assms(3) by (auto simp: wf_rec_def)
  obtain p' where p': "net p w = Inr (Delivered (wire (meaning w)), p')" "up p'"
    using delivers [OF assms(1,2) w] by blast
  have m: "nul_free (wire (meaning w))" "length (wire (meaning w)) < TEXT"
      "wire (meaning w) = sentinel \<longleftrightarrow> meaning w = None"
    using wire_ok [OF meaning_sendable [OF assms(1), of w]] by auto
  show ?thesis
    using assms(3,4) p' m cstr_pad [OF m(1,2)]
    by (cases "meaning w") (auto simp: exchange_def assms(5) recv_zeros less_imp_le answer_of_def answered_def
        wf_rec_def wire_def)
qed

end

text \<open>
  The two stream clients: the calls that make the connection matter until it is made, and for the
  Unix socket the name has to fit its address.
\<close>

locale connected = reply_service net up legal meaning
  for net :: "'p \<Rightarrow> string \<Rightarrow> (delivery \<times> 'p) res"
    and up legal meaning +
  fixes env :: conn_env
    and resource :: string
begin

definition ready7 :: "bool \<times> 'p \<Rightarrow> bool" where
  "ready7 st \<longleftrightarrow> up (snd st) \<and>
     (fst st \<longrightarrow> socket_ok env \<and> connect_ok env \<and> length resource < SUN_PATH)"

definition ready8 :: "bool \<times> 'p \<Rightarrow> bool" where
  "ready8 st \<longleftrightarrow> up (snd st) \<and> (fst st \<longrightarrow> host_ok env \<and> socket_ok env \<and> connect_ok env)"

end

sublocale connected \<subseteq> c7: cleared_lookup "lookup7 env net resource" ready7 legal meaning
proof
  fix st :: "bool \<times> 'p" and q w
  assume "ready7 st" "wf_rec q" "cstr (dword q) = Inr w" "legal w" "dtext q = zeros TEXT"
  then show "\<exists>q' st'. lookup7 env net resource st q = Inr ((answer_of (meaning w), q'), st') \<and>
      ready7 st' \<and> answered w (meaning w) q'"
    using exchange_reply [of "snd st" w q] by (auto simp: lookup7_def ready7_def Let_def)
qed

sublocale connected \<subseteq> c8: cleared_lookup "lookup8 env net" ready8 legal meaning
proof
  fix st :: "bool \<times> 'p" and q w
  assume "ready8 st" "wf_rec q" "cstr (dword q) = Inr w" "legal w" "dtext q = zeros TEXT"
  then show "\<exists>q' st'. lookup8 env net st q = Inr ((answer_of (meaning w), q'), st') \<and>
      ready8 st' \<and> answered w (meaning w) q'"
    using exchange_reply [of "snd st" w q] by (auto simp: lookup8_def ready8_def Let_def)
qed

section \<open>The server keeps the contract\<close>

definition net_dict :: "dictrec list \<Rightarrow> bool" where
  "net_dict recs \<longleftrightarrow> sound_dict recs \<and>
     (\<forall>r \<in> set recs. upto_nul (dtext r) \<noteq> [] \<and> upto_nul (dtext r) \<noteq> sentinel)"

definition server_up :: "(string \<Rightarrow> string option) \<Rightarrow> string \<Rightarrow> dictrec list \<Rightarrow> peer \<Rightarrow> bool" where
  "server_up fs resource recs p \<longleftrightarrow>
     net_dict recs \<and>
     (case p of Gone \<Rightarrow> False
      | Alive tryit st \<Rightarrow> wf_rec tryit \<and> dword tryit = zeros WORD \<and> lookup5_ready fs resource recs st)"

definition not_empty :: "string \<Rightarrow> bool" where
  "not_empty w \<longleftrightarrow> w \<noteq> []"

lemma dict_map_text:
  "sound_dict recs \<Longrightarrow> dict_map recs w = Some t \<Longrightarrow> nul_free t \<and> length t < TEXT"
  using length_upto_nul_less
  by (fastforce simp: dict_map_def sound_dict_def sound_rec_def wf_rec_def dest!: map_of_SomeD)

lemma net_dict_sendable:
  assumes "net_dict recs"
  shows "sendable (dict_map recs w)"
proof (cases "dict_map recs w")
  case None
  then show ?thesis by (simp add: sendable_def)
next
  case (Some t)
  then obtain r where "r \<in> set recs" "t = upto_nul (dtext r)"
    by (auto simp: dict_map_def dest!: map_of_SomeD)
  with Some assms dict_map_text [of recs w t] show ?thesis by (auto simp: net_dict_def sendable_def)
qed

lemma serve_reply:
  assumes "sound_dict recs" and "lookup5_ready fs resource recs st" and "wf_rec tryit"
    and "cstr (recv (dword tryit) msg) = Inr w"
  shows "\<exists>t st'. serve fs resource tryit st msg = Inr (Served (Some (wire (dict_map recs w))) t st') \<and>
    wf_rec t \<and> dword t = zeros WORD \<and> lookup5_ready fs resource recs st'"
proof -
  let ?q = "tryit\<lparr>dword := recv (dword tryit) msg\<rparr>"
  have q: "wf_rec ?q" "cstr (dword ?q) = Inr w" using assms(3,4) by (auto simp: wf_rec_def recv_def)
  have ready: "lookup5_ready fs resource recs \<lparr>fresh5 = False, table5 = recs\<rparr>"
    by (simp add: lookup5_ready_def)
  have s: "nul_free sentinel" "length sentinel = 4" by (auto simp: sentinel_def)
  then have X: "strcpy (dtext tryit) sentinel = Inr (sentinel @ NUL # drop 5 (dtext tryit))"
    using assms(3) by (simp add: wf_rec_def TEXT_def strcpy_def)
  show ?thesis
    using lookup5_dict [OF assms(1,2) q] assms(3) s X ready dict_map_text [OF assms(1), of w]
    by (cases "dict_map recs w")
      (auto simp: serve_def answer_of_def wire_def FOUND_def NOTFOUND_def wf_rec_def TEXT_def)
qed

lemma server_delivers:
  assumes "server_up fs resource recs p" and "not_empty w" and "nul_free w" and "length w < WORD"
  shows "\<exists>p'. stream_net fs resource p w = Inr (Delivered (wire (dict_map recs w)), p') \<and>
    server_up fs resource recs p'"
proof -
  obtain tryit st where p: "p = Alive tryit st" "net_dict recs" "wf_rec tryit"
      "dword tryit = zeros WORD" "lookup5_ready fs resource recs st"
    using assms(1) by (auto simp: server_up_def split: peer.splits)
  have sd: "sound_dict recs" using p(2) by (simp add: net_dict_def)
  have c: "cstr (recv (dword tryit) w) = Inr w"
    using assms(3,4) by (simp add: p(4) recv_zeros cstr_pad)
  have "wire (dict_map recs w) \<noteq> []"
    using net_dict_sendable [OF p(2), of w]
    by (auto simp: sendable_def wire_def sentinel_def split: option.split)
  then show ?thesis
    using serve_reply [OF sd p(5,3) c] assms(2) p(1,2)
    by (auto simp: stream_net_def server_up_def not_empty_def)
qed

interpretation tcp: connected "stream_net fs dict" "server_up fs dict recs" not_empty "dict_map recs"
    env resource for fs dict recs env resource
proof
  fix p w
  assume up: "server_up fs dict recs p"
  then show "sendable (dict_map recs w)" by (simp add: server_up_def net_dict_sendable)
  assume "not_empty w" "nul_free w" "length w < WORD"
  with up show "\<exists>p'. stream_net fs dict p w = Inr (Delivered (wire (dict_map recs w)), p') \<and>
      server_up fs dict recs p'"
    by (rule server_delivers)
qed

section \<open>Sessions\<close>

definition all_ok :: conn_env where
  "all_ok = \<lparr>host_ok = True, socket_ok = True, connect_ok = True\<rparr>"

text \<open>
  A server that has just accepted a connection.  Its record is an automatic variable that nobody sets, so that
  the record is whatever the memory held.
\<close>

definition fresh_server :: "dictrec \<Rightarrow> peer" where
  "fresh_server tryit = Alive tryit \<lparr>fresh5 = True, table5 = []\<rparr>"

lemma fresh_server_up:
  "net_dict recs \<Longrightarrow> fs dict = Some (file_bytes recs) \<Longrightarrow> wf_rec tryit \<Longrightarrow> dword tryit = zeros WORD \<Longrightarrow>
   server_up fs dict recs (fresh_server tryit)"
  by (simp add: server_up_def fresh_server_def lookup5_ready_def)

text \<open>
  What the client takes the first answer to be.  The word lands in front of what the server's record held,
  and the reply in front of what the client's held; a string that has no end within its field is an error.
  After the first exchange both records have been cleared.
\<close>

definition first_heard :: "dictrec list \<Rightarrow> dictrec \<Rightarrow> dictrec \<Rightarrow> string \<Rightarrow> string option res" where
  "first_heard recs tryit q w =
     bindE (cstr (recv (dword tryit) w)) (\<lambda>v.
     bindE (cstr (recv (dtext q) (wire (dict_map recs v)))) (\<lambda>t.
     Inr (if t = sentinel then None else Some t)))"

lemma first_heard_clear:
  assumes "net_dict recs" and "dword tryit = zeros WORD" and "dtext q = zeros TEXT"
    and "nul_free w" and "length w < WORD"
  shows "first_heard recs tryit q w = Inr (dict_map recs w)"
  using wire_ok [OF net_dict_sendable [OF assms(1), of w]] assms
  by (cases "dict_map recs w") (auto simp: first_heard_def recv_zeros cstr_pad wire_def)

lemma first_exchange:
  assumes "net_dict recs" and "lookup5_ready fs dict recs st" and "wf_rec tryit" and "wf_rec q"
    and "cstr (dword q) = Inr w" and "w \<noteq> []" and "first_heard recs tryit q w = Inr m"
  shows "\<exists>q' p'. exchange (stream_net fs dict) (Alive tryit st) q = Inr ((answer_of m, q'), p') \<and>
    server_up fs dict recs p' \<and> answered w m q'"
proof -
  obtain v t where v: "cstr (recv (dword tryit) w) = Inr v"
    and t: "cstr (recv (dtext q) (wire (dict_map recs v))) = Inr t" and m: "m = (if t = sentinel then None else Some t)"
    using assms(7) by (auto simp: first_heard_def bindE_Inr_iff)
  have sd: "sound_dict recs" using assms(1) by (simp add: net_dict_def)
  from serve_reply [OF sd assms(2,3) v] obtain r l where
    s: "serve fs dict tryit st w = Inr (Served (Some (wire (dict_map recs v))) r l)" "wf_rec r"
      "dword r = zeros WORD" "lookup5_ready fs dict recs l" by blast
  have "wire (dict_map recs v) \<noteq> []"
    using net_dict_sendable [OF assms(1), of v]
    by (auto simp: sendable_def wire_def sentinel_def split: option.split)
  then have "stream_net fs dict (Alive tryit st) w = Inr (Delivered (wire (dict_map recs v)), Alive r l)"
    using s(1) assms(6) by (simp add: stream_net_def)
  moreover have "server_up fs dict recs (Alive r l)" using s assms(1) by (simp add: server_up_def)
  ultimately show ?thesis
    using assms(4,5) t m by (auto simp: exchange_def answer_of_def answered_def wf_rec_def recv_def)
qed

lemma empty_query_blocks:
  assumes "server_up fs dict recs (snd st)" and "cstr (dword q) = Inr []"
  shows "\<exists>p'. exchange (stream_net fs dict) (snd st) q = Inr ((Blocked, q), p')"
  using assms by (auto simp: exchange_def stream_net_def server_up_def split: peer.splits)

text \<open>What a stream client prints for the words typed, and how it ends: the first empty word is its last.\<close>

definition answers :: "dictrec list \<Rightarrow> string list \<Rightarrow> string" where
  "answers recs ws = concat (map (\<lambda>w. line_of [] w (dict_map recs w)) (takeWhile (\<lambda>w. w \<noteq> []) ws))"

definition session_end :: "string list \<Rightarrow> fate" where
  "session_end ws = (if [] \<in> set ws then Stuck else Exited 0)"

lemma answers_Cons: "w \<noteq> [] \<Longrightarrow> answers recs (w # ws) = line_of [] w (dict_map recs w) @ answers recs ws"
  by (simp add: answers_def)

lemma first_word:
  assumes "typed (\<lambda>_. True) w" and "wf_rec q" and "first_heard recs tryit q w = Inr m"
  shows "wf_rec (q\<lparr>dword := w @ NUL # drop (Suc (length w)) (dword q)\<rparr>) \<and>
    cstr (dword (q\<lparr>dword := w @ NUL # drop (Suc (length w)) (dword q)\<rparr>)) = Inr w \<and>
    first_heard recs tryit (q\<lparr>dword := w @ NUL # drop (Suc (length w)) (dword q)\<rparr>) w = Inr m"
  using typed_word [OF assms(1,2)] assms(3) by (simp add: first_heard_def)

text \<open>
  C7: Over a Unix socket, from the connection to the end of the input, the client prints for every word typed
  after the first one what the server's dictionary says: the definition, or ``Not Found!'' for a word that is
  not in the file; an empty line ends the conversation, both sides waiting for ever.  For the first word it
  prints what is heard through the memory that the two records, which nobody sets, happen to hold.  The words
  have at most 31 characters, the first one is not empty, the strings of the first exchange end within their
  fields, no definition is empty or the sentinel, the name of the socket fits its address, and no call fails.
\<close>

theorem unix_session:
  assumes "net_dict recs" and "fs dict = Some (file_bytes recs)" and "wf_rec tryit"
    and "socket_ok env" and "connect_ok env" and "length sock < SUN_PATH"
    and "wf_rec q" and "w \<noteq> []" and "\<forall>x \<in> set (w # ws). typed (\<lambda>_. True) x"
    and "first_heard recs tryit q w = Inr m"
  shows "main11_loop (lookup7 env (stream_net fs dict) sock) (True, fresh_server tryit) q
      \<lparr>rest = render_lines (w # ws), ateof = False\<rparr> [] =
    Inr (line_of [] w m @ answers recs ws, session_end ws)"
proof -
  let ?lookup = "lookup7 env (stream_net fs dict) sock"
  let ?q = "q\<lparr>dword := w @ NUL # drop (Suc (length w)) (dword q)\<rparr>"
  have tw: "typed (\<lambda>_. True) w" using assms(9) by simp
  have r: "lookup5_ready fs dict recs \<lparr>fresh5 = True, table5 = []\<rparr>" using assms(2) by (simp add: lookup5_ready_def)
  from first_word [OF tw assms(7,10)]
  obtain q' p' where x: "exchange (stream_net fs dict) (fresh_server tryit) ?q = Inr ((answer_of m, q'), p')"
      "server_up fs dict recs p'" "answered w m q'"
    using first_exchange [OF assms(1) r assms(3)] assms(8) unfolding fresh_server_def by metis
  have l: "?lookup (True, fresh_server tryit) ?q = Inr ((answer_of m, q'), (False, p'))"
    using x(1) assms(4-6) by (simp add: lookup7_def)
  have ready: "tcp.ready7 fs dict recs env sock (False, p')" using x(2) by (simp add: tcp.ready7_def)
  have later: "\<forall>x \<in> set ws. typed (\<lambda>_. True) x" using assms(9) by simp
  have stops: "\<exists>st'. ?lookup st q = Inr ((Blocked, q), st')"
    if "tcp.ready7 fs dict recs env sock st" and "cstr (dword q) = Inr []" for st q
    using empty_query_blocks [of fs dict recs st q] that by (auto simp: lookup7_def tcp.ready7_def Let_def)
  show ?thesis
    using main11_round [where lookup = ?lookup and ws = ws and r = "[]" and e = False and out = "[]", OF tw assms(7) l x(3)]
      tcp.c7.main11_stops [OF ready blank_clear later _ stops, of False "line_of [] w m"]
    by (simp add: answers_def session_end_def not_empty_def)
qed

lemma net_example: "net_dict example_dict"
  using sound_example_dict
  by (simp add: net_dict_def example_dict_def key_pad sentinel_def TEXT_def)

theorem unix_session_witness:
  "main11_loop (lookup7 all_ok (stream_net [''fixrec'' \<mapsto> file_bytes example_dict] ''fixrec'') ''sock'')
      (True, fresh_server (ask ''peaceful'')) (ask ''old'')
      \<lparr>rest = render_lines [''peace'', ''peace'', ''zeal'', [], ''work''], ateof = False\<rparr> [] =
    Inr (''peace : Not Found!'' @ NL # ''peace : A period of cheating.zeal : Not Found!'' @ [NL], Stuck)"
proof -
  have words: "\<forall>w \<in> set [''peace'', ''peace'', ''zeal'', [], ''work'']. typed (\<lambda>_. True) w"
    by (simp add: typed_def plain_def WORD_def)
  have none: "dict_map example_dict ''peaceful'' = None"
    by (simp add: dict_map_def example_dict_def key_of_def key_pad WORD_def)
  have "cstr (recv (pad WORD ''peaceful'') ''peace'') = Inr ''peaceful''" by code_simp
  moreover have "cstr (recv (zeros TEXT) (wire None)) = Inr ''XXXX''" by code_simp
  ultimately have heard: "first_heard example_dict (ask ''peaceful'') (ask ''old'') ''peace'' = Inr None"
    by (simp add: first_heard_def ask_def none sentinel_def)
  have shown: "line_of [] ''peace'' None @ answers example_dict [''peace'', ''zeal'', [], ''work''] =
      ''peace : Not Found!'' @ NL # ''peace : A period of cheating.zeal : Not Found!'' @ [NL]"
    by (simp add: answers_def dict_map_example line_of_def)
  have wf: "wf_rec (ask ''peaceful'')" "wf_rec (ask ''old'')"
    using ask_ok [of "''peaceful''"] ask_ok [of "''old''"] by (simp_all add: WORD_def)
  have "main11_loop (lookup7 all_ok (stream_net [''fixrec'' \<mapsto> file_bytes example_dict] ''fixrec'') ''sock'')
      (True, fresh_server (ask ''peaceful'')) (ask ''old'')
      \<lparr>rest = render_lines [''peace'', ''peace'', ''zeal'', [], ''work''], ateof = False\<rparr> [] =
    Inr (line_of [] ''peace'' None @ answers example_dict [''peace'', ''zeal'', [], ''work''],
      session_end [''peace'', ''zeal'', [], ''work''])"
    by (rule unix_session [OF net_example _ wf(1) _ _ _ wf(2) _ words heard])
      (simp_all add: all_ok_def SUN_PATH_def)
  then show ?thesis unfolding shown by (simp add: session_end_def)
qed

text \<open>The local service, as the abstract machine of the networked one.\<close>

lemma lookup5_reply:
  assumes "sound_dict recs \<and> lookup5_ready fs resource recs st" and "wf_rec q"
    and "cstr (dword q) = Inr w" and "True"
  shows "\<exists>q' st'. lookup5 fs resource st q = Inr ((answer_of (dict_map recs w), q'), st') \<and>
    (sound_dict recs \<and> lookup5_ready fs resource recs st') \<and> answered w (dict_map recs w) q'"
proof -
  have "dict_map recs w = Some t \<Longrightarrow> nul_free t \<and> length t < TEXT" for t
    using assms(1) dict_map_text by blast
  then show ?thesis
    using lookup5_dict [of recs fs resource st q w] assms
    by (cases "dict_map recs w") (auto simp: lookup5_ready_def answered_def wf_rec_def)
qed

interpretation lk5: lookup_service "lookup5 fs resource"
    "\<lambda>st. sound_dict recs \<and> lookup5_ready fs resource recs st" "\<lambda>_. True" "dict_map recs"
    for fs resource recs
  by unfold_locales (rule lookup5_reply)

lemma local_main11:
  assumes "sound_dict recs \<and> lookup5_ready fs dict recs st" and "wf_rec q" and "\<forall>w \<in> set ws. typed (\<lambda>_. True) w"
  shows "main11_loop (lookup5 fs dict) st q \<lparr>rest = render_lines ws, ateof = e\<rparr> out =
    Inr (out @ concat (map (\<lambda>w. line_of [] w (dict_map recs w)) ws), Exited 0)"
  by (rule lk5.main11_answers [OF assms])

text \<open>
  C18: The internet client and its server together refine the local lookup: for the words typed after the first
  one, a session of the question loop over \<open>lookup8\<close> prints exactly what a session over \<open>lookup5\<close> on the server's
  file prints for them; and the first word too gets the local answer when what is heard through the memory of
  the two records is what the dictionary says.  No word is empty or longer than 31 characters, no definition is
  empty or the sentinel, the strings of the first exchange end within their fields, and no call fails.
\<close>

theorem inet_refines_local:
  assumes "net_dict recs" and "fs dict = Some (file_bytes recs)" and "wf_rec tryit"
    and "host_ok env" and "socket_ok env" and "connect_ok env" and "wf_rec q" and "wf_rec r"
    and "\<forall>x \<in> set (w # ws). typed not_empty x" and "first_heard recs tryit q w = Inr m"
  shows "\<exists>later.
    main11_loop (lookup8 env (stream_net fs dict)) (True, fresh_server tryit) q
        \<lparr>rest = render_lines (w # ws), ateof = False\<rparr> [] = Inr (line_of [] w m @ later, Exited 0) \<and>
    main11_loop (lookup5 fs dict) \<lparr>fresh5 = True, table5 = []\<rparr> r
        \<lparr>rest = render_lines ws, ateof = False\<rparr> [] = Inr (later, Exited 0) \<and>
    main11_loop (lookup5 fs dict) \<lparr>fresh5 = True, table5 = []\<rparr> r
        \<lparr>rest = render_lines (w # ws), ateof = False\<rparr> [] = Inr (line_of [] w (dict_map recs w) @ later, Exited 0)"
proof -
  let ?lookup = "lookup8 env (stream_net fs dict)"
  let ?q = "q\<lparr>dword := w @ NUL # drop (Suc (length w)) (dword q)\<rparr>"
  let ?later = "concat (map (\<lambda>w. line_of [] w (dict_map recs w)) ws)"
  have tw: "typed (\<lambda>_. True) w" "w \<noteq> []" using assms(9) by (simp_all add: typed_def not_empty_def)
  have r5: "lookup5_ready fs dict recs \<lparr>fresh5 = True, table5 = []\<rparr>" using assms(2) by (simp add: lookup5_ready_def)
  from first_word [OF tw(1) assms(7,10)]
  obtain q' p' where x: "exchange (stream_net fs dict) (fresh_server tryit) ?q = Inr ((answer_of m, q'), p')"
      "server_up fs dict recs p'" "answered w m q'"
    using first_exchange [OF assms(1) r5 assms(3)] tw(2) unfolding fresh_server_def by metis
  have l: "?lookup (True, fresh_server tryit) ?q = Inr ((answer_of m, q'), (False, p'))"
    using x(1) assms(4-6) by (simp add: lookup8_def)
  have ready: "tcp.ready8 fs dict recs env (False, p')" using x(2) by (simp add: tcp.ready8_def)
  have later: "\<forall>x \<in> set ws. typed not_empty x" using assms(9) by simp
  have local_ready: "sound_dict recs \<and> lookup5_ready fs dict recs \<lparr>fresh5 = True, table5 = []\<rparr>"
    using assms(1) r5 by (simp add: net_dict_def)
  have local_words: "\<forall>x \<in> set (w # ws). typed (\<lambda>_. True) x" using assms(9) by (auto simp: typed_def)
  have "main11_loop ?lookup (True, fresh_server tryit) q \<lparr>rest = render_lines (w # ws), ateof = False\<rparr> [] =
      Inr (line_of [] w m @ ?later, Exited 0)"
    using main11_round [where lookup = ?lookup and ws = ws and r = "[]" and e = False and out = "[]", OF tw(1) assms(7) l x(3)]
      tcp.c8.main11_session [OF ready blank_clear later, of False "line_of [] w m"] by simp
  moreover have "main11_loop (lookup5 fs dict) \<lparr>fresh5 = True, table5 = []\<rparr> r
      \<lparr>rest = render_lines xs, ateof = False\<rparr> [] = Inr (concat (map (\<lambda>w. line_of [] w (dict_map recs w)) xs), Exited 0)"
    if "set xs \<subseteq> set (w # ws)" for xs
    using local_words that local_main11 [OF local_ready assms(8), of xs False "[]"] by auto
  ultimately show ?thesis by (intro exI [of _ ?later]) auto
qed

theorem inet_refines_local_witness:
  "\<exists>later.
    main11_loop (lookup8 all_ok (stream_net [''fixrec'' \<mapsto> file_bytes example_dict] ''fixrec''))
        (True, fresh_server blank) blank \<lparr>rest = render_lines [''work'', ''zeal''], ateof = False\<rparr> [] =
      Inr (line_of [] ''work'' (dict_map example_dict ''work'') @ later, Exited 0) \<and>
    main11_loop (lookup5 [''fixrec'' \<mapsto> file_bytes example_dict] ''fixrec'') \<lparr>fresh5 = True, table5 = []\<rparr> (ask ''x'')
        \<lparr>rest = render_lines [''zeal''], ateof = False\<rparr> [] = Inr (later, Exited 0) \<and>
    main11_loop (lookup5 [''fixrec'' \<mapsto> file_bytes example_dict] ''fixrec'') \<lparr>fresh5 = True, table5 = []\<rparr> (ask ''x'')
        \<lparr>rest = render_lines [''work'', ''zeal''], ateof = False\<rparr> [] =
      Inr (line_of [] ''work'' (dict_map example_dict ''work'') @ later, Exited 0)"
  using ask_ok [of "''x''"]
  by (intro inet_refines_local [OF net_example] first_heard_clear [OF net_example])
    (simp_all add: all_ok_def wf_rec_def blank_def typed_def plain_def not_empty_def WORD_def)

text \<open>
  The child of a stream server answers every message, the empty one of a closed connection included, with
  the definition or the sentinel, and goes on: an error of \<open>recv\<close> ends it with status 0, and a client that
  has hung up kills it.  What a message asks for is the string at the start of the field it is received into:
  the first message lies in front of what the memory held, the others in a cleared field.  A message has at
  most the 32 bytes of the field, and the string has to end within it.
\<close>

datatype farewell = Stays | Breaks | Hangs_up

fun farewell_events :: "farewell \<Rightarrow> (char list \<times> bool) option list" where
  "farewell_events Stays = []"
| "farewell_events Breaks = [None]"
| "farewell_events Hangs_up = [Some ([], False)]"

fun farewell_end :: "farewell \<Rightarrow> dialog_end option" where
  "farewell_end Stays = None"
| "farewell_end Breaks = Some (Status 0)"
| "farewell_end Hangs_up = Some Sigpipe"

fun asked :: "char list \<Rightarrow> char list list \<Rightarrow> string list" where
  "asked W [] = []"
| "asked W (m # ms) = upto_nul (recv W m) # asked (zeros WORD) ms"

fun answerable :: "char list \<Rightarrow> char list list \<Rightarrow> bool" where
  "answerable W [] = True"
| "answerable W (m # ms) \<longleftrightarrow> length m \<le> WORD \<and> NUL \<in> set (recv W m) \<and> answerable (zeros WORD) ms"

definition replies :: "dictrec list \<Rightarrow> char list \<Rightarrow> char list list \<Rightarrow> string option list" where
  "replies recs W ms = map (\<lambda>w. Some (wire (dict_map recs w))) (asked W ms)"

text \<open>With the field clear, a word of at most 31 characters asks for itself.\<close>

lemma asked_words:
  "\<forall>m \<in> set ms. nul_free m \<and> length m < WORD \<Longrightarrow> asked (zeros WORD) ms = ms \<and> answerable (zeros WORD) ms"
proof (induction ms)
  case Nil
  then show ?case by simp
next
  case (Cons m ms)
  then have "cstr (recv (zeros WORD) m) = Inr m" by (simp add: recv_zeros cstr_pad)
  then have "upto_nul (recv (zeros WORD) m) = m \<and> NUL \<in> set (recv (zeros WORD) m)"
    by (simp add: cstr_def split: if_splits)
  with Cons show ?case by simp
qed

fun last_message :: "farewell \<Rightarrow> char list list" where
  "last_message Hangs_up = [[]]"
| "last_message f = []"

lemma dialog_replies:
  assumes "sound_dict recs" and "lookup5_ready fs dict recs st" and "wf_rec tryit"
    and "answerable (dword tryit) (ms @ last_message f)"
  shows "dialog fs dict tryit st (map (\<lambda>m. Some (m, True)) ms @ farewell_events f) =
    Inr (replies recs (dword tryit) ms, farewell_end f)"
  using assms(2-4)
proof (induction ms arbitrary: tryit st)
  case Nil
  have "cstr (recv (dword tryit) []) = Inr (upto_nul (recv (dword tryit) []))" if "f = Hangs_up"
    using Nil.prems(3) that by (simp add: cstr_def)
  from serve_reply [OF assms(1) Nil.prems(1,2) this] show ?case by (cases f) (auto simp: replies_def)
next
  case (Cons m ms)
  have "cstr (recv (dword tryit) m) = Inr (upto_nul (recv (dword tryit) m))"
    using Cons.prems(3) by (simp add: cstr_def)
  from serve_reply [OF assms(1) Cons.prems(1,2) this] obtain t st' where
    s: "serve fs dict tryit st m = Inr (Served (Some (wire (dict_map recs (upto_nul (recv (dword tryit) m))))) t st')"
      "wf_rec t" "dword t = zeros WORD" "lookup5_ready fs dict recs st'" by blast
  then show ?case using Cons.IH [OF s(4,2)] Cons.prems(3) by (simp add: replies_def)
qed

text \<open>
  The record of a server is not cleared before the first request: a first request shorter than
  the word that the memory held is looked up with the rest of that word behind it.
\<close>

theorem first_request_stale:
  assumes "sound_dict recs" and "lookup5_ready fs dict recs st" and "wf_rec tryit"
    and "cstr (dword tryit) = Inr old" and "nul_free m" and "length m \<le> length old"
  shows "\<exists>t st'. serve fs dict tryit st m =
    Inr (Served (Some (wire (dict_map recs (m @ drop (length m) old)))) t st')"
proof -
  obtain r where r: "dword tryit = old @ NUL # r" using cstr_Inr_split [OF assms(4)] by blast
  have nf: "nul_free (m @ drop (length m) old)"
    using assms(5) cstr_Inr_nul_free [OF assms(4)] by (auto simp: nul_free_def dest: in_set_dropD)
  have "recv (dword tryit) m = (m @ drop (length m) old) @ NUL # r"
    using assms(6) by (simp add: recv_def r)
  then have "cstr (recv (dword tryit) m) = Inr (m @ drop (length m) old)"
    using cstr_append_nul [OF nf] by simp
  from serve_reply [OF assms(1-3) this] show ?thesis by blast
qed

theorem first_request_stale_witness:
  "\<exists>t st'. serve [''fixrec'' \<mapsto> file_bytes example_dict] ''fixrec'' (ask ''peaceful'')
      \<lparr>fresh5 = True, table5 = []\<rparr> ''peace'' = Inr (Served (Some sentinel) t st')"
proof -
  have "dict_map example_dict ''peaceful'' = None"
    by (simp add: dict_map_def example_dict_def key_of_def key_pad WORD_def)
  then show ?thesis
    using first_request_stale [OF sound_example_dict, of "[''fixrec'' \<mapsto> file_bytes example_dict]"
        "''fixrec''" "\<lparr>fresh5 = True, table5 = []\<rparr>" "ask ''peaceful''" "''peaceful''" "''peace''"]
      ask_ok [of "''peaceful''"]
    by (simp add: lookup5_ready_def WORD_def wire_def)
qed

text \<open>
  When the server has no dictionary it ends at the first request, and the stream client takes the
  closed connection for an answer: the word is FOUND, with the definition that its memory happens to hold.
\<close>

theorem missing_dictionary_found:
  assumes "fs dict = None" and "socket_ok env" and "connect_ok env" and "length sock < SUN_PATH"
    and "cstr (dword q) = Inr w" and "w \<noteq> []" and "cstr (dtext q) = Inr t" and "t \<noteq> sentinel"
  shows "lookup7 env (stream_net fs dict) sock (True, fresh_server tryit) q =
    Inr ((Answer FOUND, q), (False, Gone))"
proof -
  have "serve fs dict tryit \<lparr>fresh5 = True, table5 = []\<rparr> w = Inr (Ends 1)"
    using assms(1) by (simp add: serve_def lookup5_def)
  moreover have "recv (dtext q) [] = dtext q" by (simp add: recv_def)
  ultimately show ?thesis
    using assms by (cases q) (auto simp: lookup7_def exchange_def stream_net_def fresh_server_def Let_def)
qed

theorem missing_dictionary_found_witness:
  "lookup7 all_ok (stream_net Map.empty ''fixrec'') ''sock'' (True, fresh_server blank) (ask ''peace'') =
    Inr ((Answer FOUND, ask ''peace''), (False, Gone))"
  using ask_ok [of "''peace''"]
  by (intro missing_dictionary_found [where w = "''peace''" and t = "[]"])
    (simp_all add: all_ok_def SUN_PATH_def WORD_def cstr_zeros TEXT_def sentinel_def)

text \<open>
  Over datagrams the first query, the empty one included, is answered as the dictionary says when the
  records of both sides are clear, and the second one hands \<open>recvfrom\<close> a length that was never set.
\<close>

theorem udp_first_query_only:
  assumes "net_dict recs" and "server_up fs dict recs p" and "host_ok env" and "socket_ok env"
    and "wf_rec q" and "cstr (dword q) = Inr w" and "dtext q = zeros TEXT"
    and "cstr (dword r) = Inr v" and "length v < WORD"
  shows "\<exists>q' st'. lookup9 env (datagram_net fs dict) (True, p) q = Inr ((answer_of (dict_map recs w), q'), st') \<and>
    answered w (dict_map recs w) q' \<and>
    lookup9 env (datagram_net fs dict) st' r = Inl Uninitialised"
proof -
  obtain tryit st where p: "p = Alive tryit st" "wf_rec tryit" "dword tryit = zeros WORD"
      "lookup5_ready fs dict recs st"
    using assms(2) by (auto simp: server_up_def split: peer.splits)
  have sd: "sound_dict recs" using assms(1) by (simp add: net_dict_def)
  have w: "nul_free w" "length w < WORD" "nul_free v"
    using cstr_Inr_nul_free [OF assms(6)] cstr_Inr_length [OF assms(6)] assms(5)
      cstr_Inr_nul_free [OF assms(8)] by (auto simp: wf_rec_def)
  have c: "cstr (recv (zeros WORD) w) = Inr w" "cstr (recv (zeros WORD) v) = Inr v"
    using w assms(9) by (simp_all add: recv_zeros cstr_pad)
  obtain t l where s: "serve fs dict tryit st w = Inr (Served (Some (wire (dict_map recs w))) t l)"
      "wf_rec t" "dword t = zeros WORD" "lookup5_ready fs dict recs l"
    using serve_reply [OF sd p(4,2)] c(1) p(3) by metis
  obtain t2 l2 where s2: "serve fs dict t l v = Inr (Served (Some (wire (dict_map recs v))) t2 l2)"
    using serve_reply [OF sd s(4,2)] c(2) s(3) by metis
  have m: "nul_free (wire (dict_map recs w))" "length (wire (dict_map recs w)) < TEXT"
      "wire (dict_map recs w) = sentinel \<longleftrightarrow> dict_map recs w = None"
    using wire_ok [OF net_dict_sendable [OF assms(1), of w]] by auto
  show ?thesis
    using assms(3-8) p(1) s s2 m cstr_pad [OF m(1,2)]
    by (cases "dict_map recs w")
      (auto simp: lookup9_def datagram_net_def Let_def recv_zeros less_imp_le answer_of_def
        answered_def wf_rec_def wire_def)
qed

theorem udp_first_query_only_witness:
  "\<exists>q' st'. lookup9 all_ok (datagram_net [''fixrec'' \<mapsto> file_bytes example_dict] ''fixrec'')
      (True, fresh_server blank) (ask ''peace'') =
      Inr ((answer_of (dict_map example_dict ''peace''), q'), st') \<and>
    answered ''peace'' (dict_map example_dict ''peace'') q' \<and>
    lookup9 all_ok (datagram_net [''fixrec'' \<mapsto> file_bytes example_dict] ''fixrec'') st' (ask ''work'') =
      Inl Uninitialised"
  using ask_ok [of "''peace''"] ask_ok [of "''work''"]
  by (intro udp_first_query_only [OF net_example, where v = "''work''"] fresh_server_up [OF net_example])
    (simp_all add: all_ok_def WORD_def wf_rec_def blank_def)

end
