(* ===== verification/DictServer.thy ===== *)
theory DictServer
  imports DictNet
begin

text \<open>
  The complete programs of \<open>src/SP_HW11\<close>: the servers \<open>usock_server.c\<close>, \<open>isock_server.c\<close> and
  \<open>udp_server.c\<close> from their arguments on (set-up of the socket, accept loop, one forked child for each
  connection), and the clients, which are the same \<open>main.c\<close> three times, around their \<open>lookup\<close>.

  A server run is a list of events; a connection comes with the messages its client sends.  A child
  works on its own copy of the parent's memory, so the children are listed with their replies in the
  order of the connections and not interleaved.  \<open>e0\<close> is the value of \<open>errno\<close> at the start of a program.
\<close>

section \<open>Set-up\<close>

text \<open>Which of the calls that set up a server succeed.\<close>

record su_calls =
  su_socket :: bool
  su_bind :: bool
  su_listen :: bool

text \<open>How a process ends on its own: the text on the standard error and the status.\<close>

type_synonym stop = "string \<times> int"

definition DIE :: "string \<Rightarrow> stop" where
  "DIE x = (x, 1)"

text \<open>
  The name a Unix socket is bound to: \<open>strncpy\<close> of at most 107 characters into the automatic address,
  whose last byte nobody sets.
\<close>

definition bound_name :: "string \<Rightarrow> string res" where
  "bound_name path = (if length path < SUN_PATH - 1 then Inr path else Inl Uninitialised)"

section \<open>Stream servers\<close>

datatype accept_event = Accept_fails | Connection "(char list \<times> bool) option list" bool

type_synonym child_run = "string option list \<times> dialog_end option"

text \<open>
  The loop over the connections: the children, and why the parent ends, if it does.
\<close>

fun accept_loop :: "(string \<Rightarrow> string option) \<Rightarrow> string \<Rightarrow> dictrec \<Rightarrow> lookup5_state \<Rightarrow> accept_event list \<Rightarrow>
    (child_run list \<times> stop option) res" where
  "accept_loop fs dict tryit st [] = Inr ([], None)"
| "accept_loop fs dict tryit st (Accept_fails # es) = Inr ([], Some (DIE ''accept error''))"
| "accept_loop fs dict tryit st (Connection ms forked # es) =
     (if \<not> forked then Inr ([], Some (DIE ''fork''))
      else
        bindE (dialog fs dict tryit st ms) (\<lambda>c.
        bindE (accept_loop fs dict tryit st es) (\<lambda>(cs, e). Inr (c # cs, e))))"

definition fresh_lookup :: lookup5_state where
  "fresh_lookup = \<lparr>fresh5 = True, table5 = []\<rparr>"

definition usage :: "string \<Rightarrow> string list \<Rightarrow> string" where
  "usage what argv = ''Usage : '' @ hd argv @ what @ [NL]"

definition usock_server :: "int \<Rightarrow> su_calls \<Rightarrow> (string \<Rightarrow> string option) \<Rightarrow> dictrec \<Rightarrow> string list \<Rightarrow>
    accept_event list \<Rightarrow> (child_run list \<times> stop option) res" where
  "usock_server e0 calls fs tryit argv es =
     (if length argv \<noteq> 3 then Inr ([], Some (usage '' <dictionary source><Socket name>'' argv, e0))
      else if \<not> su_socket calls then Inr ([], Some (DIE ''socket error''))
      else
        bindE (bound_name (argv ! 2)) (\<lambda>name.
        if \<not> su_bind calls then Inr ([], Some (DIE ''bind error''))
        else if \<not> su_listen calls then Inr ([], Some (DIE ''listen error''))
        else accept_loop fs (argv ! 1) tryit fresh_lookup es))"

definition isock_server :: "su_calls \<Rightarrow> (string \<Rightarrow> string option) \<Rightarrow> dictrec \<Rightarrow> string list \<Rightarrow>
    accept_event list \<Rightarrow> (child_run list \<times> stop option) res" where
  "isock_server calls fs tryit argv es =
     (if length argv \<noteq> 2 then Inr ([], Some (usage '' <datafile>'' argv, 1))
      else if \<not> su_socket calls then Inr ([], Some (DIE ''socket error''))
      else if \<not> su_bind calls then Inr ([], Some (DIE ''bind error''))
      else if \<not> su_listen calls then Inr ([], Some (DIE ''listen error''))
      else accept_loop fs (argv ! 1) tryit fresh_lookup es)"

section \<open>The datagram server\<close>

definition udp_server :: "int \<Rightarrow> su_calls \<Rightarrow> (string \<Rightarrow> string option) \<Rightarrow> dictrec \<Rightarrow> string list \<Rightarrow>
    char list option list \<Rightarrow> (string option list \<times> stop option) res" where
  "udp_server e0 calls fs dr argv ms =
     (if length argv \<noteq> 2 then Inr ([], Some (usage '' <datafile>'' argv, e0))
      else if \<not> su_socket calls then Inr ([], Some (DIE ''socket error''))
      else if \<not> su_bind calls then Inr ([], Some (DIE ''bind error''))
      else
        bindE (udp_loop fs (argv ! 1) dr fresh_lookup ms) (\<lambda>(rs, e).
        Inr (rs, map_option (\<lambda>n. (argv ! 1, n)) e)))"

section \<open>The client programs\<close>

text \<open>\<open>main\<close>, with \<open>lookup\<close> still to be given its resource.\<close>

definition main11 :: "int \<Rightarrow> (string \<Rightarrow> 's lookup) \<Rightarrow> 's \<Rightarrow> dictrec \<Rightarrow> string list \<Rightarrow> stream \<Rightarrow> (string \<times> fate) res" where
  "main11 e0 lookup st tryit argv f =
     (if length argv \<noteq> 2 then Inr ([], Exited e0)
      else main11_loop (lookup (argv ! 1)) st tryit f [])"

definition usock_client :: "int \<Rightarrow> conn_env \<Rightarrow> ('p \<Rightarrow> string \<Rightarrow> (delivery \<times> 'p) res) \<Rightarrow> 'p \<Rightarrow> dictrec \<Rightarrow>
    string list \<Rightarrow> stream \<Rightarrow> (string \<times> fate) res" where
  "usock_client e0 env net p = main11 e0 (lookup7 env net) (True, p)"

definition isock_client :: "int \<Rightarrow> conn_env \<Rightarrow> ('p \<Rightarrow> string \<Rightarrow> (delivery \<times> 'p) res) \<Rightarrow> 'p \<Rightarrow> dictrec \<Rightarrow>
    string list \<Rightarrow> stream \<Rightarrow> (string \<times> fate) res" where
  "isock_client e0 env net p = main11 e0 (\<lambda>_. lookup8 env net) (True, p)"

definition udp_client :: "int \<Rightarrow> conn_env \<Rightarrow> ('p \<Rightarrow> string \<Rightarrow> (delivery \<times> 'p) res) \<Rightarrow> 'p \<Rightarrow> dictrec \<Rightarrow>
    string list \<Rightarrow> stream \<Rightarrow> (string \<times> fate) res" where
  "udp_client e0 env net p = main11 e0 (\<lambda>_. lookup9 env net) (True, p)"

section \<open>Lemmas\<close>

lemma fresh_lookup_ready: "fs dict = Some (file_bytes recs) \<Longrightarrow> lookup5_ready fs dict recs fresh_lookup"
  by (simp add: lookup5_ready_def fresh_lookup_def)

definition connection :: "char list list \<times> farewell \<Rightarrow> accept_event" where
  "connection c = (case c of (ms, f) \<Rightarrow> Connection (map (\<lambda>m. Some (m, True)) ms @ farewell_events f) True)"

lemma accept_loop_serves:
  assumes "sound_dict recs" and "lookup5_ready fs dict recs st" and "wf_rec tryit"
    and "\<forall>(ms, f) \<in> set convs. answerable (dword tryit) (ms @ last_message f)"
    and "accept_loop fs dict tryit st es = Inr (cs, e)"
  shows "accept_loop fs dict tryit st (map connection convs @ es) =
    Inr (map (\<lambda>(ms, f). (replies recs (dword tryit) ms, farewell_end f)) convs @ cs, e)"
  using assms(4)
proof (induction convs)
  case Nil
  then show ?case using assms(5) by simp
next
  case (Cons c convs)
  obtain ms f where c: "c = (ms, f)" by (cases c)
  have "dialog fs dict tryit st (map (\<lambda>m. Some (m, True)) ms @ farewell_events f) =
      Inr (replies recs (dword tryit) ms, farewell_end f)"
    using Cons.prems c by (intro dialog_replies [OF assms(1-3)]) simp
  then show ?case using Cons by (simp add: c connection_def)
qed

lemma udp_loop_serves:
  assumes "sound_dict recs" and "lookup5_ready fs dict recs st" and "wf_rec tryit"
    and "answerable (dword tryit) (List.map_filter (\<lambda>m. m) ms)"
  shows "udp_loop fs dict tryit st ms =
    Inr (replies recs (dword tryit) (List.map_filter (\<lambda>m. m) ms), None)"
  using assms(2-4)
proof (induction ms arbitrary: tryit st)
  case Nil
  then show ?case by (simp add: replies_def)
next
  case (Cons x ms)
  show ?case
  proof (cases x)
    case None
    then show ?thesis using Cons by simp
  next
    case (Some m)
    then have "cstr (recv (dword tryit) m) = Inr (upto_nul (recv (dword tryit) m))"
      using Cons.prems(3) by (simp add: cstr_def)
    from serve_reply [OF assms(1) Cons.prems(1,2) this] obtain t st' where
      s: "serve fs dict tryit st m = Inr (Served (Some (wire (dict_map recs (upto_nul (recv (dword tryit) m))))) t st')"
        "wf_rec t" "dword t = zeros WORD" "lookup5_ready fs dict recs st'" by blast
    then show ?thesis using Cons.IH [OF s(4,2)] Cons.prems(3) Some by (simp add: replies_def)
  qed
qed

section \<open>Properties\<close>

definition su_ok :: su_calls where
  "su_ok = \<lparr>su_socket = True, su_bind = True, su_listen = True\<rparr>"

text \<open>
  C19: The internet server serves every connection in a child of its own, whatever the other connections
  sent: each message gets the definition of the word it asks for or the sentinel; a child ends with its
  connection, by an error of recv or by the signal of a client that has hung up; and an error of accept ends
  the parent, with status 1, but none of the children.  The first message of each connection is received into a
  record that the server never set, and asks for the string it makes together with what the memory held; the
  later ones ask for themselves.  Every message comes whole, has at most the 32 bytes of the field, and makes
  a string that ends within it; the calls that set the server up, and fork, succeed.
\<close>

theorem isock_server_serves:
  assumes "sound_dict recs" and "fs dict = Some (file_bytes recs)" and "wf_rec tryit"
    and "su_socket calls" and "su_bind calls" and "su_listen calls"
    and "\<forall>(ms, f) \<in> set convs. answerable (dword tryit) (ms @ last_message f)"
  shows "isock_server calls fs tryit [prog, dict]
      (map connection convs @ (if broken then Accept_fails # later else [])) =
    Inr (map (\<lambda>(ms, f). (replies recs (dword tryit) ms, farewell_end f)) convs,
      if broken then Some (''accept error'', 1) else None)"
  using accept_loop_serves [OF assms(1) fresh_lookup_ready [of fs dict, OF assms(2)] assms(3,7),
      of "if broken then Accept_fails # later else []"] assms(4-6)
  by (cases broken) (simp_all add: isock_server_def DIE_def)

theorem isock_server_serves_witness:
  "isock_server su_ok [''fixrec'' \<mapsto> file_bytes example_dict] (ask ''peaceful'') [''isock_server'', ''fixrec'']
      (map connection [([''peace'', ''zeal''], Hangs_up), ([''work''], Breaks)] @
        (if True then Accept_fails # [Connection [] True] else [])) =
    Inr (map (\<lambda>(ms, f). (replies example_dict (dword (ask ''peaceful'')) ms, farewell_end f))
        [([''peace'', ''zeal''], Hangs_up), ([''work''], Breaks)],
      if True then Some (''accept error'', 1) else None)"
proof -
  have "wf_rec (ask ''peaceful'')" using ask_ok [of "''peaceful''"] by (simp add: WORD_def)
  moreover have "answerable (dword (ask ''peaceful'')) ([''peace'', ''zeal''] @ last_message Hangs_up)"
    "answerable (dword (ask ''peaceful'')) ([''work''] @ last_message Breaks)" by code_simp+
  ultimately show ?thesis
    by (intro isock_server_serves [OF sound_example_dict]) (simp_all add: su_ok_def)
qed

text \<open>
  The server on a Unix socket does what the internet server does, once the name fits its address;
  with a name of 107 characters or more it binds to a name whose last byte was never set.
\<close>

theorem usock_server_equiv:
  assumes "su_socket calls" and "hd argv = prog" and "length argv = 3"
  shows "usock_server e0 calls fs tryit argv es =
    (if length (argv ! 2) < 107 then isock_server calls fs tryit [prog, argv ! 1] es else Inl Uninitialised)"
  using assms by (simp add: usock_server_def isock_server_def bound_name_def SUN_PATH_def)

theorem usock_server_equiv_witness:
  "usock_server 0 su_ok [''fixrec'' \<mapsto> file_bytes example_dict] blank [''usock_server'', ''fixrec'', ''/tmp/dict'']
      [Connection [None] True] =
    isock_server su_ok [''fixrec'' \<mapsto> file_bytes example_dict] blank [''usock_server'', ''fixrec'']
      [Connection [None] True]"
  using usock_server_equiv [of su_ok "[''usock_server'', ''fixrec'', ''/tmp/dict'']" "''usock_server''" 0]
  by (simp add: su_ok_def)

text \<open>
  The datagram server answers every message it receives, in order, and goes on over errors of recvfrom; the
  first message lies in front of what the memory of its record held.
\<close>

theorem udp_server_serves:
  assumes "sound_dict recs" and "fs dict = Some (file_bytes recs)" and "wf_rec dr"
    and "su_socket calls" and "su_bind calls" and "answerable (dword dr) (List.map_filter (\<lambda>m. m) ms)"
  shows "udp_server e0 calls fs dr [prog, dict] ms =
    Inr (replies recs (dword dr) (List.map_filter (\<lambda>m. m) ms), None)"
  using udp_loop_serves [OF assms(1) fresh_lookup_ready [of fs dict, OF assms(2)] assms(3,6)] assms(4,5)
  by (simp add: udp_server_def)

theorem udp_server_serves_witness:
  "udp_server 0 su_ok [''fixrec'' \<mapsto> file_bytes example_dict] blank [''udp_server'', ''fixrec'']
      [Some ''peace'', None, Some ''zeal''] =
    Inr (replies example_dict (dword blank) (List.map_filter (\<lambda>m. m) [Some ''peace'', None, Some ''zeal'']), None)"
proof -
  have "answerable (dword blank) (List.map_filter (\<lambda>m. m) [Some ''peace'', None, Some ''zeal''])" by code_simp
  then show ?thesis
    by (intro udp_server_serves [OF sound_example_dict]) (simp_all add: su_ok_def wf_rec_def blank_def)
qed

end
