(* ===== verification/GetNum.thy ===== *)
theory GetNum
  imports CLib
begin

unbundle bit_operations_syntax

text \<open>
  Numeric command-line arguments: \<open>get_num.c\<close>, five identical copies under \<open>src\<close>, used by the
  sequence-number clients and others.  A failed check prints a message and ends the process: it is
  the left value of the result, the text written to the standard error.
\<close>

section \<open>get_num.h, get_num.c\<close>

definition GN_NONNEG :: "32 word" where "GN_NONNEG = 1"
definition GN_GT_0 :: "32 word" where "GN_GT_0 = 2"
definition GN_ANY_BASE :: "32 word" where "GN_ANY_BASE = 64"
definition GN_BASE_8 :: "32 word" where "GN_BASE_8 = 128"
definition GN_BASE_16 :: "32 word" where "GN_BASE_16 = 256"

definition flag :: "32 word \<Rightarrow> 32 word \<Rightarrow> bool" where
  "flag flags f \<longleftrightarrow> flags AND f \<noteq> 0"

definition gnFail :: "string \<Rightarrow> string \<Rightarrow> string option \<Rightarrow> string option \<Rightarrow> string" where
  "gnFail fname msg arg argname =
     fname @ '' error'' @
     (case argname of None \<Rightarrow> [] | Some n \<Rightarrow> '' (in '' @ n @ '')'') @
     '': '' @ msg @ [NL] @
     (case arg of
        None \<Rightarrow> []
      | Some a \<Rightarrow> if a = [] then [] else ''        offending text: '' @ a @ [NL])"

definition num_base :: "32 word \<Rightarrow> nat" where
  "num_base flags =
     (if flag flags GN_ANY_BASE then 0 else if flag flags GN_BASE_8 then 8
      else if flag flags GN_BASE_16 then 16 else 10)"

definition getNum :: "string \<Rightarrow> string option \<Rightarrow> 32 word \<Rightarrow> string option \<Rightarrow> string + int" where
  "getNum fname arg flags argname =
     (case arg of
        None \<Rightarrow> Inl (gnFail fname ''null or empty string'' arg argname)
      | Some a \<Rightarrow>
          if a = [] then Inl (gnFail fname ''null or empty string'' arg argname)
          else (case strtol a (num_base flags) of (n, endptr, erange) \<Rightarrow>
            if erange then Inl (gnFail fname ''strtol() failed'' arg argname)
            else if endptr \<noteq> [] then Inl (gnFail fname ''nonnumeric characters'' arg argname)
            else if flag flags GN_NONNEG \<and> n < 0 then
              Inl (gnFail fname ''negative value not allowed'' arg argname)
            else if flag flags GN_GT_0 \<and> n \<le> 0 then
              Inl (gnFail fname ''value must be > 0'' arg argname)
            else Inr n))"

definition getLong :: "string option \<Rightarrow> 32 word \<Rightarrow> string option \<Rightarrow> string + int" where
  "getLong arg flags argname = getNum ''getLong'' arg flags argname"

definition getInt :: "string option \<Rightarrow> 32 word \<Rightarrow> string option \<Rightarrow> string + int" where
  "getInt arg flags argname =
     (case getNum ''getInt'' arg flags argname of
        Inl e \<Rightarrow> Inl e
      | Inr n \<Rightarrow>
          if INT_MAX < n \<or> n < INT_MIN then Inl (gnFail ''getInt'' ''integer out of range'' arg argname)
          else Inr (to_int32 n))"

section \<open>Properties\<close>

text \<open>\<open>strtol\<close> on any printed integer: the value clamped to a C long, and ERANGE if it was clamped.\<close>

lemma strtol_dec_int:
  "strtol (dec_int i) 10 =
     (max LONG_MIN (min LONG_MAX i), [], i < LONG_MIN \<or> LONG_MAX < i)"
proof -
  let ?n = "nat (if i < 0 then - i else i)"
  have d: "decimal (dec_nat ?n)" by (rule decimal_dec_nat)
  have t: "takeWhile (\<lambda>c. dval c < 10) (dec_nat ?n) = dec_nat ?n"
    and r: "dropWhile (\<lambda>c. dval c < 10) (dec_nat ?n) = []"
    using decimal_takeWhile [OF d, of "[]"] by auto
  have h: "\<not> isspace (CHR ''-'')" by (simp add: isspace_def)
  have s: "strtol_sign (dropWhile isspace (dec_int i)) = (i < 0, dec_nat ?n)"
    using decimal_head [OF decimal_dec_nat, of "nat i" "[]"]
    by (cases "i < 0") (simp_all add: dec_int_def h strtol_sign_def)
  show ?thesis
    unfolding strtol_def s Let_def prod.case strtol_base_10 t r num_of_dec_nat
    by (auto simp: LONG_MIN_def LONG_MAX_def)
qed

lemma getNum_name: "getNum f arg flags argname = Inr n \<longleftrightarrow> getNum g arg flags argname = Inr n"
  by (auto simp: getNum_def split: option.splits prod.splits)

lemma getNum_flags:
  "getNum f arg flags argname = Inr n \<Longrightarrow>
   (flag flags GN_NONNEG \<longrightarrow> 0 \<le> n) \<and> (flag flags GN_GT_0 \<longrightarrow> 0 < n)"
  by (auto simp: getNum_def split: option.splits prod.splits if_splits)

lemma getInt_Inr:
  "getInt arg flags argname = Inr n \<longleftrightarrow>
   getNum ''getInt'' arg flags argname = Inr n \<and> INT_MIN \<le> n \<and> n \<le> INT_MAX"
  by (auto simp: getInt_def to_int32_ident split: sum.splits)

lemma getNum_dec_int:
  assumes "num_base flags = 10"
  shows "getNum f (Some (dec_int i)) flags argname =
    (let fail = (\<lambda>msg. Inl (gnFail f msg (Some (dec_int i)) argname)) in
     if i < LONG_MIN \<or> LONG_MAX < i then fail ''strtol() failed''
     else if flag flags GN_NONNEG \<and> i < 0 then fail ''negative value not allowed''
     else if flag flags GN_GT_0 \<and> i \<le> 0 then fail ''value must be > 0''
     else Inr i)"
proof -
  have "dec_int i \<noteq> []" by (simp add: dec_int_def)
  then show ?thesis using assms by (auto simp: getNum_def strtol_dec_int Let_def)
qed

text \<open>
  \<open>getInt\<close> accepts exactly the arguments that \<open>getLong\<close> accepts with a value in the range of
  int, gives the same value, and the value satisfies the checks its flags ask for.
\<close>

theorem getInt_accepts:
  "(getInt arg flags argname = Inr n \<longleftrightarrow>
      getLong arg flags argname = Inr n \<and> INT_MIN \<le> n \<and> n \<le> INT_MAX) \<and>
   (getInt arg flags argname = Inr n \<longrightarrow>
      (flag flags GN_NONNEG \<longrightarrow> 0 \<le> n) \<and> (flag flags GN_GT_0 \<longrightarrow> 0 < n))"
  using getNum_name [of "''getInt''" arg flags argname n "''getLong''"]
    getNum_flags [of "''getInt''" arg flags argname n]
  by (simp add: getInt_Inr getLong_def)

theorem getInt_accepts_witness:
  "getInt (Some ''0x1F'') (GN_ANY_BASE OR GN_GT_0) None = Inr 31 \<and> 0 < (31 :: int)"
proof -
  have "getLong (Some ''0x1F'') (GN_ANY_BASE OR GN_GT_0) None = Inr 31"
    by (simp add: getLong_def getNum_def num_base_def flag_def GN_ANY_BASE_def GN_GT_0_def
        GN_NONNEG_def strtol_def isspace_def strtol_sign_def dval_def num_of_def Let_def
        LONG_MIN_def LONG_MAX_def)
  moreover have "flag (GN_ANY_BASE OR GN_GT_0) GN_GT_0"
    by (simp add: flag_def GN_ANY_BASE_def GN_GT_0_def)
  ultimately show ?thesis
    using getInt_accepts [of "Some ''0x1F''" "GN_ANY_BASE OR GN_GT_0" None 31]
    by (simp add: INT_MIN_def INT_MAX_def)
qed

text \<open>
  C24: \<open>getInt\<close> on the decimal text of any integer, of any size: the first check that fails decides
  the message, and otherwise the integer comes back.
\<close>

theorem getInt_decimal:
  assumes "num_base flags = 10"
  shows "getInt (Some (dec_int i)) flags argname =
    (let fail = (\<lambda>msg. Inl (gnFail ''getInt'' msg (Some (dec_int i)) argname)) in
     if i < LONG_MIN \<or> LONG_MAX < i then fail ''strtol() failed''
     else if flag flags GN_NONNEG \<and> i < 0 then fail ''negative value not allowed''
     else if flag flags GN_GT_0 \<and> i \<le> 0 then fail ''value must be > 0''
     else if i < INT_MIN \<or> INT_MAX < i then fail ''integer out of range''
     else Inr i)"
  by (auto simp: getInt_def getNum_dec_int [OF assms] Let_def to_int32_ident)

theorem getInt_decimal_witness:
  "getInt (Some (dec_int (- 7))) GN_NONNEG (Some ''seq-len'') =
     Inl (''getInt error (in seq-len): negative value not allowed'' @ [NL] @
          ''        offending text: '' @ dec_int (- 7) @ [NL])"
  using getInt_decimal [of GN_NONNEG "- 7" "Some ''seq-len''"]
  by (simp add: num_base_def flag_def GN_NONNEG_def GN_ANY_BASE_def GN_BASE_8_def GN_BASE_16_def
      LONG_MIN_def LONG_MAX_def gnFail_def dec_int_def)

end
