(* ===== verification/SeqServer.thy ===== *)
theory SeqServer
  imports GetNum
begin

text \<open>
  The sequence-number service over FIFOs, \<open>src/SP_HW8\<close>: the server of \<open>44-6\<close> (blocking reads of
  requests), the server of \<open>44-7\<close> (everything non-blocking), the normal and the abnormal client of
  \<open>44-6\<close> and the client of \<open>44-7\<close>.

  The number is a C int, a 32-bit word; the ranges handed out are read as signed integers.  What the
  operating system answers to each call is part of the event of a round.  Both servers are
  instances of the locale \<open>number_service\<close>, whose ranges never overlap.
\<close>

section \<open>fifo_seqnum.h\<close>

definition CLIENT_FIFO_NAME_LEN :: nat where "CLIENT_FIFO_NAME_LEN = 39"

definition client_fifo :: "int \<Rightarrow> string" where
  "client_fifo pid = take (CLIENT_FIFO_NAME_LEN - 1) (''/tmp/seqnum_cl.'' @ dec_int pid)"

record request =
  rpid :: int
  seqLen :: "32 word"

section \<open>The servers\<close>

text \<open>
  A round: the read gets no whole request, or a request and what \<open>open\<close>, \<open>write\<close> and \<open>close\<close> on the
  client's FIFO answer.
\<close>

datatype sv_event = BadRead | Request request bool bool bool

datatype sv_msg = Response string "32 word" | ReadError | OpenError string | WriteError string | CloseError

fun serve6 :: "32 word \<Rightarrow> sv_event \<Rightarrow> 32 word \<times> sv_msg list" where
  "serve6 seqNum BadRead = (seqNum, [ReadError])"
| "serve6 seqNum (Request req open_ok write_ok close_ok) =
     (let fifo = client_fifo (rpid req) in
      if \<not> open_ok then (seqNum, [OpenError fifo])
      else (seqNum + seqLen req,
            (if write_ok then [Response fifo seqNum] else [WriteError fifo]) @
            (if close_ok then [] else [CloseError])))"

text \<open>
  The server of \<open>44-7\<close> does not go on to the next request when the FIFO cannot be opened: it writes
  to and closes the descriptor -1, which fails, and updates its number.
\<close>

fun serve7 :: "32 word \<Rightarrow> sv_event \<Rightarrow> 32 word \<times> sv_msg list" where
  "serve7 seqNum BadRead = (seqNum, [ReadError])"
| "serve7 seqNum (Request req open_ok write_ok close_ok) =
     (let fifo = client_fifo (rpid req) in
      (seqNum + seqLen req,
       (if open_ok then [] else [OpenError fifo]) @
       (if open_ok \<and> write_ok then [Response fifo seqNum] else [WriteError fifo]) @
       (if open_ok \<and> close_ok then [] else [CloseError])))"

fun serve_all :: "('n \<Rightarrow> 'e \<Rightarrow> 'n \<times> 'm list) \<Rightarrow> 'n \<Rightarrow> 'e list \<Rightarrow> 'n \<times> 'm list" where
  "serve_all step n [] = (n, [])"
| "serve_all step n (e # es) =
     (case step n e of (n', out) \<Rightarrow>
      case serve_all step n' es of (n'', outs) \<Rightarrow> (n'', out @ outs))"

section \<open>The clients\<close>

text \<open>The request a client makes of its arguments, or the message \<open>getInt\<close> ends it with.\<close>

definition client_request :: "int \<Rightarrow> string list \<Rightarrow> string + request" where
  "client_request pid argv =
     (case argv of
        _ # a # _ \<Rightarrow>
          (case getInt (Some a) GN_GT_0 (Some ''seq-len'') of
             Inl e \<Rightarrow> Inl e
           | Inr n \<Rightarrow> Inr \<lparr>rpid = pid, seqLen = word_of_int n\<rparr>)
      | _ \<Rightarrow> Inr \<lparr>rpid = pid, seqLen = 1\<rparr>)"

text \<open>
  What the calls of a client answer: \<open>reads\<close> are the results of the successive reads of its own
  FIFO, \<open>None\<close> for one that gets no whole response.  \<open>Waiting\<close>: no further result arrives.
\<close>

record cl_env =
  mkfifo_ok :: bool
  atexit_ok :: bool
  sv_open_ok :: bool
  sv_write_ok :: bool
  cl_open_ok :: bool
  cl_reads :: "32 word option list"

datatype cl_end = Message string | Prints string | Waiting

definition shown_number :: "32 word \<Rightarrow> string" where
  "shown_number n = dec_int (sint n) @ [NL]"

text \<open>
  Up to the request: the FIFO is made before the arguments are read.  The client of \<open>44-7\<close> registers the
  function that removes it (\<open>removes\<close>); in those of \<open>44-6\<close> these lines are commented out.
\<close>

definition asks_help :: "string list \<Rightarrow> bool" where
  "asks_help argv \<longleftrightarrow> 1 < length argv \<and> strcmp (argv ! 1) ''--help'' = 0"

definition client_send :: "bool \<Rightarrow> cl_env \<Rightarrow> int \<Rightarrow> string list \<Rightarrow> cl_end + request" where
  "client_send removes env pid argv =
     (if asks_help argv then
        Inl (Message (''Usage: '' @ hd argv @ '' [seq-len...]'' @ [NL]))
      else if \<not> mkfifo_ok env then Inl (Message (''mkfifo '' @ client_fifo pid))
      else if removes \<and> \<not> atexit_ok env then Inl (Message ''atexit'')
      else (case client_request pid argv of
              Inl e \<Rightarrow> Inl (Message e)
            | Inr req \<Rightarrow>
                if \<not> sv_open_ok env then Inl (Message ''open /tmp/seqnum_sv'')
                else if \<not> sv_write_ok env then Inl (Message ''Can't write to server'')
                else Inr req))"

definition client_normal6 :: "cl_env \<Rightarrow> int \<Rightarrow> string list \<Rightarrow> request option \<times> cl_end" where
  "client_normal6 env pid argv =
     (case client_send False env pid argv of
        Inl e \<Rightarrow> (None, e)
      | Inr req \<Rightarrow>
          (Some req,
           if \<not> cl_open_ok env then Message (''open '' @ client_fifo pid)
           else (case cl_reads env of
                   [] \<Rightarrow> Waiting
                 | None # _ \<Rightarrow> Message ''Can't read response from server''
                 | Some n # _ \<Rightarrow> Prints (shown_number n))))"

text \<open>The abnormal client never opens its FIFO, and reads its descriptor all the same.\<close>

definition client_abnormal :: "cl_env \<Rightarrow> int \<Rightarrow> string list \<Rightarrow> (request option \<times> cl_end res)" where
  "client_abnormal env pid argv =
     (case client_send False env pid argv of
        Inl e \<Rightarrow> (None, Inr e)
      | Inr req \<Rightarrow> (Some req, Inl Uninitialised))"

text \<open>The client of \<open>44-7\<close> reads again until a response comes.\<close>

fun read_until :: "32 word option list \<Rightarrow> cl_end" where
  "read_until [] = Waiting"
| "read_until (None # rs) = read_until rs"
| "read_until (Some n # rs) = Prints (shown_number n)"

definition client_normal7 :: "cl_env \<Rightarrow> int \<Rightarrow> string list \<Rightarrow> request option \<times> cl_end" where
  "client_normal7 env pid argv =
     (case client_send True env pid argv of
        Inl e \<Rightarrow> (None, e)
      | Inr req \<Rightarrow>
          (Some req,
           if \<not> cl_open_ok env then Message (''open '' @ client_fifo pid)
           else read_until (cl_reads env)))"

text \<open>
  The FIFOs in the file system when a client has ended, by \<open>exit\<close> at its end or in an error function.
\<close>

definition removeFifo :: "string \<Rightarrow> string set \<Rightarrow> string set" where
  "removeFifo fifo fifos = fifos - {fifo}"

definition client_fifos :: "bool \<Rightarrow> cl_env \<Rightarrow> int \<Rightarrow> string list \<Rightarrow> string set \<Rightarrow> string set" where
  "client_fifos removes env pid argv fifos =
     (if asks_help argv \<or> \<not> mkfifo_ok env then fifos
      else if removes \<and> atexit_ok env then removeFifo (client_fifo pid) (insert (client_fifo pid) fifos)
      else insert (client_fifo pid) fifos)"

section \<open>The ranges handed out\<close>

fun len_of :: "sv_event \<Rightarrow> 32 word" where
  "len_of BadRead = 0"
| "len_of (Request req _ _ _) = seqLen req"

definition responses :: "sv_msg list \<Rightarrow> (string \<times> 32 word) list" where
  "responses out = concat (map (\<lambda>m. case m of Response f n \<Rightarrow> [(f, n)] | _ \<Rightarrow> []) out)"

text \<open>The client's FIFO, the first number and the number behind the last, for every response.\<close>

fun issued :: "(32 word \<Rightarrow> sv_event \<Rightarrow> 32 word \<times> sv_msg list) \<Rightarrow> 32 word \<Rightarrow> sv_event list \<Rightarrow>
    (string \<times> int \<times> int) list" where
  "issued step n [] = []"
| "issued step n (e # es) =
     map (\<lambda>(f, m). (f, sint m, sint m + sint (len_of e))) (responses (snd (step n e))) @
     issued step (fst (step n e)) es"

text \<open>Requests of non-negative length whose numbers do not leave the range of int.\<close>

definition within :: "int \<Rightarrow> sv_event list \<Rightarrow> bool" where
  "within n es \<longleftrightarrow> 0 \<le> n \<and> (\<forall>e \<in> set es. 0 \<le> sint (len_of e)) \<and>
     n + sum_list (map (\<lambda>e. sint (len_of e)) es) \<le> INT_MAX"

lemma sint_add:
  fixes a b :: "32 word"
  assumes "0 \<le> sint a" and "0 \<le> sint b" and "sint a + sint b \<le> INT_MAX"
  shows "sint (a + b) = sint a + sint b"
  using assms by (simp add: INT_MAX_def sint_word_ariths signed_take_bit_int_eq_self)

lemma within_Cons:
  assumes "within (sint n) (e # es)"
  shows "sint (n + len_of e) = sint n + sint (len_of e)" and "within (sint (n + len_of e)) es"
    and "within (sint n) es" and "0 \<le> sint (len_of e)"
proof -
  have nn: "0 \<le> sum_list (map (\<lambda>e. sint (len_of e)) es)"
    using assms by (intro sum_list_nonneg) (auto simp: within_def)
  show s: "sint (n + len_of e) = sint n + sint (len_of e)"
    using assms nn by (intro sint_add) (auto simp: within_def)
  show "within (sint (n + len_of e)) es" using assms nn by (auto simp: within_def s)
  show "within (sint n) es" "0 \<le> sint (len_of e)" using assms nn by (auto simp: within_def)
qed

definition before :: "string \<times> int \<times> int \<Rightarrow> string \<times> int \<times> int \<Rightarrow> bool" where
  "before a b \<longleftrightarrow> snd (snd a) \<le> fst (snd b)"

locale number_service =
  fixes step :: "32 word \<Rightarrow> sv_event \<Rightarrow> 32 word \<times> sv_msg list"
  assumes answers: "step n e = (n', out) \<Longrightarrow>
      responses out = [] \<and> (n' = n \<or> n' = n + len_of e) \<or>
      (\<exists>f. responses out = [(f, n)] \<and> n' = n + len_of e)"
begin

lemma issued_ordered:
  "within (sint n) es \<Longrightarrow>
   sorted_wrt before (issued step n es) \<and>
   (\<forall>r \<in> set (issued step n es). sint n \<le> fst (snd r) \<and> fst (snd r) \<le> snd (snd r))"
proof (induction es arbitrary: n)
  case Nil
  then show ?case by simp
next
  case (Cons e es)
  note w = within_Cons [OF Cons.prems]
  obtain n' out where s: "step n e = (n', out)" by (cases "step n e")
  from answers [OF s] show ?case
  proof (elim disjE conjE exE)
    assume "responses out = []" "n' = n"
    with Cons.IH [OF w(3)] s show ?thesis by simp
  next
    assume "responses out = []" "n' = n + len_of e"
    with Cons.IH [OF w(2)] s w(1,4) show ?thesis by fastforce
  next
    fix f
    assume "responses out = [(f, n)]" "n' = n + len_of e"
    with Cons.IH [OF w(2)] s w(1,4) show ?thesis by (fastforce simp: before_def)
  qed
qed

end

lemma serve6_answers:
  "serve6 n e = (n', out) \<Longrightarrow>
    responses out = [] \<and> (n' = n \<or> n' = n + len_of e) \<or>
    (\<exists>f. responses out = [(f, n)] \<and> n' = n + len_of e)"
  by (cases e) (auto simp: responses_def Let_def split: if_splits)

lemma serve7_answers:
  "serve7 n e = (n', out) \<Longrightarrow>
    responses out = [] \<and> (n' = n \<or> n' = n + len_of e) \<or>
    (\<exists>f. responses out = [(f, n)] \<and> n' = n + len_of e)"
  by (cases e) (auto simp: responses_def Let_def split: if_splits)

interpretation sv6: number_service serve6
  by unfold_locales (rule serve6_answers)

interpretation sv7: number_service serve7
  by unfold_locales (rule serve7_answers)

text \<open>
  C5: Both servers hand out disjoint ranges: in the order of the requests, each range ends before
  the next one starts, as long as the lengths asked for are not negative and their sum stays in the
  range of int.  This holds whatever reads, opens, writes and closes fail.
\<close>

theorem ranges_disjoint:
  assumes "within (sint n) es"
  shows "sorted_wrt before (issued serve6 n es) \<and> sorted_wrt before (issued serve7 n es)"
  using sv6.issued_ordered [OF assms] sv7.issued_ordered [OF assms] by simp

definition example_events :: "sv_event list" where
  "example_events =
     [Request \<lparr>rpid = 11, seqLen = 5\<rparr> True True True, BadRead,
      Request \<lparr>rpid = 12, seqLen = 3\<rparr> False False True,
      Request \<lparr>rpid = 13, seqLen = 2\<rparr> True True True]"

theorem ranges_disjoint_witness:
  "sorted_wrt before (issued serve6 0 example_events) \<and> sorted_wrt before (issued serve7 0 example_events)"
  by (rule ranges_disjoint) (simp add: within_def example_events_def INT_MAX_def)

section \<open>No number lost, and numbers lost\<close>

fun opened :: "sv_event list \<Rightarrow> request list" where
  "opened [] = []"
| "opened (BadRead # es) = opened es"
| "opened (Request req ok _ _ # es) = (if ok then req # opened es else opened es)"

fun unopened :: "sv_event list \<Rightarrow> request list" where
  "unopened [] = []"
| "unopened (BadRead # es) = unopened es"
| "unopened (Request req ok _ _ # es) = (if ok then unopened es else req # unopened es)"

fun writes_ok :: "sv_event \<Rightarrow> bool" where
  "writes_ok BadRead = True"
| "writes_ok (Request _ ok w _) = (ok \<longrightarrow> w)"

fun tile :: "int \<Rightarrow> request list \<Rightarrow> (string \<times> int \<times> int) list" where
  "tile n [] = []"
| "tile n (r # rs) =
     (client_fifo (rpid r), n, n + sint (seqLen r)) # tile (n + sint (seqLen r)) rs"

text \<open>
  The server of \<open>44-6\<close> loses no number: the clients whose FIFO it can open get consecutive
  ranges, without a gap, in the order of their requests; a client that never opens its FIFO, the
  abnormal one, changes nothing for the others.
\<close>

theorem serve6_tiles:
  assumes "within (sint n) es" and "\<forall>e \<in> set es. writes_ok e"
  shows "issued serve6 n es = tile (sint n) (opened es)"
  using assms
proof (induction es arbitrary: n)
  case Nil
  then show ?case by simp
next
  case (Cons e es)
  note w = within_Cons [OF Cons.prems(1)]
  show ?case
  proof (cases e)
    case BadRead
    then show ?thesis using Cons.IH [OF w(3)] Cons.prems(2) by (simp add: responses_def)
  next
    case (Request req ok wr cl)
    then show ?thesis
      using Cons.IH [OF w(2)] Cons.IH [OF w(3)] Cons.prems(2) w(1)
      by (auto simp: responses_def Let_def)
  qed
qed

theorem serve6_tiles_witness:
  "issued serve6 0 example_events = [(client_fifo 11, 0, 5), (client_fifo 13, 5, 7)]"
proof -
  have "issued serve6 0 example_events = tile (sint (0 :: 32 word)) (opened example_events)"
    by (rule serve6_tiles) (simp_all add: within_def example_events_def INT_MAX_def)
  also have "\<dots> = [(client_fifo 11, 0, 5), (client_fifo 13, 5, 7)]"
    by (simp add: example_events_def)
  finally show ?thesis .
qed

lemma fst_serve_all: "fst (serve_all step n (e # es)) = fst (serve_all step (fst (step n e)) es)"
  by (simp add: split_beta)

lemma serve7_ahead:
  "fst (serve_all serve7 m es) =
   fst (serve_all serve6 n es) + (m - n) + sum_list (map seqLen (unopened es))"
proof (induction es arbitrary: m n)
  case Nil
  then show ?case by simp
next
  case (Cons e es)
  show ?case
  proof (cases e)
    case BadRead
    then show ?thesis using Cons.IH [of m n] by (simp add: fst_serve_all del: serve_all.simps)
  next
    case (Request req ok wr cl)
    have s7: "fst (serve7 m e) = m + seqLen req" by (simp add: Request Let_def)
    show ?thesis
    proof (cases ok)
      case True
      then have "fst (serve6 n e) = n + seqLen req" "unopened (e # es) = unopened es"
        by (simp_all add: Request Let_def)
      then show ?thesis
        using Cons.IH [of "m + seqLen req" "n + seqLen req"] by (simp only: fst_serve_all s7) simp
    next
      case False
      then have "fst (serve6 n e) = n" "unopened (e # es) = req # unopened es"
        by (simp_all add: Request Let_def)
      then show ?thesis
        using Cons.IH [of "m + seqLen req" n] by (simp only: fst_serve_all s7) simp
    qed
  qed
qed

text \<open>
  The server of \<open>44-7\<close> also counts the requests whose FIFO it could not open: after the same
  events its number is ahead of that of \<open>44-6\<close> by exactly the lengths of those requests, in 32-bit
  arithmetic.
\<close>

theorem serve7_loses_unopened:
  "fst (serve_all serve7 n es) = fst (serve_all serve6 n es) + sum_list (map seqLen (unopened es))"
  using serve7_ahead [of n es n] by (simp only: diff_self add_0_right)

section \<open>Clients and server together\<close>

lemma client_fifo_whole:
  assumes "LONG_MIN \<le> pid" and "pid \<le> LONG_MAX"
  shows "client_fifo pid = ''/tmp/seqnum_cl.'' @ dec_int pid"
proof -
  have "length (dec_nat (nat (if pid < 0 then - pid else pid))) \<le> 19"
    using assms by (intro length_dec_nat_le) (auto simp: LONG_MIN_def LONG_MAX_def)
  then have "length (dec_int pid) \<le> 20" by (auto simp: dec_int_def split: if_splits)
  then show ?thesis by (simp add: client_fifo_def CLIENT_FIFO_NAME_LEN_def)
qed

text \<open>
  No two processes share a FIFO: the name the server builds for a process id is never cut off by
  the size of its buffer, and different ids give different names.
\<close>

theorem client_fifo_inj:
  assumes "LONG_MIN \<le> p" and "p \<le> LONG_MAX" and "LONG_MIN \<le> q" and "q \<le> LONG_MAX"
    and "client_fifo p = client_fifo q"
  shows "p = q"
  using assms by (simp add: client_fifo_whole dec_int_inj)

theorem client_fifo_inj_witness: "\<exists>p :: int. client_fifo p = client_fifo 4711 \<and> p = 4711"
  using client_fifo_inj [of 4711 4711] by (intro exI [of _ 4711]) (simp add: LONG_MIN_def LONG_MAX_def)

definition no_trouble :: "32 word option list \<Rightarrow> cl_env" where
  "no_trouble rs = \<lparr>mkfifo_ok = True, atexit_ok = True, sv_open_ok = True, sv_write_ok = True, cl_open_ok = True,
     cl_reads = rs\<rparr>"

text \<open>
  One client after the other against the server of \<open>44-6\<close>: the request of each is the server's next
  event, and what the server writes to the FIFO of that process is what the client reads.  How the server's calls
  for a client come out is its \<open>luck\<close>: whether the server, which does not wait, finds the FIFO opened, and whether \<open>write\<close>
  and \<open>close\<close> succeed.  A client whose FIFO nobody opens waits for a writer, and one whose FIFO is closed again
  without a response reads an end of file.
\<close>

record luck =
  fifo_found :: bool
  response_written :: bool
  fifo_closed :: bool

definition one_client :: "32 word \<Rightarrow> int \<times> string list \<times> luck \<Rightarrow> 32 word \<times> cl_end" where
  "one_client n c =
     (case c of (pid, argv, lk) \<Rightarrow>
      case client_normal6 (no_trouble []) pid argv of
        (None, e) \<Rightarrow> (n, e)
      | (Some req, _) \<Rightarrow>
          (case serve6 n (Request req (fifo_found lk) (response_written lk) (fifo_closed lk)) of (n', out) \<Rightarrow>
             let got = map (\<lambda>(f, m). Some m) (filter (\<lambda>(f, m). f = client_fifo pid) (responses out)) in
             (n', snd (client_normal6 (no_trouble (if fifo_found lk \<and> got = [] then [None] else got)) pid argv))))"

fun clients :: "32 word \<Rightarrow> (int \<times> string list \<times> luck) list \<Rightarrow> cl_end list" where
  "clients n [] = []"
| "clients n (c # cs) = snd (one_client n c) # clients (fst (one_client n c)) cs"

lemma request_base: "num_base GN_GT_0 = 10"
  by (simp add: num_base_def flag_def GN_GT_0_def GN_ANY_BASE_def GN_BASE_8_def GN_BASE_16_def)

lemma getInt_positive:
  assumes "0 < l" and "l \<le> INT_MAX"
  shows "getInt (Some (dec_int l)) GN_GT_0 argname = Inr l"
  using assms
  by (auto simp: getInt_Inr getNum_dec_int [OF request_base] Let_def
      LONG_MIN_def LONG_MAX_def INT_MIN_def INT_MAX_def)

lemma client_request_decimal:
  assumes "0 < l" and "l \<le> INT_MAX"
  shows "client_request pid [prog, dec_int l] = Inr \<lparr>rpid = pid, seqLen = word_of_int l\<rparr>"
  using assms
  by (simp add: client_request_def getInt_positive [OF assms] LONG_MIN_def LONG_MAX_def INT_MIN_def INT_MAX_def)

lemma dec_int_not_help: "0 < l \<Longrightarrow> dec_int l \<noteq> ''--help''"
proof
  assume "0 < l" and "dec_int l = ''--help''"
  then have "dec_nat (nat l) = ''--help''" by (simp add: dec_int_def)
  then have "CHR ''-'' \<in> set (dec_nat (nat l))" by simp
  then show False using decimal_dec_nat [of "nat l"] digit_ne_sign(1) by (metis decimal_def)
qed

lemma one_client_number:
  assumes "0 < l" and "l \<le> INT_MAX"
  shows "one_client n (pid, [prog, dec_int l], lk) =
    (if \<not> fifo_found lk then (n, Waiting)
     else (n + word_of_int l,
       if response_written lk then Prints (shown_number n) else Message ''Can't read response from server''))"
  using client_request_decimal [OF assms] dec_int_not_help [OF assms(1)]
  by (simp add: one_client_def client_normal6_def client_send_def asks_help_def no_trouble_def responses_def Let_def)

text \<open>What clients that ask for these lengths, with this luck, see of a service that counts from \<open>n\<close>.\<close>

fun outcomes :: "int \<Rightarrow> (int \<times> luck) list \<Rightarrow> cl_end list" where
  "outcomes n [] = []"
| "outcomes n ((l, lk) # as) =
     (if \<not> fifo_found lk then Waiting # outcomes n as
      else (if response_written lk then Prints (dec_int n @ [NL]) else Message ''Can't read response from server'') #
        outcomes (n + l) as)"

text \<open>
  C23: Clients that ask one after the other, with the decimal text of a positive length as their
  argument and no failing call of their own: each client whose FIFO the server finds opened prints the number
  at which its range starts, the sum of the lengths asked for before by such clients, as long as these stay in
  the range of int (or reports that nothing came, when the server's write failed); a client that has not opened
  its FIFO when the server tries to waits for ever, and its length is not counted.
\<close>

theorem clients_print_starts:
  assumes "\<forall>(l, lk) \<in> set as. 0 < l" and "0 \<le> sint n" and "sint n + sum_list (map fst as) \<le> INT_MAX"
    and "length pids = length as"
  shows "clients n (map (\<lambda>(pid, l, lk). (pid, [''client'', dec_int l], lk)) (zip pids as)) = outcomes (sint n) as"
  using assms
proof (induction as arbitrary: n pids)
  case Nil
  then show ?case by simp
next
  case (Cons a as)
  obtain pid pids' where p: "pids = pid # pids'" using Cons.prems(4) by (cases pids) auto
  obtain l lk where a: "a = (l, lk)" by (cases a)
  have nn: "0 \<le> sum_list (map fst as)" using Cons.prems(1) by (intro sum_list_nonneg) auto
  have l: "0 < l" "l \<le> INT_MAX" using Cons.prems(1-3) nn by (auto simp: a)
  have sl: "sint (word_of_int l :: 32 word) = l" using to_int32_ident [of l] l
    by (simp add: to_int32_def INT_MIN_def)
  have s: "sint (n + word_of_int l) = sint n + l"
    using sint_add [of n "word_of_int l"] Cons.prems(2,3) nn l by (simp add: sl a)
  show ?case
    using Cons.IH [of "n + word_of_int l" pids'] Cons.IH [of n pids'] Cons.prems l
    by (simp add: p a one_client_number s shown_number_def)
qed

definition lucky :: luck where "lucky = \<lparr>fifo_found = True, response_written = True, fifo_closed = True\<rparr>"

theorem clients_print_starts_witness:
  "clients 0 [(11, [''client'', dec_int 5], lucky), (12, [''client'', dec_int 7], lucky\<lparr>fifo_found := False\<rparr>),
      (13, [''client'', dec_int 3], lucky)] =
    [Prints (dec_int 0 @ [NL]), Waiting, Prints (dec_int 5 @ [NL])]"
  using clients_print_starts [of "[(5, lucky), (7, lucky\<lparr>fifo_found := False\<rparr>), (3, lucky)]" 0 "[11, 12, 13]"]
  by (simp add: INT_MAX_def lucky_def)


section \<open>The clients of both versions\<close>

text \<open>Where the client of \<open>44-6\<close> prints its number, that of \<open>44-7\<close> does.\<close>

lemma send7: "atexit_ok env \<Longrightarrow> client_send True env pid argv = client_send False env pid argv"
  by (simp add: client_send_def)

theorem client7_prints_as_client6:
  assumes "client_normal6 env pid argv = (req, Prints s)" "atexit_ok env"
  shows "client_normal7 env pid argv = (req, Prints s)"
  using assms
  by (cases "client_send False env pid argv"; cases "hd (cl_reads env)"; cases "cl_reads env")
    (auto simp: client_normal6_def client_normal7_def send7 client_send_def split: if_splits sum.splits)

theorem client7_prints_as_client6_witness:
  "client_normal7 (no_trouble [Some 4]) 7 [''client''] = (Some \<lparr>rpid = 7, seqLen = 1\<rparr>, Prints (shown_number 4))"
  by (rule client7_prints_as_client6)
    (simp_all add: client_normal6_def client_send_def asks_help_def client_request_def no_trouble_def)

text \<open>Reads of the client of \<open>44-7\<close> that get nothing do not matter.\<close>

lemma read_until_skips: "read_until (replicate n None @ rs) = read_until rs"
  by (induction n) simp_all

text \<open>
  A client of \<open>44-7\<close> leaves no FIFO behind, however it ends; a client of \<open>44-6\<close> leaves its own whenever it
  has made one, and those of different clients pile up.
\<close>
theorem client_fifos_left:
  "(atexit_ok env \<longrightarrow> client_fifos True env pid argv fifos \<subseteq> fifos) \<and>
   client_fifos False env pid argv fifos =
     (if asks_help argv \<or> \<not> mkfifo_ok env then fifos else insert (client_fifo pid) fifos)"
  by (auto simp: client_fifos_def removeFifo_def)

end
