(* ===== verification/ErrorFunctions.thy ===== *)
theory ErrorFunctions
  imports CLib
begin

text \<open>
  The error reports every TLPI-style program of the repository ends with,
  \<open>error_functions.c\<close> (five identical copies; the map names the one of \<open>src/SP_HW8/44-6\<close>) with the
  table \<open>ename.c.inc\<close>.  A report is the list of what it does to the two output streams; the five
  500-byte buffers cut it.  Parameters are the environment of the process: the text of \<open>strerror\<close>, the
  value of \<open>EF_DUMPCORE\<close>, and what the stdio calls leave in \<open>errno\<close>.

  The locale \<open>one_report\<close> is the contract of the functions that print one error line: its lemmas say
  when the line is complete and how it is cut; the four functions are its interpretations.
\<close>

section \<open>Formats\<close>

text \<open>
  The arguments the callers pass and the two directives they use, \<open>%s\<close> and \<open>%ld\<close>; a directive without
  an argument of its kind is undefined.
\<close>

datatype farg = AStr string | ALong int

fun vformat :: "string \<Rightarrow> farg list \<Rightarrow> string res" where
  "vformat [] args = Inr []"
| "vformat (c # f) args =
     (if c \<noteq> CHR ''%'' then bindE (vformat f args) (\<lambda>s. Inr (c # s))
      else case f of
        [] \<Rightarrow> Inl Uninitialised
      | d # g \<Rightarrow>
          if d = CHR ''s'' then
            (case args of
               AStr t # as \<Rightarrow> bindE (vformat g as) (\<lambda>s. Inr (t @ s))
             | _ \<Rightarrow> Inl Uninitialised)
          else if d = CHR ''l'' then
            (case g of
               [] \<Rightarrow> Inl Uninitialised
             | e # h \<Rightarrow>
                 if e = CHR ''d'' then
                   (case args of
                      ALong i # as \<Rightarrow> bindE (vformat h as) (\<lambda>s. Inr (dec_int i @ s))
                    | _ \<Rightarrow> Inl Uninitialised)
                 else Inl Uninitialised)
          else Inl Uninitialised)"

text \<open>\<open>snprintf\<close> and \<open>vsnprintf\<close> into a buffer of \<open>n\<close> bytes: the text that fits in front of the terminator.\<close>

definition snprintf :: "nat \<Rightarrow> string \<Rightarrow> string" where
  "snprintf n s = take (n - 1) s"

section \<open>The process\<close>

datatype ef_act = Flush_stdout | To_stderr string | Flush_stderr

record ef_env =
  strerror_of :: "int \<Rightarrow> string"
  dumpcore :: "string option"
  errno_after :: "int \<Rightarrow> int"

record ef_state =
  cur_errno :: int
  acts :: "ef_act list"

datatype ef_end = Abort | Exit int | Exit_now int

definition ename :: "string list" where
  "ename = [
    '''', ''EPERM'', ''ENOENT'', ''ESRCH'', ''EINTR'', ''EIO'', ''ENXIO'', ''E2BIG'', ''ENOEXEC'',
    ''EBADF'', ''ECHILD'', ''EAGAIN/EWOULDBLOCK'', ''ENOMEM'', ''EACCES'', ''EFAULT'', ''ENOTBLK'',
    ''EBUSY'', ''EEXIST'', ''EXDEV'', ''ENODEV'', ''ENOTDIR'', ''EISDIR'', ''EINVAL'', ''ENFILE'',
    ''EMFILE'', ''ENOTTY'', ''ETXTBSY'', ''EFBIG'', ''ENOSPC'', ''ESPIPE'', ''EROFS'', ''EMLINK'',
    ''EPIPE'', ''EDOM'', ''ERANGE'', ''EDEADLK/EDEADLOCK'', ''ENAMETOOLONG'', ''ENOLCK'',
    ''ENOSYS'', ''ENOTEMPTY'', ''ELOOP'', '''', ''ENOMSG'', ''EIDRM'', ''ECHRNG'', ''EL2NSYNC'',
    ''EL3HLT'', ''EL3RST'', ''ELNRNG'', ''EUNATCH'', ''ENOCSI'', ''EL2HLT'', ''EBADE'', ''EBADR'',
    ''EXFULL'', ''ENOANO'', ''EBADRQC'', ''EBADSLT'', '''', ''EBFONT'', ''ENOSTR'', ''ENODATA'',
    ''ETIME'', ''ENOSR'', ''ENONET'', ''ENOPKG'', ''EREMOTE'', ''ENOLINK'', ''EADV'', ''ESRMNT'',
    ''ECOMM'', ''EPROTO'', ''EMULTIHOP'', ''EDOTDOT'', ''EBADMSG'', ''EOVERFLOW'', ''ENOTUNIQ'',
    ''EBADFD'', ''EREMCHG'', ''ELIBACC'', ''ELIBBAD'', ''ELIBSCN'', ''ELIBMAX'', ''ELIBEXEC'',
    ''EILSEQ'', ''ERESTART'', ''ESTRPIPE'', ''EUSERS'', ''ENOTSOCK'', ''EDESTADDRREQ'',
    ''EMSGSIZE'', ''EPROTOTYPE'', ''ENOPROTOOPT'', ''EPROTONOSUPPORT'', ''ESOCKTNOSUPPORT'',
    ''EOPNOTSUPP/ENOTSUP'', ''EPFNOSUPPORT'', ''EAFNOSUPPORT'', ''EADDRINUSE'', ''EADDRNOTAVAIL'',
    ''ENETDOWN'', ''ENETUNREACH'', ''ENETRESET'', ''ECONNABORTED'', ''ECONNRESET'', ''ENOBUFS'',
    ''EISCONN'', ''ENOTCONN'', ''ESHUTDOWN'', ''ETOOMANYREFS'', ''ETIMEDOUT'', ''ECONNREFUSED'',
    ''EHOSTDOWN'', ''EHOSTUNREACH'', ''EALREADY'', ''EINPROGRESS'', ''ESTALE'', ''EUCLEAN'',
    ''ENOTNAM'', ''ENAVAIL'', ''EISNAM'', ''EREMOTEIO'', ''EDQUOT'', ''ENOMEDIUM'',
    ''EMEDIUMTYPE'', ''ECANCELED'', ''ENOKEY'', ''EKEYEXPIRED'', ''EKEYREVOKED'', ''EKEYREJECTED'',
    ''EOWNERDEAD'', ''ENOTRECOVERABLE'', ''ERFKILL'', ''EHWPOISON'']"

definition MAX_ENAME :: int where "MAX_ENAME = 133"

definition EF_BUF_SIZE :: nat where "EF_BUF_SIZE = 500"

section \<open>The functions\<close>

definition terminate :: "ef_env \<Rightarrow> bool \<Rightarrow> ef_end" where
  "terminate env useExit3 =
     (case dumpcore env of
        Some (c # s) \<Rightarrow> Abort
      | _ \<Rightarrow> if useExit3 then Exit 1 else Exit_now 1)"

definition err_name :: "int \<Rightarrow> string" where
  "err_name err = (if 0 < err \<and> err \<le> MAX_ENAME then ename ! nat err else ''?UNKNOWN?'')"

definition err_text :: "ef_env \<Rightarrow> bool \<Rightarrow> int \<Rightarrow> string" where
  "err_text env useErr err =
     (if useErr then snprintf EF_BUF_SIZE ('' ['' @ err_name err @ '' '' @ strerror_of env err @ '']'')
      else snprintf EF_BUF_SIZE '':'')"

definition outputError :: "ef_env \<Rightarrow> bool \<Rightarrow> int \<Rightarrow> bool \<Rightarrow> string \<Rightarrow> farg list \<Rightarrow> ef_state \<Rightarrow> ef_state res" where
  "outputError env useErr err flushStdout f args s =
     bindE (vformat f args) (\<lambda>m.
     (let userMsg = snprintf EF_BUF_SIZE m;
          buf = snprintf EF_BUF_SIZE (''ERROR'' @ err_text env useErr err @ '' '' @ userMsg @ [NL])
      in Inr (s\<lparr>cur_errno := errno_after env (cur_errno s),
              acts := acts s @ (if flushStdout then [Flush_stdout] else []) @
                [To_stderr buf, Flush_stderr]\<rparr>)))"

definition errMsg :: "ef_env \<Rightarrow> string \<Rightarrow> farg list \<Rightarrow> ef_state \<Rightarrow> ef_state res" where
  "errMsg env f args s =
     (let savedErrno = cur_errno s in
      bindE (outputError env True (cur_errno s) True f args s) (\<lambda>s'. Inr (s'\<lparr>cur_errno := savedErrno\<rparr>)))"

definition errExit :: "ef_env \<Rightarrow> string \<Rightarrow> farg list \<Rightarrow> ef_state \<Rightarrow> (ef_state \<times> ef_end) res" where
  "errExit env f args s =
     bindE (outputError env True (cur_errno s) True f args s) (\<lambda>s'. Inr (s', terminate env True))"

definition err_exit :: "ef_env \<Rightarrow> string \<Rightarrow> farg list \<Rightarrow> ef_state \<Rightarrow> (ef_state \<times> ef_end) res" where
  "err_exit env f args s =
     bindE (outputError env True (cur_errno s) False f args s) (\<lambda>s'. Inr (s', terminate env False))"

definition errExitEN :: "ef_env \<Rightarrow> int \<Rightarrow> string \<Rightarrow> farg list \<Rightarrow> ef_state \<Rightarrow> (ef_state \<times> ef_end) res" where
  "errExitEN env errnum f args s =
     bindE (outputError env True errnum True f args s) (\<lambda>s'. Inr (s', terminate env True))"

definition fatal :: "ef_env \<Rightarrow> string \<Rightarrow> farg list \<Rightarrow> ef_state \<Rightarrow> (ef_state \<times> ef_end) res" where
  "fatal env f args s =
     bindE (outputError env False 0 True f args s) (\<lambda>s'. Inr (s', terminate env True))"

text \<open>
  The two reports of wrong arguments print through \<open>vfprintf\<close>, without a buffer of their own, and
  never dump core.
\<close>

definition plain_report :: "string \<Rightarrow> string \<Rightarrow> farg list \<Rightarrow> ef_state \<Rightarrow> (ef_state \<times> ef_end) res" where
  "plain_report title f args s =
     bindE (vformat f args) (\<lambda>m.
     Inr (s\<lparr>acts := acts s @ [Flush_stdout, To_stderr title, To_stderr m, Flush_stderr]\<rparr>, Exit 1))"

definition usageErr :: "string \<Rightarrow> farg list \<Rightarrow> ef_state \<Rightarrow> (ef_state \<times> ef_end) res" where
  "usageErr = plain_report ''Usage: ''"

definition cmdLineErr :: "string \<Rightarrow> farg list \<Rightarrow> ef_state \<Rightarrow> (ef_state \<times> ef_end) res" where
  "cmdLineErr = plain_report ''Command-line usage error: ''"

section \<open>Programs that end with a report\<close>

text \<open>
  A \<open>main\<close> of the repository goes on from call to call or ends with a report: \<open>or_exit\<close> is a call whose
  failure \<open>errExit\<close> reports, \<open>refused\<close> the \<open>errno\<close> when it fails, \<open>objs\<close> what it leaves behind in the system.
\<close>

datatype main_end = Goes_on | Ends ef_state ef_end

definition or_exit :: "ef_env \<Rightarrow> int option \<Rightarrow> ef_state \<Rightarrow> string \<Rightarrow> farg list \<Rightarrow> 'o \<Rightarrow>
    ('o \<times> main_end) res \<Rightarrow> ('o \<times> main_end) res" where
  "or_exit env refused s f args objs go =
     (case refused of
        None \<Rightarrow> go
      | Some e \<Rightarrow> bindE (errExit env f args (s\<lparr>cur_errno := e\<rparr>)) (\<lambda>(s', fin). Inr (objs, Ends s' fin)))"

text \<open>\<open>perror\<close> and \<open>exit(1)\<close>, the one report that is not of the library.\<close>

definition perror_exit :: "ef_env \<Rightarrow> string \<Rightarrow> int \<Rightarrow> ef_state \<Rightarrow> main_end" where
  "perror_exit env name e s =
     Ends (s\<lparr>cur_errno := e, acts := acts s @ [To_stderr (name @ '': '' @ strerror_of env e @ [NL])]\<rparr>) (Exit 1)"

lemma or_exit_goes_on:
  "or_exit env refused s f args objs go = Inr (objs', Goes_on) \<longleftrightarrow> refused = None \<and> go = Inr (objs', Goes_on)"
  by (auto simp: or_exit_def bindE_Inr_iff split: option.split)

lemma perror_exit_ends [simp]: "perror_exit env name e s \<noteq> Goes_on"
  by (simp add: perror_exit_def)

lemma or_exit_passes [simp]: "or_exit env None s f args objs go = go"
  by (simp add: or_exit_def)

section \<open>What a report prints\<close>

definition written :: "ef_state \<Rightarrow> string" where
  "written s = concat (map (\<lambda>a. case a of To_stderr t \<Rightarrow> t | _ \<Rightarrow> []) (acts s))"

definition report_line :: "string \<Rightarrow> string \<Rightarrow> string" where
  "report_line head m = ''ERROR'' @ head @ '' '' @ m @ [NL]"

lemma outputError_ok:
  assumes "vformat f args = Inr m"
  shows "outputError env useErr err flushStdout f args s =
    Inr \<lparr>cur_errno = errno_after env (cur_errno s),
         acts = acts s @ (if flushStdout then [Flush_stdout] else []) @
           [To_stderr (take 499 (report_line (err_text env useErr err) (take 499 m))), Flush_stderr]\<rparr>"
  by (cases s) (simp add: outputError_def assms snprintf_def EF_BUF_SIZE_def report_line_def Let_def)

lemma report_line_fits:
  "length head + length m \<le> 492 \<Longrightarrow> take 499 (report_line head (take 499 m)) = report_line head m"
  by (simp add: report_line_def)

lemma report_line_cut:
  assumes "492 < length head + length m" and "NL \<notin> set head" and "NL \<notin> set m"
  shows "length (take 499 (report_line head (take 499 m))) = 499 \<and>
    NL \<notin> set (take 499 (report_line head (take 499 m)))"
proof -
  let ?t = "''ERROR'' @ head @ '' '' @ take 499 m"
  have "499 \<le> length ?t" using assms(1) by simp
  have app: "n \<le> length xs \<Longrightarrow> take n (xs @ [NL]) = take n xs" for n and xs :: string by simp
  have "report_line head (take 499 m) = ?t @ [NL]" by (simp add: report_line_def)
  then have t: "take 499 (report_line head (take 499 m)) = take 499 ?t"
    using app [OF \<open>499 \<le> length ?t\<close>] by (simp only:)
  have "NL \<notin> set ?t" using assms(2,3) by (auto dest: in_set_takeD)
  then show ?thesis using \<open>499 \<le> length ?t\<close> unfolding t by (auto dest: in_set_takeD)
qed

locale one_report =
  fixes report :: "string \<Rightarrow> farg list \<Rightarrow> ef_state \<Rightarrow> (ef_state \<times> ef_end) res"
    and head :: "ef_state \<Rightarrow> string"
    and flushed :: "ef_act list"
    and fin :: ef_end
  assumes reports: "vformat f args = Inr m \<Longrightarrow>
      \<exists>e. report f args s = Inr (\<lparr>cur_errno = e, acts = acts s @ flushed @
        [To_stderr (take 499 (report_line (head s) (take 499 m))), Flush_stderr]\<rparr>, fin)"
begin

lemma complete:
  assumes "vformat f args = Inr m" and "length (head s) + length m \<le> 492"
  shows "\<exists>e. report f args s = Inr (\<lparr>cur_errno = e, acts = acts s @ flushed @
     [To_stderr (report_line (head s) m), Flush_stderr]\<rparr>, fin)"
  using reports [OF assms(1), of s] unfolding report_line_fits [OF assms(2)] .

lemma cut:
  assumes "vformat f args = Inr m" and "492 < length (head s) + length m"
    and "NL \<notin> set (head s)" and "NL \<notin> set m"
  shows "\<exists>e t. report f args s = Inr (\<lparr>cur_errno = e, acts = acts s @ flushed @
      [To_stderr t, Flush_stderr]\<rparr>, fin) \<and> length t = 499 \<and> NL \<notin> set t"
  using reports [OF assms(1), of s] report_line_cut [OF assms(2-4)] by blast

end

interpretation r_errExit: one_report "errExit env" "\<lambda>s. err_text env True (cur_errno s)"
    "[Flush_stdout]" "terminate env True" for env
  by unfold_locales (auto simp: errExit_def outputError_ok)

interpretation r_err_exit: one_report "err_exit env" "\<lambda>s. err_text env True (cur_errno s)"
    "[]" "terminate env False" for env
  by unfold_locales (auto simp: err_exit_def outputError_ok)

interpretation r_errExitEN: one_report "errExitEN env errnum" "\<lambda>s. err_text env True errnum"
    "[Flush_stdout]" "terminate env True" for env errnum
  by unfold_locales (auto simp: errExitEN_def outputError_ok)

interpretation r_fatal: one_report "fatal env" "\<lambda>s. '':''" "[Flush_stdout]" "terminate env True" for env
  by unfold_locales (auto simp: fatal_def outputError_ok err_text_def snprintf_def EF_BUF_SIZE_def)

lemma err_text_fits:
  "length (err_name e) + length (strerror_of env e) \<le> 495 \<Longrightarrow>
   err_text env True e = '' ['' @ err_name e @ '' '' @ strerror_of env e @ '']''"
  by (simp add: err_text_def snprintf_def EF_BUF_SIZE_def)

lemma vformat_plain: "CHR ''%'' \<notin> set f \<Longrightarrow> vformat f args = Inr f"
  by (induction f) auto

lemma length_ename: "length ename = 134"
  by (simp add: ename_def)

section \<open>Properties\<close>

text \<open>
  errExit flushes the standard output, prints one line with the name and the text of the error
  and the formatted message, as long as the line fits its buffer, and ends the process: with a core
  dump exactly when \<open>EF_DUMPCORE\<close> is set to a nonempty string, and with status 1 otherwise.
\<close>

theorem errExit_line:
  assumes "vformat f args = Inr m"
    and "length (err_name (cur_errno s)) + length (strerror_of env (cur_errno s)) + length m \<le> 488"
  shows "\<exists>s'. errExit env f args s =
      Inr (s', if dumpcore env = None \<or> dumpcore env = Some [] then Exit 1 else Abort) \<and>
    acts s' = acts s @ [Flush_stdout, To_stderr (''ERROR ['' @ err_name (cur_errno s) @ '' '' @
      strerror_of env (cur_errno s) @ ''] '' @ m @ [NL]), Flush_stderr]"
proof -
  have t: "terminate env True = (if dumpcore env = None \<or> dumpcore env = Some [] then Exit 1 else Abort)"
    by (auto simp: terminate_def split: option.split list.split)
  have h: "err_text env True (cur_errno s) =
      '' ['' @ err_name (cur_errno s) @ '' '' @ strerror_of env (cur_errno s) @ '']''"
    using assms(2) by (intro err_text_fits) simp
  show ?thesis
    using r_errExit.complete [OF assms(1), where s = s and env = env] assms(2)
    unfolding t h by (auto simp: report_line_def)
qed

definition ef_example :: ef_env where
  "ef_example = \<lparr>strerror_of = (\<lambda>_. ''No such file or directory''), dumpcore = None, errno_after = (\<lambda>_. 25)\<rparr>"

theorem errExit_line_witness:
  "\<exists>s'. errExit ef_example ''open %s'' [AStr ''/tmp/seqnum_sv''] \<lparr>cur_errno = 2, acts = []\<rparr> = Inr (s', Exit 1) \<and>
    acts s' = [Flush_stdout,
      To_stderr (''ERROR [ENOENT No such file or directory] open /tmp/seqnum_sv'' @ [NL]), Flush_stderr]"
  using errExit_line [of "''open %s''" "[AStr ''/tmp/seqnum_sv'']" "''open /tmp/seqnum_sv''"
      "\<lparr>cur_errno = 2, acts = []\<rparr>" ef_example]
  by (simp add: ef_example_def err_name_def ename_def MAX_ENAME_def)

text \<open>
  errMsg prints what errExit prints and returns with \<open>errno\<close> as it found it, whatever the output
  calls leave there.
\<close>

theorem errMsg_transparent:
  assumes "errExit env f args s = Inr (s', fin)"
  shows "errMsg env f args s = Inr (s'\<lparr>cur_errno := cur_errno s\<rparr>)"
proof -
  obtain r where "outputError env True (cur_errno s) True f args s = Inr r" "s' = r"
    using assms by (auto simp: errExit_def bind_simps)
  then show ?thesis by (simp add: errMsg_def)
qed

theorem errMsg_transparent_witness:
  "errMsg ef_example ''fork'' [] \<lparr>cur_errno = 11, acts = []\<rparr> =
    Inr (\<lparr>cur_errno = 25, acts = [Flush_stdout,
      To_stderr (''ERROR [EAGAIN/EWOULDBLOCK No such file or directory] fork'' @ [NL]), Flush_stderr]\<rparr>
      \<lparr>cur_errno := cur_errno \<lparr>cur_errno = 11, acts = []\<rparr>\<rparr>)"
  by (rule errMsg_transparent [where fin = "Exit 1"])
    (simp add: errExit_def outputError_ok [OF vformat_plain] report_line_def err_text_def snprintf_def
      EF_BUF_SIZE_def ef_example_def err_name_def ename_def MAX_ENAME_def terminate_def)

text \<open>
  A message of 492 characters or more makes fatal print exactly 499 characters without the newline
  that ends an error line.
\<close>

theorem fatal_cut:
  assumes "vformat f args = Inr m" and "492 \<le> length m" and "NL \<notin> set m"
  shows "\<exists>s' t. fatal env f args s = Inr (s', terminate env True) \<and>
    acts s' = acts s @ [Flush_stdout, To_stderr t, Flush_stderr] \<and> length t = 499 \<and> NL \<notin> set t"
  using r_fatal.cut [OF assms(1) _ _ assms(3), where s = s and env = env] assms(2) by auto

theorem fatal_cut_witness:
  "\<exists>s' t. fatal ef_example ''%s'' [AStr (replicate 600 CHR ''x'')] \<lparr>cur_errno = 0, acts = []\<rparr> =
      Inr (s', terminate ef_example True) \<and>
    acts s' = acts \<lparr>cur_errno = 0, acts = []\<rparr> @ [Flush_stdout, To_stderr t, Flush_stderr] \<and>
    length t = 499 \<and> NL \<notin> set t"
  by (rule fatal_cut [where m = "replicate 600 CHR ''x''"]) simp_all

end
