(* ===== verification/SeqMain.thy ===== *)
theory SeqMain
  imports SeqServer ErrorFunctions
begin

text \<open>
  How the two sequence-number servers of \<open>src/SP_HW8\<close> start: the FIFO, the two descriptors on it, and the
  signal of a broken pipe, up to the loop of \<open>SeqServer\<close>.  Which calls the system refuses and with which
  \<open>errno\<close> is an argument.

  The record \<open>sv_proc\<close> holds what the loop relies on: a reader of the FIFO, a writer of its own, so that a
  read never meets the end of the file, and \<open>SIGPIPE\<close> ignored, so that a write to a client that is gone
  fails in place of ending the server.
\<close>

section \<open>The process\<close>

definition SERVER_FIFO :: string where "SERVER_FIFO = ''/tmp/seqnum_sv''"

definition EEXIST :: int where "EEXIST = 17"

text \<open>The flags of an open file, as far as the programs look: \<open>O_NONBLOCK\<close> of Linux.\<close>

definition O_NONBLOCK :: "32 word" where "O_NONBLOCK = 2048"

record sv_proc =
  fifo_made :: bool
  server_fd :: "32 word option"     \<comment> \<open>the flags of the open file, \<open>None\<close> as long as it is closed\<close>
  dummy_fd :: "32 word option"
  sigpipe_ignored :: bool
  seq_num :: "32 word"

definition new_server :: "bool \<Rightarrow> sv_proc" where
  "new_server made = \<lparr>fifo_made = made, server_fd = None, dummy_fd = None, sigpipe_ignored = False, seq_num = 0\<rparr>"

datatype sv_call = Mkfifo | Open_read | Open_write | Signal_call

text \<open>\<open>mkfifo\<close>: a FIFO that is there already is as good as a new one.\<close>

definition make_fifo :: "ef_env \<Rightarrow> (sv_call \<Rightarrow> int option) \<Rightarrow> ef_state \<Rightarrow> sv_proc \<Rightarrow>
    (sv_proc \<Rightarrow> (sv_proc \<times> main_end) res) \<Rightarrow> (sv_proc \<times> main_end) res" where
  "make_fifo env refused s p go =
     (if refused Mkfifo = Some EEXIST then go p
      else or_exit env (refused Mkfifo) s ''mkfifo %s'' [AStr SERVER_FIFO] p (go (p\<lparr>fifo_made := True\<rparr>)))"

section \<open>The server of 44-6\<close>

text \<open>
  Its first \<open>open\<close> returns when somebody opens the FIFO for writing; \<open>None\<close>: nobody does, and the server
  waits.
\<close>

definition server6_start :: "ef_env \<Rightarrow> (sv_call \<Rightarrow> int option) \<Rightarrow> bool \<Rightarrow> ef_state \<Rightarrow> bool \<Rightarrow>
    (sv_proc \<times> main_end) res option" where
  "server6_start env refused writer s made =
     (let open_write = (\<lambda>p. or_exit env (refused Open_write) s ''open %s'' [AStr SERVER_FIFO] p
        (let p = p\<lparr>dummy_fd := Some 0\<rparr> in
         or_exit env (refused Signal_call) s ''signal'' [] p (Inr (p\<lparr>sigpipe_ignored := True\<rparr>, Goes_on))));
          open_read = (\<lambda>p. or_exit env (refused Open_read) s ''open %s'' [AStr SERVER_FIFO] p
        (open_write (p\<lparr>server_fd := Some 0\<rparr>)))
      in if (refused Mkfifo = None \<or> refused Mkfifo = Some EEXIST) \<and> refused Open_read = None \<and> \<not> writer then None
         else Some (make_fifo env refused s (new_server made) open_read))"

section \<open>The server of 44-7\<close>

text \<open>\<open>flags = fcntl(fd, F_GETFL); flags |= O_NONBLOCK; fcntl(fd, F_SETFL, flags)\<close>, where no call is looked at.\<close>

definition set_nonblock :: "32 word option \<Rightarrow> 32 word option" where
  "set_nonblock fd = (case fd of None \<Rightarrow> None | Some flags \<Rightarrow> Some (or flags O_NONBLOCK))"

definition server7_start :: "ef_env \<Rightarrow> (sv_call \<Rightarrow> int option) \<Rightarrow> ef_state \<Rightarrow> bool \<Rightarrow> (sv_proc \<times> main_end) res" where
  "server7_start env refused s made =
     make_fifo env refused s (new_server made) (\<lambda>p.
     or_exit env (refused Open_read) s ''open %s'' [AStr SERVER_FIFO] p
     (let p = p\<lparr>server_fd := Some O_NONBLOCK\<rparr> in
      or_exit env (refused Open_write) s ''open %s'' [AStr SERVER_FIFO] p
     (let p = p\<lparr>dummy_fd := Some O_NONBLOCK\<rparr> in
      or_exit env (refused Signal_call) s ''signal'' [] p
     (let p = p\<lparr>sigpipe_ignored := True\<rparr> in
      Inr (p\<lparr>server_fd := set_nonblock (server_fd p)\<rparr>, Goes_on)))))"

section \<open>Properties\<close>

definition serving :: "sv_proc \<Rightarrow> bool" where
  "serving p \<longleftrightarrow> server_fd p \<noteq> None \<and> dummy_fd p \<noteq> None \<and> sigpipe_ignored p \<and> seq_num p = 0"

lemma make_fifo_goes_on:
  "make_fifo env refused s p go = Inr (p', Goes_on) \<longleftrightarrow>
     (refused Mkfifo = Some EEXIST \<and> go p = Inr (p', Goes_on)) \<or>
     (refused Mkfifo = None \<and> go (p\<lparr>fifo_made := True\<rparr>) = Inr (p', Goes_on))"
  by (auto simp: make_fifo_def or_exit_goes_on)

lemma server6_goes_on:
  "server6_start env refused writer s made = Some (Inr (p, Goes_on)) \<Longrightarrow> serving p \<and> writer"
  by (auto simp: server6_start_def make_fifo_goes_on or_exit_goes_on Let_def serving_def new_server_def split: if_splits)

lemma server7_goes_on:
  "server7_start env refused s made = Inr (p, Goes_on) \<Longrightarrow> serving p \<and> server_fd p = Some O_NONBLOCK"
  by (auto simp: server7_start_def make_fifo_goes_on or_exit_goes_on Let_def serving_def new_server_def set_nonblock_def)


text \<open>
  The two servers start alike: over the same answers of the system, and with a client that opens the FIFO,
  they end with the same report or serve from the number 0, 44-7 with both descriptors non-blocking.
\<close>

definition nonblocking :: "sv_proc \<Rightarrow> sv_proc" where
  "nonblocking p = p\<lparr>server_fd := set_nonblock (server_fd p), dummy_fd := set_nonblock (dummy_fd p)\<rparr>"

theorem servers_start_alike:
  "\<exists>r. server6_start env refused True s made = Some r \<and>
     server7_start env refused s made = bindE r (\<lambda>(p, e). Inr (nonblocking p, e))"
  by (auto simp: server6_start_def server7_start_def make_fifo_def or_exit_def nonblocking_def new_server_def
      set_nonblock_def Let_def bindE_assoc case_prod_unfold split: option.splits)

text \<open>
  A server that has started serves from 0, keeps a writer of its own FIFO open and survives a client that is
  gone; the one of 44-6 has waited for its first client.
\<close>

theorem servers_ready:
  assumes "server6_start env refused writer s made = Some (Inr (p, Goes_on)) \<or>
    server7_start env refused s made = Inr (p, Goes_on) \<and> writer = True"
  shows "serving p \<and> writer"
  using assms server6_goes_on server7_goes_on by blast

end
