(* ===== verification/SeqRace.thy ===== *)
theory SeqRace
  imports SeqServer
begin

text \<open>
  Clients and server of \<open>src/SP_HW8\<close> as processes that run side by side.  Both servers open the FIFO of a
  client with \<open>O_NONBLOCK\<close>, which fails as long as the client does not read it; the client opens it only
  behind its request.  \<open>nonblock\<close> tells 44-7, whose clients do not wait in \<open>open\<close> and whose server goes on
  without a FIFO, from 44-6.

  A step is a call of one process that another can notice, or one of the reads that return at once without
  anything, which clients and server of 44-7 repeat for ever.  All calls that do not depend on the other
  processes succeed.  The lemmas show that a run has only so many steps besides such reads, can always
  come to a state with no others, and who has got a number then: exactly those who had opened their FIFO when
  the server did.
\<close>

section \<open>Processes\<close>

datatype cl_pc = To_send | To_open | Opening | Opened | Got "32 word"

record fifo_cl =
  cl_len :: "32 word"
  cl_pc :: cl_pc
  met :: bool               \<comment> \<open>the server has opened the FIFO for writing\<close>
  in_fifo :: "32 word list"

datatype sv_pc = Listening | Chosen nat | Connected nat

record race =
  cls :: "fifo_cl list"
  sv_at :: sv_pc
  sv_next :: "32 word"
  waiting :: "nat list"     \<comment> \<open>the requests in the FIFO of the server\<close>

definition start_race :: "32 word list \<Rightarrow> race" where
  "start_race lens = \<lparr>cls = map (\<lambda>l. \<lparr>cl_len = l, cl_pc = To_send, met = False, in_fifo = []\<rparr>) lens,
     sv_at = Listening, sv_next = 0, waiting = []\<rparr>"

definition reads_fifo :: "fifo_cl \<Rightarrow> bool" where
  "reads_fifo c \<longleftrightarrow> cl_pc c = Opening \<or> cl_pc c = Opened"

text \<open>The calls of client \<open>i\<close>: it writes its request, opens its FIFO, comes back from a waiting \<open>open\<close>, reads.\<close>

inductive client_step :: "bool \<Rightarrow> nat \<Rightarrow> race \<Rightarrow> race \<Rightarrow> bool" for nonblock where
  cl_send: "i < length (cls s) \<Longrightarrow> cl_pc (cls s ! i) = To_send \<Longrightarrow>
     client_step nonblock i s (s\<lparr>cls := (cls s)[i := (cls s ! i)\<lparr>cl_pc := To_open\<rparr>], waiting := waiting s @ [i]\<rparr>)"
| cl_open: "i < length (cls s) \<Longrightarrow> cl_pc (cls s ! i) = To_open \<Longrightarrow>
     client_step nonblock i s (s\<lparr>cls := (cls s)[i := (cls s ! i)\<lparr>cl_pc := (if nonblock then Opened else Opening)\<rparr>]\<rparr>)"
| cl_opened: "i < length (cls s) \<Longrightarrow> cl_pc (cls s ! i) = Opening \<Longrightarrow> met (cls s ! i) \<Longrightarrow>
     client_step nonblock i s (s\<lparr>cls := (cls s)[i := (cls s ! i)\<lparr>cl_pc := Opened\<rparr>]\<rparr>)"
| cl_read: "i < length (cls s) \<Longrightarrow> cl_pc (cls s ! i) = Opened \<Longrightarrow> in_fifo (cls s ! i) = n # ns \<Longrightarrow>
     client_step nonblock i s (s\<lparr>cls := (cls s)[i := (cls s ! i)\<lparr>cl_pc := Got n, in_fifo := ns\<rparr>]\<rparr>)"
| cl_poll: "i < length (cls s) \<Longrightarrow> cl_pc (cls s ! i) = Opened \<Longrightarrow> in_fifo (cls s ! i) = [] \<Longrightarrow> nonblock \<Longrightarrow>
     client_step nonblock i s s"

text \<open>The calls of the server: it reads a request, opens the FIFO, writes.\<close>

inductive server_step :: "bool \<Rightarrow> race \<Rightarrow> race \<Rightarrow> bool" for nonblock where
  sv_read: "sv_at s = Listening \<Longrightarrow> waiting s = i # is \<Longrightarrow>
     server_step nonblock s (s\<lparr>sv_at := Chosen i, waiting := is\<rparr>)"
| sv_open: "sv_at s = Chosen i \<Longrightarrow> reads_fifo (cls s ! i) \<Longrightarrow>
     server_step nonblock s (s\<lparr>cls := (cls s)[i := (cls s ! i)\<lparr>met := True\<rparr>], sv_at := Connected i\<rparr>)"
| sv_open_fails: "sv_at s = Chosen i \<Longrightarrow> \<not> reads_fifo (cls s ! i) \<Longrightarrow>
     server_step nonblock s (s\<lparr>sv_at := Listening,
       sv_next := (if nonblock then sv_next s + cl_len (cls s ! i) else sv_next s)\<rparr>)"
| sv_write: "sv_at s = Connected i \<Longrightarrow>
     server_step nonblock s (s\<lparr>cls := (cls s)[i := (cls s ! i)\<lparr>in_fifo := in_fifo (cls s ! i) @ [sv_next s]\<rparr>],
       sv_at := Listening, sv_next := sv_next s + cl_len (cls s ! i)\<rparr>)"
| sv_poll: "sv_at s = Listening \<Longrightarrow> waiting s = [] \<Longrightarrow> nonblock \<Longrightarrow> server_step nonblock s s"

inductive race_step :: "bool \<Rightarrow> race \<Rightarrow> race \<Rightarrow> bool" for nonblock where
  by_client: "client_step nonblock i s t \<Longrightarrow> race_step nonblock s t"
| by_server: "server_step nonblock s t \<Longrightarrow> race_step nonblock s t"

lemmas c_send = by_client [OF cl_send]
lemmas c_open = by_client [OF cl_open]
lemmas c_opened = by_client [OF cl_opened]
lemmas c_read = by_client [OF cl_read]
lemmas s_read = by_server [OF sv_read]
lemmas s_open = by_server [OF sv_open]
lemmas s_open_fails = by_server [OF sv_open_fails]
lemmas s_write = by_server [OF sv_write]

lemmas race_intros = c_send c_open c_opened c_read s_read s_open s_open_fails s_write

lemma race_cases [consumes 1, case_names polls c_send c_open c_opened c_read s_read s_open s_open_fails s_write]:
  assumes "race_step nb s t" and "t = s \<Longrightarrow> P"
    and "\<And>i. t = s\<lparr>cls := (cls s)[i := (cls s ! i)\<lparr>cl_pc := To_open\<rparr>], waiting := waiting s @ [i]\<rparr> \<Longrightarrow>
      i < length (cls s) \<Longrightarrow> cl_pc (cls s ! i) = To_send \<Longrightarrow> P"
    and "\<And>i. t = s\<lparr>cls := (cls s)[i := (cls s ! i)\<lparr>cl_pc := (if nb then Opened else Opening)\<rparr>]\<rparr> \<Longrightarrow>
      i < length (cls s) \<Longrightarrow> cl_pc (cls s ! i) = To_open \<Longrightarrow> P"
    and "\<And>i. t = s\<lparr>cls := (cls s)[i := (cls s ! i)\<lparr>cl_pc := Opened\<rparr>]\<rparr> \<Longrightarrow>
      i < length (cls s) \<Longrightarrow> cl_pc (cls s ! i) = Opening \<Longrightarrow> met (cls s ! i) \<Longrightarrow> P"
    and "\<And>i n ns. t = s\<lparr>cls := (cls s)[i := (cls s ! i)\<lparr>cl_pc := Got n, in_fifo := ns\<rparr>]\<rparr> \<Longrightarrow>
      i < length (cls s) \<Longrightarrow> cl_pc (cls s ! i) = Opened \<Longrightarrow> in_fifo (cls s ! i) = n # ns \<Longrightarrow> P"
    and "\<And>i is. t = s\<lparr>sv_at := Chosen i, waiting := is\<rparr> \<Longrightarrow>
      sv_at s = Listening \<Longrightarrow> waiting s = i # is \<Longrightarrow> P"
    and "\<And>i. t = s\<lparr>cls := (cls s)[i := (cls s ! i)\<lparr>met := True\<rparr>], sv_at := Connected i\<rparr> \<Longrightarrow>
      sv_at s = Chosen i \<Longrightarrow> reads_fifo (cls s ! i) \<Longrightarrow> P"
    and "\<And>i. t = s\<lparr>sv_at := Listening,
       sv_next := (if nb then sv_next s + cl_len (cls s ! i) else sv_next s)\<rparr> \<Longrightarrow>
      sv_at s = Chosen i \<Longrightarrow> \<not> reads_fifo (cls s ! i) \<Longrightarrow> P"
    and "\<And>i. t = s\<lparr>cls := (cls s)[i := (cls s ! i)\<lparr>in_fifo := in_fifo (cls s ! i) @ [sv_next s]\<rparr>],
       sv_at := Listening, sv_next := sv_next s + cl_len (cls s ! i)\<rparr> \<Longrightarrow>
      sv_at s = Connected i \<Longrightarrow> P"
  shows P
  using assms(1)
proof cases
  case (by_client i)
  then show ?thesis by cases (use assms(2-6) in blast)+
next
  case by_server
  then show ?thesis by cases (use assms(2,7-10) in blast)+
qed

section \<open>One client and its request\<close>

text \<open>Where the request of a client is: nowhere before it is sent and after the server has dealt with it.\<close>

datatype place = Nowhere | Queued | Taken | Meeting

definition place_of :: "nat \<Rightarrow> race \<Rightarrow> place" where
  "place_of i s =
     (if sv_at s = Chosen i then Taken else if sv_at s = Connected i then Meeting
      else if i \<in> set (waiting s) then Queued else Nowhere)"

text \<open>What the steps are for one client.\<close>

inductive cl_move :: "bool \<Rightarrow> place \<Rightarrow> fifo_cl \<Rightarrow> place \<Rightarrow> fifo_cl \<Rightarrow> bool" for nonblock where
  m_same: "cl_move nonblock p c p c"
| m_send: "cl_pc c = To_send \<Longrightarrow> cl_move nonblock p c Queued (c\<lparr>cl_pc := To_open\<rparr>)"
| m_open: "cl_pc c = To_open \<Longrightarrow> cl_move nonblock p c p (c\<lparr>cl_pc := (if nonblock then Opened else Opening)\<rparr>)"
| m_opened: "cl_pc c = Opening \<Longrightarrow> met c \<Longrightarrow> cl_move nonblock p c p (c\<lparr>cl_pc := Opened\<rparr>)"
| m_read: "cl_pc c = Opened \<Longrightarrow> in_fifo c = n # ns \<Longrightarrow> cl_move nonblock p c p (c\<lparr>cl_pc := Got n, in_fifo := ns\<rparr>)"
| m_taken: "cl_move nonblock Queued c Taken c"
| m_met: "reads_fifo c \<Longrightarrow> cl_move nonblock Taken c Meeting (c\<lparr>met := True\<rparr>)"
| m_dropped: "\<not> reads_fifo c \<Longrightarrow> cl_move nonblock Taken c Nowhere c"
| m_written: "cl_move nonblock Meeting c Nowhere (c\<lparr>in_fifo := in_fifo c @ [n]\<rparr>)"

text \<open>
  The FIFO of a client: empty until the server has met its reader there, and written to once then.
\<close>

definition fifo_ok :: "place \<Rightarrow> fifo_cl \<Rightarrow> bool" where
  "fifo_ok p c \<longleftrightarrow>
     (case cl_pc c of
        To_send \<Rightarrow> p = Nowhere \<and> \<not> met c \<and> in_fifo c = []
      | To_open \<Rightarrow> p \<noteq> Meeting \<and> \<not> met c \<and> in_fifo c = []
      | Got _ \<Rightarrow> p = Nowhere \<and> met c \<and> in_fifo c = []
      | _ \<Rightarrow> (case p of Queued \<Rightarrow> \<not> met c \<and> in_fifo c = [] | Taken \<Rightarrow> \<not> met c \<and> in_fifo c = []
                    | Meeting \<Rightarrow> met c \<and> in_fifo c = []
                    | Nowhere \<Rightarrow> (if met c then length (in_fifo c) = 1 else in_fifo c = [])))"

text \<open>
  A client that is served: it reads its FIFO in time, or has its number in the FIFO or in hand; and one
  that is lost: its request is gone and nobody has written to its FIFO.
\<close>

definition served :: "place \<Rightarrow> fifo_cl \<Rightarrow> bool" where
  "served p c \<longleftrightarrow> (\<exists>n. cl_pc c = Got n) \<or> reads_fifo c \<and> (p \<noteq> Nowhere \<or> met c)"

definition lost :: "place \<Rightarrow> fifo_cl \<Rightarrow> bool" where
  "lost p c \<longleftrightarrow> p = Nowhere \<and> \<not> met c \<and> in_fifo c = [] \<and> (cl_pc c = To_open \<or> reads_fifo c)"

lemma fifo_move: "cl_move nb p c q d \<Longrightarrow> fifo_ok p c \<Longrightarrow> fifo_ok q d"
  by (induction rule: cl_move.induct)
    (auto simp: fifo_ok_def reads_fifo_def split: cl_pc.splits place.splits if_splits)

lemma served_move: "cl_move nb p c q d \<Longrightarrow> fifo_ok p c \<Longrightarrow> served p c \<Longrightarrow> served q d"
  by (induction rule: cl_move.induct) (auto simp: served_def reads_fifo_def fifo_ok_def)

lemma lost_move: "cl_move nb p c q d \<Longrightarrow> lost p c \<Longrightarrow> lost q d"
  by (induction rule: cl_move.induct) (auto simp: lost_def reads_fifo_def)

section \<open>Invariant\<close>

text \<open>No request is in two places, and every one is of a client.\<close>

fun in_hand :: "sv_pc \<Rightarrow> nat list" where
  "in_hand Listening = []"
| "in_hand (Chosen i) = [i]"
| "in_hand (Connected i) = [i]"

definition pending :: "race \<Rightarrow> nat list" where
  "pending s = in_hand (sv_at s) @ waiting s"

definition places_ok :: "race \<Rightarrow> bool" where
  "places_ok s \<longleftrightarrow> distinct (pending s) \<and> (\<forall>i \<in> set (pending s). i < length (cls s)) \<and>
     (\<forall>i < length (cls s). fifo_ok (place_of i s) (cls s ! i))"

lemma places_start: "places_ok (start_race lens)"
  by (auto simp: places_ok_def start_race_def pending_def fifo_ok_def place_of_def)

lemma step_length: "race_step nb s t \<Longrightarrow> length (cls t) = length (cls s)"
  by (erule race_cases) auto

lemma places_fifo: "places_ok s \<Longrightarrow> i < length (cls s) \<Longrightarrow> fifo_ok (place_of i s) (cls s ! i)"
  by (simp add: places_ok_def)

lemma places_pending: "places_ok s \<Longrightarrow> i \<in> set (pending s) \<Longrightarrow> i < length (cls s)"
  by (simp add: places_ok_def)

lemma pending_place: "i \<in> set (pending s) \<longleftrightarrow> place_of i s \<noteq> Nowhere"
  by (cases "sv_at s") (auto simp: pending_def place_of_def)

lemma unsent_not_pending:
  assumes "places_ok s" "i < length (cls s)" "cl_pc (cls s ! i) = To_send"
  shows "i \<notin> set (pending s)"
  using places_fifo [OF assms(1,2)] assms(3) by (simp add: pending_place fifo_ok_def)

lemma step_move:
  assumes "race_step nb s t" "places_ok s" "i < length (cls s)"
  shows "cl_move nb (place_of i s) (cls s ! i) (place_of i t) (cls t ! i)"
  using assms(1)
proof (cases rule: race_cases)
  case polls
  then show ?thesis by (simp add: m_same)
next
  case (c_send j)
  with unsent_not_pending [OF assms(2), of j] show ?thesis
    by (cases "sv_at s"; cases "i = j") (auto simp: place_of_def pending_def intro: cl_move.intros)
next
  case (c_open j)
  have "place_of i t = place_of i s" using c_open by (simp add: place_of_def)
  with c_open m_open [of "cls s ! j" nb "place_of j s"] show ?thesis
    by (cases "i = j"; cases nb) (simp_all add: m_same)
next
  case (c_opened j)
  then show ?thesis by (cases "i = j") (auto simp: place_of_def intro: cl_move.intros)
next
  case (c_read j n ns)
  then show ?thesis by (cases "i = j") (auto simp: place_of_def intro: cl_move.intros)
next
  case (s_read j js)
  with assms(2) show ?thesis
    by (cases "i = j") (auto simp: place_of_def places_ok_def pending_def intro: cl_move.intros)
next
  case (s_open j)
  with assms show ?thesis by (cases "i = j") (auto simp: place_of_def intro: cl_move.intros)
next
  case (s_open_fails j)
  with assms(2) show ?thesis
    by (cases "i = j") (auto simp: place_of_def places_ok_def pending_def intro: cl_move.intros)
next
  case (s_write j)
  with assms(2,3) show ?thesis
    by (cases "i = j") (auto simp: place_of_def places_ok_def pending_def intro: cl_move.intros)
qed

lemma pending_step:
  assumes "race_step nb s t"
  shows "pending t = pending s \<or> pending t = tl (pending s) \<or>
    (\<exists>i < length (cls s). pending t = pending s @ [i] \<and> cl_pc (cls s ! i) = To_send)"
  using assms by (cases rule: race_cases) (auto simp: pending_def)

lemma places_step:
  assumes "race_step nb s t" "places_ok s"
  shows "places_ok t"
proof -
  from assms(2) have old: "distinct (pending s) \<and> (\<forall>i \<in> set (pending s). i < length (cls s))"
    by (simp add: places_ok_def)
  have "distinct (pending t) \<and> (\<forall>i \<in> set (pending t). i < length (cls s))"
    using pending_step [OF assms(1)]
  proof (elim disjE exE conjE)
    fix i
    assume "i < length (cls s)" "pending t = pending s @ [i]" "cl_pc (cls s ! i) = To_send"
    with old unsent_not_pending [OF assms(2)] show ?thesis by simp
  next
    assume "pending t = tl (pending s)"
    with old show ?thesis by (cases "pending s") simp_all
  qed (use old in simp)
  with fifo_move [OF step_move [OF assms] places_fifo [OF assms(2)]] step_length [OF assms(1)]
  show ?thesis by (simp add: places_ok_def)
qed

text \<open>A run, with the number of its steps that change something.\<close>

inductive race_run :: "bool \<Rightarrow> nat \<Rightarrow> race \<Rightarrow> race \<Rightarrow> bool" for nonblock where
  race_none: "race_run nonblock 0 s s"
| race_more: "race_step nonblock s t \<Longrightarrow> race_run nonblock n t u \<Longrightarrow>
     race_run nonblock (if t = s then n else Suc n) s u"

lemma race_goes: "race_step nb s t \<Longrightarrow> t \<noteq> s \<Longrightarrow> race_run nb n t u \<Longrightarrow> race_run nb (Suc n) s u"
  using race_more [of nb s t n u] by simp

lemma places_run: "race_run nb n s t \<Longrightarrow> places_ok s \<Longrightarrow> places_ok t"
  by (induction rule: race_run.induct) (auto intro: places_step)

lemma length_run: "race_run nb n s t \<Longrightarrow> length (cls t) = length (cls s)"
  by (induction rule: race_run.induct) (auto dest: step_length)

section \<open>Every run comes to rest\<close>

fun cl_left :: "cl_pc \<Rightarrow> nat" where
  "cl_left To_send = 7"
| "cl_left To_open = 3"
| "cl_left Opening = 2"
| "cl_left Opened = 1"
| "cl_left (Got _) = 0"

fun sv_left :: "sv_pc \<Rightarrow> nat" where
  "sv_left Listening = 0"
| "sv_left (Chosen _) = 2"
| "sv_left (Connected _) = 1"

definition race_left :: "race \<Rightarrow> nat" where
  "race_left s = sum_list (map (cl_left \<circ> cl_pc) (cls s)) + 3 * length (waiting s) + sv_left (sv_at s)"

lemma sum_list_lower:
  fixes f :: "'a \<Rightarrow> nat"
  assumes "i < length xs" "f x + d \<le> f (xs ! i)"
  shows "sum_list (map f (xs[i := x])) + d \<le> sum_list (map f xs)"
proof -
  have "sum_list (map f (xs[i := x])) + f (xs ! i) = sum_list (map f xs) + f x"
    using assms(1) by (induction xs arbitrary: i) (auto split: nat.splits)
  with assms(2) show ?thesis by linarith
qed

lemma step_left:
  assumes "race_step nb s t" "places_ok s" "t \<noteq> s"
  shows "race_left t < race_left s"
  using assms(1)
proof (cases rule: race_cases)
  case polls
  with assms(3) show ?thesis by simp
next
  case (c_send i)
  with sum_list_lower [of i "cls s" "cl_left \<circ> cl_pc" "(cls s ! i)\<lparr>cl_pc := To_open\<rparr>" 4]
  show ?thesis by (simp add: race_left_def)
next
  case (c_open i)
  with sum_list_lower [of i "cls s" "cl_left \<circ> cl_pc"
      "(cls s ! i)\<lparr>cl_pc := (if nb then Opened else Opening)\<rparr>" 1]
  show ?thesis by (cases nb) (simp_all add: race_left_def)
next
  case (c_opened i)
  with sum_list_lower [of i "cls s" "cl_left \<circ> cl_pc" "(cls s ! i)\<lparr>cl_pc := Opened\<rparr>" 1]
  show ?thesis by (simp add: race_left_def)
next
  case (c_read i n ns)
  with sum_list_lower [of i "cls s" "cl_left \<circ> cl_pc" "(cls s ! i)\<lparr>cl_pc := Got n, in_fifo := ns\<rparr>" 1]
  show ?thesis by (simp add: race_left_def)
next
  case (s_open i)
  with assms(2) sum_list_lower [of i "cls s" "cl_left \<circ> cl_pc" "(cls s ! i)\<lparr>met := True\<rparr>" 0]
  show ?thesis by (simp add: race_left_def places_ok_def pending_def)
next
  case (s_write i)
  with assms(2) sum_list_lower [of i "cls s" "cl_left \<circ> cl_pc"
      "(cls s ! i)\<lparr>in_fifo := in_fifo (cls s ! i) @ [sv_next s]\<rparr>" 0]
  show ?thesis by (simp add: race_left_def places_ok_def pending_def)
qed (simp_all add: race_left_def)

lemma run_left: "race_run nb n s t \<Longrightarrow> places_ok s \<Longrightarrow> race_left t + n \<le> race_left s"
proof (induction rule: race_run.induct)
  case (race_more s t n u)
  from step_left [OF race_more(1,4)] places_step [OF race_more(1,4)] race_more.IH show ?case by (cases "t = s") auto
qed simp

lemma start_left: "race_left (start_race lens) = 7 * length lens"
  by (induction lens) (simp_all add: race_left_def start_race_def)

section \<open>Who gets a number\<close>

lemma served_run:
  "race_run nb n s t \<Longrightarrow> places_ok s \<Longrightarrow> i < length (cls s) \<Longrightarrow> served (place_of i s) (cls s ! i) \<Longrightarrow>
    served (place_of i t) (cls t ! i)"
  by (induction rule: race_run.induct) (auto simp: step_length intro: places_step served_move places_fifo step_move)

lemma lost_run:
  "race_run nb n s t \<Longrightarrow> places_ok s \<Longrightarrow> i < length (cls s) \<Longrightarrow> lost (place_of i s) (cls s ! i) \<Longrightarrow>
    lost (place_of i t) (cls t ! i)"
  by (induction rule: race_run.induct) (auto simp: step_length intro: places_step lost_move step_move)


section \<open>The end of a run\<close>

text \<open>Nothing but reads that get nothing can happen any more.\<close>

definition at_rest :: "bool \<Rightarrow> race \<Rightarrow> bool" where
  "at_rest nonblock s \<longleftrightarrow> (\<forall>t. race_step nonblock s t \<longrightarrow> t = s)"

lemma rest_same: "at_rest nb s \<Longrightarrow> race_step nb s t \<Longrightarrow> f t = f s"
  by (auto simp: at_rest_def)

text \<open>Nothing is under way at rest, and every client has its number or is lost.\<close>

lemma rest_listening:
  assumes "at_rest nb s"
  shows "sv_at s = Listening \<and> waiting s = []"
proof (cases "sv_at s")
  case Listening
  then show ?thesis using rest_same [OF assms s_read, where f = sv_at] by (cases "waiting s") auto
next
  case (Chosen i)
  then show ?thesis
    using rest_same [OF assms s_open, where f = sv_at] rest_same [OF assms s_open_fails, where f = sv_at] by auto
next
  case (Connected i)
  then show ?thesis using rest_same [OF assms s_write, where f = sv_at] by auto
qed

lemma rest_place: "at_rest nb s \<Longrightarrow> place_of i s = Nowhere"
  using rest_listening [of nb s] by (simp add: place_of_def)

lemma rest_client:
  assumes "at_rest nb s" "places_ok s" "i < length (cls s)"
  shows "(\<exists>n. cl_pc (cls s ! i) = Got n) \<or> lost (place_of i s) (cls s ! i)"
proof -
  note fifo = places_fifo [OF assms(2,3), unfolded rest_place [OF assms(1)] fifo_ok_def]
  show ?thesis
  proof (cases "cl_pc (cls s ! i)")
    case To_send
    then show ?thesis using rest_same [OF assms(1) c_send [OF assms(3)], where f = "\<lambda>s. cl_pc (cls s ! i)"] assms(3) by simp
  next
    case To_open
    then show ?thesis using rest_same [OF assms(1) c_open [OF assms(3)], where f = "\<lambda>s. cl_pc (cls s ! i)"] assms(3)
      by (simp split: if_splits)
  next
    case Opening
    then show ?thesis
      using rest_same [OF assms(1) c_opened [OF assms(3)], where f = "\<lambda>s. cl_pc (cls s ! i)"] assms(3) fifo
      by (auto simp: lost_def reads_fifo_def rest_place [OF assms(1)] split: if_splits)
  next
    case Opened
    then show ?thesis
      using rest_same [OF assms(1) c_read [OF assms(3)], where f = "\<lambda>s. cl_pc (cls s ! i)"] assms(3) fifo
      by (cases "in_fifo (cls s ! i)")
        (auto simp: lost_def reads_fifo_def rest_place [OF assms(1)] split: if_splits)
  qed auto
qed

lemma served_not_lost: "served p c \<Longrightarrow> \<not> lost p c"
  by (auto simp: served_def lost_def reads_fifo_def)

lemma lost_no_number: "lost p c \<Longrightarrow> cl_pc c \<noteq> Got k"
  by (auto simp: lost_def reads_fifo_def)

lemma start_run:
  assumes "race_run nb n (start_race lens) s"
  shows "places_ok s \<and> length (cls s) = length lens"
  using places_run [OF assms places_start] length_run [OF assms] by (simp add: start_race_def)

lemma rests: "places_ok s \<Longrightarrow> \<exists>n t. race_run nb n s t \<and> at_rest nb t"
proof (induction "race_left s" arbitrary: s rule: less_induct)
  case less
  show ?case
  proof (cases "at_rest nb s")
    case False
    then obtain u where u: "race_step nb s u" "u \<noteq> s" by (auto simp: at_rest_def)
    from less(1) [OF step_left [OF u(1) less(2) u(2)] places_step [OF u(1) less(2)]] u(1)
    show ?thesis by (blast intro: race_run.intros)
  qed (blast intro: race_run.intros)
qed

section \<open>The numbers\<close>

lemma map_update_same: "f x = f (xs ! i) \<Longrightarrow> map f (xs[i := x]) = map f xs"
  by (cases "i < length xs") (auto simp: nth_list_update intro!: nth_equalityI)

lemma step_lens: "race_step nb s t \<Longrightarrow> map cl_len (cls t) = map cl_len (cls s)"
  by (cases rule: race_cases) (auto simp: map_update_same simp del: list.map)

text \<open>The clients whose numbers the server has used up.\<close>

definition spent :: "bool \<Rightarrow> race \<Rightarrow> nat set" where
  "spent nonblock s = {i. i < length (cls s) \<and> place_of i s = Nowhere \<and>
     (met (cls s ! i) \<or> nonblock \<and> cl_pc (cls s ! i) \<noteq> To_send)}"


text \<open>The server is done with a request: it has written its number, or in 44-7 gone on without a FIFO.\<close>

definition deals :: "bool \<Rightarrow> race \<Rightarrow> race \<Rightarrow> nat \<Rightarrow> bool" where
  "deals nonblock s t i \<longleftrightarrow> sv_at t = Listening \<and> (sv_at s = Connected i \<or> nonblock \<and> sv_at s = Chosen i)"

lemma spent_step:
  assumes "race_step nb s t" "places_ok s"
  shows "i \<in> spent nb t \<longleftrightarrow> i \<in> spent nb s \<or> deals nb s t i"
proof (cases "i < length (cls s)")
  case True
  note fifo = places_fifo [OF assms(2) True]
  note move = step_move [OF assms True]
  show ?thesis
    using assms(1)
  proof (cases rule: race_cases)
    case polls
    then show ?thesis by (cases "sv_at s") (auto simp: deals_def)
  next
    case (c_send j)
    with fifo True show ?thesis
      by (cases "i = j") (auto simp: spent_def deals_def place_of_def fifo_ok_def split: if_splits)
  next
    case (c_open j)
    with True show ?thesis by (cases "i = j") (auto simp: spent_def deals_def place_of_def)
  next
    case (c_opened j)
    with True show ?thesis by (cases "i = j") (auto simp: spent_def deals_def place_of_def)
  next
    case (c_read j n ns)
    with True show ?thesis by (cases "i = j") (auto simp: spent_def deals_def place_of_def)
  next
    case (s_read j js)
    with True assms(2) show ?thesis
      by (cases "i = j") (auto simp: spent_def deals_def place_of_def places_ok_def pending_def)
  next
    case (s_open j)
    with True show ?thesis by (cases "i = j") (auto simp: spent_def deals_def place_of_def)
  next
    case (s_open_fails j)
    with True assms(2) fifo show ?thesis
      by (cases "i = j")
        (auto simp: spent_def deals_def place_of_def places_ok_def pending_def fifo_ok_def reads_fifo_def
          split: cl_pc.splits)
  next
    case (s_write j)
    with True assms(2) fifo show ?thesis
      by (cases "i = j")
        (auto simp: spent_def deals_def place_of_def places_ok_def pending_def fifo_ok_def split: cl_pc.splits)
  qed
next
  case False
  with places_pending [OF assms(2), of i] step_length [OF assms(1)] show ?thesis
    by (cases "sv_at s") (auto simp: spent_def deals_def pending_def)
qed

lemma next_deals: "race_step nb s t \<Longrightarrow> deals nb s t i \<Longrightarrow> sv_next t = sv_next s + cl_len (cls s ! i)"
  by (cases rule: race_cases) (auto simp: deals_def)

lemma next_else: "race_step nb s t \<Longrightarrow> \<forall>i. \<not> deals nb s t i \<Longrightarrow> sv_next t = sv_next s"
  by (cases rule: race_cases) (auto simp: deals_def)

definition numbers_used :: "bool \<Rightarrow> race \<Rightarrow> bool" where
  "numbers_used nonblock s \<longleftrightarrow> sv_next s = (\<Sum>i \<in> spent nonblock s. cl_len (cls s ! i))"

lemma finite_spent: "finite (spent nb s)"
  by (simp add: spent_def)

lemma lens_step: "race_step nb s t \<Longrightarrow> i < length (cls s) \<Longrightarrow> cl_len (cls t ! i) = cl_len (cls s ! i)"
  using step_lens [of nb s t] step_length [of nb s t] nth_map [of i "cls s" cl_len] nth_map [of i "cls t" cl_len]
  by simp

lemma numbers_step:
  assumes "race_step nb s t" "places_ok s" "numbers_used nb s"
  shows "numbers_used nb t"
proof -
  have same: "(\<Sum>i \<in> spent nb s. cl_len (cls t ! i)) = sv_next s"
    using assms(3) lens_step [OF assms(1)] by (auto simp: numbers_used_def spent_def intro!: sum.cong)
  show ?thesis
  proof (cases "\<exists>j. deals nb s t j")
    case True
    then obtain j where j: "deals nb s t j" by blast
    have only: "deals nb s t i \<longleftrightarrow> i = j" for i using j by (auto simp: deals_def)
    have "place_of j s \<noteq> Nowhere" using j by (auto simp: deals_def place_of_def)
    then have j': "j \<notin> spent nb s" "j < length (cls s)"
      using places_pending [OF assms(2)] pending_place by (auto simp: spent_def)
    have "spent nb t = insert j (spent nb s)" using spent_step [OF assms(1,2)] only by blast
    then show ?thesis
      using same j' next_deals [OF assms(1) j] finite_spent lens_step [OF assms(1) j'(2)]
      by (simp add: numbers_used_def add.commute)
  next
    case False
    then have "spent nb t = spent nb s" using spent_step [OF assms(1,2)] by blast
    with False same next_else [OF assms(1)] show ?thesis by (simp add: numbers_used_def)
  qed
qed

lemma numbers_run: "race_run nb n s t \<Longrightarrow> places_ok s \<Longrightarrow> numbers_used nb s \<Longrightarrow> numbers_used nb t"
  by (induction rule: race_run.induct) (auto intro: places_step numbers_step)

lemma lens_run: "race_run nb n s t \<Longrightarrow> map cl_len (cls t) = map cl_len (cls s)"
  by (induction rule: race_run.induct) (auto dest: step_lens)


section \<open>Properties\<close>

text \<open>
  C37: In a run of clients and server there are at most seven steps for each client besides reads that get
  nothing, and it can always go on to a state where there are no others.  There each client has either its
  number or none for ever, and the server of 44-7 has used up the numbers of all clients, that of
  44-6 only the numbers of those it has answered.
\<close>
theorem race_decided:
  assumes "race_run nb n (start_race lens) t"
  shows "n \<le> 7 * length lens \<and> (\<exists>m u. race_run nb m t u \<and> at_rest nb u) \<and>
    (at_rest nb t \<longrightarrow>
      sv_next t = (\<Sum>i | i < length lens \<and> (nb \<or> (\<exists>k. cl_pc (cls t ! i) = Got k)). lens ! i) \<and>
      (\<forall>i < length lens. (\<exists>k. cl_pc (cls t ! i) = Got k) \<noteq>
        (\<forall>m u k. race_run nb m t u \<longrightarrow> cl_pc (cls u ! i) \<noteq> Got k)))"
proof -
  note ok = start_run [OF assms(1)]
  have "sv_next t = (\<Sum>i | i < length lens \<and> (nb \<or> (\<exists>k. cl_pc (cls t ! i) = Got k)). lens ! i) \<and>
    (\<forall>i < length lens. (\<exists>k. cl_pc (cls t ! i) = Got k) \<noteq>
      (\<forall>m u k. race_run nb m t u \<longrightarrow> cl_pc (cls u ! i) \<noteq> Got k))" if rest: "at_rest nb t"
  proof -
    have ends: "(\<exists>k. cl_pc (cls t ! i) = Got k) \<noteq> lost (place_of i t) (cls t ! i)" if "i < length lens" for i
      using rest_client [OF rest, of i] ok that served_not_lost [of "place_of i t" "cls t ! i"]
      by (auto simp: served_def)
    have never: "\<forall>m u k. race_run nb m t u \<longrightarrow> cl_pc (cls u ! i) \<noteq> Got k"
      if "lost (place_of i t) (cls t ! i)" "i < length lens" for i
      using lost_no_number [OF lost_run [OF _ _ _ that(1)]] ok that(2) by simp
    have sent: "cl_pc (cls t ! i) \<noteq> To_send" if "i < length lens" for i
      using ends [OF that] by (auto simp: lost_def reads_fifo_def)
    have met: "met (cls t ! i) \<longleftrightarrow> (\<exists>k. cl_pc (cls t ! i) = Got k)" if "i < length lens" for i
      using ends [OF that] places_fifo [of t i] ok that by (auto simp: lost_def fifo_ok_def)
    have spent: "spent nb t = {i. i < length lens \<and> (nb \<or> (\<exists>k. cl_pc (cls t ! i) = Got k))}"
      using sent met ok by (auto simp: spent_def rest_place [OF rest])
    have "map cl_len (cls t) = lens"
      using lens_run [OF assms(1)] by (simp add: start_race_def o_def)
    then have lens: "cl_len (cls t ! i) = lens ! i" if "i < length lens" for i
      using that ok nth_map [of i "cls t" cl_len] by simp
    have "spent nb (start_race lens) = {}" by (auto simp: spent_def start_race_def)
    then have "numbers_used nb (start_race lens)" by (simp add: numbers_used_def start_race_def)
    from numbers_run [OF assms(1) places_start this]
    have "sv_next t = (\<Sum>i \<in> spent nb t. lens ! i)"
      using lens spent by (simp add: numbers_used_def)
    moreover have "(\<exists>k. cl_pc (cls t ! i) = Got k) \<noteq> (\<forall>m u k. race_run nb m t u \<longrightarrow> cl_pc (cls u ! i) \<noteq> Got k)"
      if "i < length lens" for i
      using ends [OF that] never [OF _ that] race_none [of nb t] by blast
    ultimately show ?thesis using spent by simp
  qed
  with run_left [OF assms(1) places_start] rests [of t nb] ok show ?thesis by (simp add: start_left)
qed

text \<open>
  a client that reads its FIFO when the server opens it gets its number: the run can go on to an end, and
  the client has its number at each end.
\<close>
theorem reading_client_served:
  assumes "race_run nb n (start_race lens) s" "sv_at s = Chosen i" "reads_fifo (cls s ! i)"
  shows "(\<exists>m t. race_run nb m s t \<and> at_rest nb t) \<and>
    (\<forall>m t. race_run nb m s t \<and> at_rest nb t \<longrightarrow> (\<exists>k. cl_pc (cls t ! i) = Got k))"
proof -
  note ok = start_run [OF assms(1)]
  have i: "i < length (cls s)"
    using places_pending [of s i] ok assms(2) by (simp add: pending_def)
  have here: "served (place_of i s) (cls s ! i)"
    using assms(2,3) by (simp add: served_def place_of_def)
  have "\<exists>k. cl_pc (cls t ! i) = Got k" if run: "race_run nb m s t" and rest: "at_rest nb t" for m t
    using rest_client [OF rest places_run [OF run], of i] ok i length_run [OF run]
      served_not_lost [OF served_run [OF run _ i here]] by auto
  with rests [of s nb] ok show ?thesis by blast
qed

text \<open>
  C39: making the FIFO before the request does not avoid the race: when the server has taken the request up
  and its next call comes while the client has not opened its FIFO yet, the opening without blocking fails,
  and in no continuation does the client ever get a number.
\<close>
theorem early_server_loses_client:
  assumes "race_run nb n (start_race lens) s" "sv_at s = Chosen i" "cl_pc (cls s ! i) = To_open"
  shows "(\<exists>u. server_step nb s u) \<and>
    (\<forall>u m t k. server_step nb s u \<and> race_run nb m u t \<longrightarrow> cl_pc (cls t ! i) \<noteq> Got k)"
proof -
  define v where "v = s\<lparr>sv_at := Listening,
    sv_next := (if nb then sv_next s + cl_len (cls s ! i) else sv_next s)\<rparr>"
  note ok = start_run [OF assms(1)]
  have i: "i < length (cls s)"
    using places_pending [of s i] ok assms(2) by (simp add: pending_def)
  have step: "server_step nb s v"
    unfolding v_def using assms(2,3) by (intro sv_open_fails) (simp_all add: reads_fifo_def)
  have only: "u = v" if "server_step nb s u" for u
    using that by cases (use assms(2,3) in \<open>simp_all add: v_def reads_fifo_def\<close>)
  have "i \<notin> set (waiting s)"
    using ok assms(2) by (simp add: places_ok_def pending_def)
  then have "lost (place_of i v) (cls v ! i)"
    using places_fifo [of s i] ok i assms(3) by (simp add: lost_def v_def place_of_def fifo_ok_def)
  then have "lost (place_of i t) (cls t ! i)" if "race_run nb m v t" for m t
    using lost_run [OF that] places_step [OF by_server [OF step]] ok i by (simp add: v_def)
  then have "cl_pc (cls t ! i) \<noteq> Got k" if "race_run nb m v t" for m t k
    using that lost_no_number by blast
  with step only show ?thesis by blast
qed

lemma race_end: "s = t \<Longrightarrow> race_run nb 0 s t"
  by (simp add: race_none)

text \<open>One client that asks for two numbers: the server takes its request up early, or when it reads its FIFO.\<close>

definition one_client :: "cl_pc \<Rightarrow> bool \<Rightarrow> 32 word list \<Rightarrow> sv_pc \<Rightarrow> 32 word \<Rightarrow> race" where
  "one_client pc m ns at n = \<lparr>cls = [\<lparr>cl_len = 2, cl_pc = pc, met = m, in_fifo = ns\<rparr>], sv_at = at, sv_next = n,
     waiting = []\<rparr>"

lemma taken_early: "race_run nb (Suc (Suc 0)) (start_race [2]) (one_client To_open False [] (Chosen 0) 0)"
  unfolding start_race_def one_client_def
  apply (rule race_goes, rule c_send [of 0], simp, simp, simp)
  apply (rule race_goes, rule s_read [of _ 0 "[]"], simp, simp, simp)
  apply (rule race_end, simp)
  done

lemma taken_in_time:
  "race_run False (Suc (Suc (Suc 0))) (start_race [2]) (one_client Opening False [] (Chosen 0) 0)"
  unfolding start_race_def one_client_def
  apply (rule race_goes, rule c_send [of 0], simp, simp, simp)
  apply (rule race_goes, rule c_open [of 0], simp, simp, simp)
  apply (rule race_goes, rule s_read [of _ 0 "[]"], simp, simp, simp)
  apply (rule race_end, simp)
  done

lemma lost_number:
  "race_run True (Suc (Suc (Suc (Suc 0)))) (start_race [2]) (one_client Opened False [] Listening 2)"
  unfolding start_race_def one_client_def
  apply (rule race_goes, rule c_send [of 0], simp, simp, simp)
  apply (rule race_goes, rule s_read [of _ 0 "[]"], simp, simp, simp)
  apply (rule race_goes, rule s_open_fails [of _ 0], simp, simp add: reads_fifo_def, simp)
  apply (rule race_goes, rule c_open [of 0], simp, simp, simp)
  apply (rule race_end, simp)
  done

lemma lost_number_rests: "at_rest True (one_client Opened False [] Listening 2)"
  unfolding at_rest_def one_client_def by (auto elim!: race_cases)

text \<open>The number of a client that is lost is used up.\<close>
lemma race_decided_witness:
  "\<exists>t. race_run True 4 (start_race [2]) t \<and> at_rest True t \<and> sv_next t = 2 \<and>
    (\<forall>m u k. race_run True m t u \<longrightarrow> cl_pc (cls u ! 0) \<noteq> Got k)"
proof -
  have four: "4 = Suc (Suc (Suc (Suc 0)))" by simp
  show ?thesis
    using race_decided [OF lost_number] lost_number lost_number_rests unfolding four
    by (intro exI [of _ "one_client Opened False [] Listening 2"]) (auto simp: one_client_def)
qed

lemma reading_client_served_witness:
  "\<exists>m t k. race_run False m (one_client Opening False [] (Chosen 0) 0) t \<and> at_rest False t \<and>
     cl_pc (cls t ! 0) = Got k"
proof -
  have "sv_at (one_client Opening False [] (Chosen 0) 0) = Chosen 0"
    "reads_fifo (cls (one_client Opening False [] (Chosen 0) 0) ! 0)"
    by (simp_all add: one_client_def reads_fifo_def)
  from reading_client_served [OF taken_in_time this] show ?thesis by blast
qed

lemma early_server_loses_client_witness:
  "\<exists>u. server_step True (one_client To_open False [] (Chosen 0) 0) u \<and>
    (\<forall>m t k. race_run True m u t \<longrightarrow> cl_pc (cls t ! 0) \<noteq> Got k)"
proof -
  have "sv_at (one_client To_open False [] (Chosen 0) 0) = Chosen 0"
    "cl_pc (cls (one_client To_open False [] (Chosen 0) 0) ! 0) = To_open"
    by (simp_all add: one_client_def)
  from early_server_loses_client [OF taken_early this, where nb = True] show ?thesis by blast
qed

end
