(* ===== verification/ShmTransfer.thy ===== *)
theory ShmTransfer
  imports Prelude
begin

text \<open>
  The transfer of a file through shared memory, \<open>src/SP_HW9/54\<close>: the binary semaphores of
  \<open>binary_sems.c\<close>, the writer \<open>svshm_xfr_writer.c\<close> and the reader \<open>svshm_xfr_reader.c\<close>.

  The two processes are a step relation on one state: the values of the two semaphores, the shared
  segment, and for each process its program counter, its end of the pipe and its counters.  A step is
  one access to something shared or one system call, so every interleaving of the two is a run.
  The counters are C ints, 32-bit words.
\<close>

section \<open>binary_sems.c\<close>

text \<open>
  The semaphores' values are natural numbers.  An attempt of \<open>semop\<close> is interrupted by a signal,
  fails for another reason, or goes through; one that would go through on a semaphore of value 0
  waits, and the result is \<open>None\<close>.
\<close>

datatype attempt = Eintr | Fails | Through

definition bsRetryOnEintr :: bool where "bsRetryOnEintr = True"

definition initSemAvailable :: nat where "initSemAvailable = 1"

definition initSemInUse :: nat where "initSemInUse = 0"

fun reserveSem :: "bool \<Rightarrow> attempt list \<Rightarrow> nat \<Rightarrow> (int \<times> nat) option" where
  "reserveSem retry [] v = None"
| "reserveSem retry (Eintr # os) v = (if \<not> retry then Some (- 1, v) else reserveSem retry os v)"
| "reserveSem retry (Fails # os) v = Some (- 1, v)"
| "reserveSem retry (Through # os) v = (if v = 0 then None else Some (0, v - 1))"

definition releaseSem :: "nat \<Rightarrow> nat" where
  "releaseSem v = v + 1"

section \<open>The state of the two processes\<close>

definition BUF_SIZE :: nat where "BUF_SIZE = 1024"

datatype writer_pc = W_Reserve | W_Read | W_Release | W_Test | W_Last | W_Done | W_Dead

datatype reader_pc = R_Reserve | R_Test | R_Write | R_Release | R_Last | R_Done | R_Dead

record xfer =
  w_sem :: nat
  r_sem :: nat
  sh_cnt :: int
  sh_buf :: "char list"
  w_pc :: writer_pc
  x_in :: string
  w_bytes :: "32 word"
  w_xfrs :: "32 word"
  r_pc :: reader_pc
  x_out :: string
  r_bytes :: "32 word"
  r_xfrs :: "32 word"

definition start_xfer :: "string \<Rightarrow> xfer" where
  "start_xfer inp =
     \<lparr>w_sem = initSemAvailable, r_sem = initSemInUse, sh_cnt = 0, sh_buf = zeros BUF_SIZE,
      w_pc = W_Reserve, x_in = inp, w_bytes = 0, w_xfrs = 0,
      r_pc = R_Reserve, x_out = [], r_bytes = 0, r_xfrs = 0\<rparr>"

section \<open>The steps\<close>

text \<open>
  \<open>read\<close> gets any non-empty piece of what is left of at most \<open>BUF_SIZE\<close> bytes, and nothing only
  at the end of the input.
\<close>

definition read_piece :: "string \<Rightarrow> string \<Rightarrow> string \<Rightarrow> bool" where
  "read_piece inp piece left \<longleftrightarrow>
     inp = piece @ left \<and> length piece \<le> BUF_SIZE \<and> (piece = [] \<longrightarrow> inp = [])"

text \<open>The writer: the transfer loop and the last reserve.\<close>

inductive w_step :: "xfer \<Rightarrow> xfer \<Rightarrow> bool" where
  w_reserve: "w_pc s = W_Reserve \<Longrightarrow> reserveSem bsRetryOnEintr os (w_sem s) = Some (0, v) \<Longrightarrow>
    w_step s (s\<lparr>w_sem := v, w_pc := W_Read\<rparr>)"
| w_read: "w_pc s = W_Read \<Longrightarrow> read_piece (x_in s) piece left \<Longrightarrow>
    w_step s (s\<lparr>sh_cnt := int (length piece), sh_buf := piece @ drop (length piece) (sh_buf s),
      x_in := left, w_pc := W_Release\<rparr>)"
| w_release: "w_pc s = W_Release \<Longrightarrow>
    w_step s (s\<lparr>r_sem := releaseSem (r_sem s), w_pc := W_Test\<rparr>)"
| w_test_end: "w_pc s = W_Test \<Longrightarrow> sh_cnt s = 0 \<Longrightarrow> w_step s (s\<lparr>w_pc := W_Last\<rparr>)"
| w_test_more: "w_pc s = W_Test \<Longrightarrow> sh_cnt s \<noteq> 0 \<Longrightarrow>
    w_step s (s\<lparr>w_xfrs := w_xfrs s + 1, w_bytes := w_bytes s + word_of_int (sh_cnt s),
      w_pc := W_Reserve\<rparr>)"
| w_last: "w_pc s = W_Last \<Longrightarrow> reserveSem bsRetryOnEintr os (w_sem s) = Some (0, v) \<Longrightarrow>
    w_step s (s\<lparr>w_sem := v, w_pc := W_Done\<rparr>)"

text \<open>The reader: the transfer loop and the last release.\<close>

inductive r_step :: "xfer \<Rightarrow> xfer \<Rightarrow> bool" where
  r_reserve: "r_pc s = R_Reserve \<Longrightarrow> reserveSem bsRetryOnEintr os (r_sem s) = Some (0, v) \<Longrightarrow>
    r_step s (s\<lparr>r_sem := v, r_pc := R_Test\<rparr>)"
| r_test_end: "r_pc s = R_Test \<Longrightarrow> sh_cnt s = 0 \<Longrightarrow> r_step s (s\<lparr>r_pc := R_Last\<rparr>)"
| r_test_more: "r_pc s = R_Test \<Longrightarrow> sh_cnt s \<noteq> 0 \<Longrightarrow>
    r_step s (s\<lparr>r_bytes := r_bytes s + word_of_int (sh_cnt s), r_pc := R_Write\<rparr>)"
| r_write: "r_pc s = R_Write \<Longrightarrow>
    r_step s (s\<lparr>x_out := x_out s @ take (nat (sh_cnt s)) (sh_buf s), r_pc := R_Release\<rparr>)"
| r_release: "r_pc s = R_Release \<Longrightarrow>
    r_step s (s\<lparr>w_sem := releaseSem (w_sem s), r_xfrs := r_xfrs s + 1, r_pc := R_Reserve\<rparr>)"
| r_last: "r_pc s = R_Last \<Longrightarrow>
    r_step s (s\<lparr>w_sem := releaseSem (w_sem s), r_pc := R_Done\<rparr>)"

definition ok_step :: "xfer \<Rightarrow> xfer \<Rightarrow> bool" where
  "ok_step s s' \<longleftrightarrow> w_step s s' \<or> r_step s s'"

text \<open>
  A failed \<open>read\<close>, \<open>write\<close> or \<open>semop\<close> ends its process with a message; so does, of the reader, the
  \<open>munmap\<close> in front of the last release.
\<close>

inductive w_fail :: "xfer \<Rightarrow> xfer \<Rightarrow> bool" where
  w_reserve_fails: "w_pc s \<in> {W_Reserve, W_Last} \<Longrightarrow>
    reserveSem bsRetryOnEintr os (w_sem s) = Some (- 1, v) \<Longrightarrow>
    w_fail s (s\<lparr>w_sem := v, w_pc := W_Dead\<rparr>)"
| w_read_fails: "w_pc s = W_Read \<Longrightarrow> w_fail s (s\<lparr>sh_cnt := - 1, w_pc := W_Dead\<rparr>)"
| w_release_fails: "w_pc s = W_Release \<Longrightarrow> w_fail s (s\<lparr>w_pc := W_Dead\<rparr>)"

inductive r_fail :: "xfer \<Rightarrow> xfer \<Rightarrow> bool" where
  r_reserve_fails: "r_pc s = R_Reserve \<Longrightarrow>
    reserveSem bsRetryOnEintr os (r_sem s) = Some (- 1, v) \<Longrightarrow>
    r_fail s (s\<lparr>r_sem := v, r_pc := R_Dead\<rparr>)"
| r_write_fails: "r_pc s = R_Write \<Longrightarrow> n < nat (sh_cnt s) \<Longrightarrow>
    r_fail s (s\<lparr>x_out := x_out s @ take n (sh_buf s), r_pc := R_Dead\<rparr>)"
| r_release_fails: "r_pc s \<in> {R_Release, R_Last} \<Longrightarrow> r_fail s (s\<lparr>r_pc := R_Dead\<rparr>)"

definition xfer_step :: "xfer \<Rightarrow> xfer \<Rightarrow> bool" where
  "xfer_step s s' \<longleftrightarrow> ok_step s s' \<or> w_fail s s' \<or> r_fail s s'"

text \<open>Case analysis over the steps of both processes.\<close>

lemma ok_step_cases [consumes 1, case_names w_reserve w_read w_release w_test_end w_test_more w_last
    r_reserve r_test_end r_test_more r_write r_release r_last]:
  "ok_step s s' \<Longrightarrow>
   (\<And>s os v. w_pc s = W_Reserve \<Longrightarrow> reserveSem bsRetryOnEintr os (w_sem s) = Some (0, v) \<Longrightarrow>
    P s (s\<lparr>w_sem := v, w_pc := W_Read\<rparr>)) \<Longrightarrow>
   (\<And>s piece left. w_pc s = W_Read \<Longrightarrow> read_piece (x_in s) piece left \<Longrightarrow>
    P s (s\<lparr>sh_cnt := int (length piece), sh_buf := piece @ drop (length piece) (sh_buf s),
      x_in := left, w_pc := W_Release\<rparr>)) \<Longrightarrow>
   (\<And>s. w_pc s = W_Release \<Longrightarrow>
    P s (s\<lparr>r_sem := releaseSem (r_sem s), w_pc := W_Test\<rparr>)) \<Longrightarrow>
   (\<And>s. w_pc s = W_Test \<Longrightarrow> sh_cnt s = 0 \<Longrightarrow> P s (s\<lparr>w_pc := W_Last\<rparr>)) \<Longrightarrow>
   (\<And>s. w_pc s = W_Test \<Longrightarrow> sh_cnt s \<noteq> 0 \<Longrightarrow>
    P s (s\<lparr>w_xfrs := w_xfrs s + 1, w_bytes := w_bytes s + word_of_int (sh_cnt s),
      w_pc := W_Reserve\<rparr>)) \<Longrightarrow>
   (\<And>s os v. w_pc s = W_Last \<Longrightarrow> reserveSem bsRetryOnEintr os (w_sem s) = Some (0, v) \<Longrightarrow>
    P s (s\<lparr>w_sem := v, w_pc := W_Done\<rparr>)) \<Longrightarrow>
   (\<And>s os v. r_pc s = R_Reserve \<Longrightarrow> reserveSem bsRetryOnEintr os (r_sem s) = Some (0, v) \<Longrightarrow>
    P s (s\<lparr>r_sem := v, r_pc := R_Test\<rparr>)) \<Longrightarrow>
   (\<And>s. r_pc s = R_Test \<Longrightarrow> sh_cnt s = 0 \<Longrightarrow> P s (s\<lparr>r_pc := R_Last\<rparr>)) \<Longrightarrow>
   (\<And>s. r_pc s = R_Test \<Longrightarrow> sh_cnt s \<noteq> 0 \<Longrightarrow>
    P s (s\<lparr>r_bytes := r_bytes s + word_of_int (sh_cnt s), r_pc := R_Write\<rparr>)) \<Longrightarrow>
   (\<And>s. r_pc s = R_Write \<Longrightarrow>
    P s (s\<lparr>x_out := x_out s @ take (nat (sh_cnt s)) (sh_buf s), r_pc := R_Release\<rparr>)) \<Longrightarrow>
   (\<And>s. r_pc s = R_Release \<Longrightarrow>
    P s (s\<lparr>w_sem := releaseSem (w_sem s), r_xfrs := r_xfrs s + 1, r_pc := R_Reserve\<rparr>)) \<Longrightarrow>
   (\<And>s. r_pc s = R_Last \<Longrightarrow>
    P s (s\<lparr>w_sem := releaseSem (w_sem s), r_pc := R_Done\<rparr>)) \<Longrightarrow>
   P s s'"
  unfolding ok_step_def by (elim disjE w_step.cases r_step.cases) simp_all

lemma xfer_step_cases [consumes 1, case_names fine w_reserve_fails w_read_fails w_release_fails
    r_reserve_fails r_write_fails r_release_fails]:
  "xfer_step s s' \<Longrightarrow>
   (\<And>s s'. ok_step s s' \<Longrightarrow> P s s') \<Longrightarrow>
   (\<And>s os v. w_pc s \<in> {W_Reserve, W_Last} \<Longrightarrow>
    reserveSem bsRetryOnEintr os (w_sem s) = Some (- 1, v) \<Longrightarrow>
    P s (s\<lparr>w_sem := v, w_pc := W_Dead\<rparr>)) \<Longrightarrow>
   (\<And>s. w_pc s = W_Read \<Longrightarrow> P s (s\<lparr>sh_cnt := - 1, w_pc := W_Dead\<rparr>)) \<Longrightarrow>
   (\<And>s. w_pc s = W_Release \<Longrightarrow> P s (s\<lparr>w_pc := W_Dead\<rparr>)) \<Longrightarrow>
   (\<And>s os v. r_pc s = R_Reserve \<Longrightarrow>
    reserveSem bsRetryOnEintr os (r_sem s) = Some (- 1, v) \<Longrightarrow>
    P s (s\<lparr>r_sem := v, r_pc := R_Dead\<rparr>)) \<Longrightarrow>
   (\<And>s n. r_pc s = R_Write \<Longrightarrow> n < nat (sh_cnt s) \<Longrightarrow>
    P s (s\<lparr>x_out := x_out s @ take n (sh_buf s), r_pc := R_Dead\<rparr>)) \<Longrightarrow>
   (\<And>s. r_pc s \<in> {R_Release, R_Last} \<Longrightarrow> P s (s\<lparr>r_pc := R_Dead\<rparr>)) \<Longrightarrow>
   P s s'"
  unfolding xfer_step_def by (elim disjE w_fail.cases r_fail.cases) simp_all

definition reaches :: "xfer \<Rightarrow> xfer \<Rightarrow> bool" where
  "reaches s s' \<longleftrightarrow> xfer_step\<^sup>*\<^sup>* s s'"

section \<open>Safety\<close>

lemma reserveSem_ok: "reserveSem retry os v = Some (0, v') \<Longrightarrow> 0 < v \<and> v' = v - 1"
  by (induction retry os v rule: reserveSem.induct) (auto split: if_splits)

lemma reserveSem_failed: "reserveSem retry os v = Some (- 1, v') \<Longrightarrow> v' = v"
  by (induction retry os v rule: reserveSem.induct) (auto split: if_splits)

lemma reserveSem_through: "0 < v \<Longrightarrow> reserveSem retry [Through] v = Some (0, v - 1)"
  by simp

definition holds_w :: "xfer \<Rightarrow> bool" where
  "holds_w s \<longleftrightarrow> w_pc s = W_Read \<or> w_pc s = W_Release"

definition holds_r :: "xfer \<Rightarrow> bool" where
  "holds_r s \<longleftrightarrow> r_pc s = R_Test \<or> r_pc s = R_Write \<or> r_pc s = R_Release \<or> r_pc s = R_Last"

definition tokens :: "xfer \<Rightarrow> nat" where
  "tokens s = w_sem s + r_sem s + of_bool (holds_w s) + of_bool (holds_r s)"

text \<open>The segment holds a piece the reader has not written yet.\<close>

definition full :: "xfer \<Rightarrow> bool" where
  "full s \<longleftrightarrow> w_pc s = W_Release \<or> 0 < r_sem s \<or> r_pc s = R_Test \<or> r_pc s = R_Write"

definition in_flight :: "xfer \<Rightarrow> string" where
  "in_flight s = (if full s then take (nat (sh_cnt s)) (sh_buf s) else [])"

text \<open>Whatever a dead process has taken and not handed on is lost.\<close>

definition data_ok :: "string \<Rightarrow> xfer \<Rightarrow> bool" where
  "data_ok inp s \<longleftrightarrow>
     (\<exists>lost. inp = x_out s @ (if r_pc s = R_Dead then [] else in_flight s) @ lost @ x_in s \<and>
        (lost = [] \<or> w_pc s = W_Dead \<or> r_pc s = R_Dead))"

definition safe :: "string \<Rightarrow> xfer \<Rightarrow> bool" where
  "safe inp s \<longleftrightarrow> tokens s \<le> 1 \<and> length (sh_buf s) = BUF_SIZE \<and>
     (full s \<longrightarrow> 0 \<le> sh_cnt s \<and> sh_cnt s \<le> int BUF_SIZE) \<and>
     data_ok inp s"

lemmas shm_defs = tokens_def holds_w_def holds_r_def full_def in_flight_def releaseSem_def

text \<open>The steps that leave the data alone.\<close>

lemma safe_frame:
  assumes "safe inp s" and "tokens s' \<le> tokens s" and "full s' = full s" and "r_pc s' = R_Dead \<longleftrightarrow> r_pc s = R_Dead"
    and "w_pc s = W_Dead \<longrightarrow> w_pc s' = W_Dead"
    and "sh_buf s' = sh_buf s" and "sh_cnt s' = sh_cnt s" and "x_in s' = x_in s" and "x_out s' = x_out s"
  shows "safe inp s'"
  using assms by (auto simp: safe_def data_ok_def in_flight_def)

text \<open>The reader dies: what it has not written is lost.\<close>

lemma safe_dead:
  assumes "safe inp s" and "tokens s' \<le> tokens s" and "full s' \<longrightarrow> full s" and "r_pc s' = R_Dead"
    and "sh_buf s' = sh_buf s" and "sh_cnt s' = sh_cnt s" and "x_in s' = x_in s"
    and "\<exists>lost. x_out s @ in_flight s = x_out s' @ lost" and "r_pc s \<noteq> R_Dead"
  shows "safe inp s'"
proof -
  obtain lost where l: "x_out s @ in_flight s = x_out s' @ lost" using assms(8) by blast
  obtain more_lost where "inp = x_out s @ in_flight s @ more_lost @ x_in s"
    using assms(1,9) by (auto simp: safe_def data_ok_def)
  then have "inp = (x_out s @ in_flight s) @ more_lost @ x_in s" by simp
  then have "inp = x_out s' @ (lost @ more_lost) @ x_in s'" using assms(7) by (simp add: l)
  then have "data_ok inp s'" using assms(4) unfolding data_ok_def by auto
  then show ?thesis using assms(1-6) by (simp add: safe_def)
qed

lemma safe_read:
  assumes "safe inp s" and "w_pc s = W_Read" and "read_piece (x_in s) piece left"
  shows "safe inp (s\<lparr>sh_cnt := int (length piece), sh_buf := piece @ drop (length piece) (sh_buf s),
    x_in := left, w_pc := W_Release\<rparr>)"
proof -
  have "tokens s \<le> 1" using assms(1) by (simp add: safe_def)
  then have e: "\<not> full s" "w_sem s = 0" "r_sem s = 0" "\<not> holds_r s" "r_pc s \<noteq> R_Test" "r_pc s \<noteq> R_Write"
    using assms(2) by (auto simp: shm_defs split: if_splits)
  have p: "x_in s = piece @ left" "length piece \<le> BUF_SIZE" using assms(3) by (auto simp: read_piece_def)
  obtain lost where l: "inp = x_out s @ lost @ x_in s" "lost = [] \<or> r_pc s = R_Dead"
    using assms(1,2) e(1) by (auto simp: safe_def data_ok_def in_flight_def)
  show ?thesis
  proof (cases "r_pc s = R_Dead")
    case True
    from l p have "inp = x_out s @ (lost @ piece) @ left" by simp
    with e p assms(1) True show ?thesis by (auto simp: safe_def data_ok_def tokens_def holds_w_def holds_r_def)
  next
    case False
    with e p l assms(1) show ?thesis
      by (simp add: safe_def data_ok_def tokens_def holds_w_def holds_r_def full_def in_flight_def)
  qed
qed

text \<open>The writer dies behind a read: the piece in the segment is lost.\<close>

lemma safe_unreleased:
  assumes "safe inp s" and "w_pc s = W_Release"
  shows "safe inp (s\<lparr>w_pc := W_Dead\<rparr>)"
proof -
  have t: "tokens s \<le> 1" using assms(1) by (simp add: safe_def)
  then have e: "r_sem s = 0" "r_pc s \<noteq> R_Test" "r_pc s \<noteq> R_Write"
    using assms(2) by (auto simp: shm_defs split: if_splits)
  obtain lost where "inp = x_out s @ (if r_pc s = R_Dead then [] else in_flight s) @ lost @ x_in s"
    using assms(1) unfolding safe_def data_ok_def by blast
  then have "inp = x_out s @ ((if r_pc s = R_Dead then [] else in_flight s) @ lost) @ x_in s" by simp
  then have "data_ok inp (s\<lparr>w_pc := W_Dead\<rparr>)"
    using e unfolding data_ok_def
    by (intro exI [of _ "(if r_pc s = R_Dead then [] else in_flight s) @ lost"] conjI) (simp_all add: full_def in_flight_def)
  then show ?thesis using assms t e
    by (auto simp: safe_def tokens_def holds_w_def holds_r_def full_def)
qed

lemma safe_write:
  assumes "safe inp s" and "r_pc s = R_Write"
  shows "safe inp (s\<lparr>x_out := x_out s @ take (nat (sh_cnt s)) (sh_buf s), r_pc := R_Release\<rparr>)"
proof -
  have "tokens s \<le> 1" using assms(1) by (simp add: safe_def)
  then have e: "w_pc s \<noteq> W_Release" "w_pc s \<noteq> W_Read" "r_sem s = 0" "w_sem s = 0"
    using assms(2) by (auto simp: shm_defs split: if_splits)
  with assms show ?thesis
    by (auto simp: safe_def data_ok_def tokens_def holds_w_def holds_r_def full_def in_flight_def)
qed

lemma safe_last:
  assumes "safe inp s" and "r_pc s = R_Test" and "sh_cnt s = 0"
  shows "safe inp (s\<lparr>r_pc := R_Last\<rparr>)"
proof -
  have "tokens s \<le> 1" using assms(1) by (simp add: safe_def)
  then have e: "w_pc s \<noteq> W_Release" "w_pc s \<noteq> W_Read" "r_sem s = 0" "w_sem s = 0"
    using assms(2) by (auto simp: shm_defs split: if_splits)
  with assms show ?thesis
    by (auto simp: safe_def data_ok_def tokens_def holds_w_def holds_r_def full_def in_flight_def)
qed

lemma safe_ok_step: "ok_step s s' \<Longrightarrow> safe inp s \<Longrightarrow> safe inp s'"
proof (induction rule: ok_step_cases)
  case w_read
  then show ?case by (intro safe_read)
next
  case r_write
  then show ?case by (intro safe_write)
next
  case r_test_end
  then show ?case by (intro safe_last)
next
  case (w_reserve s os v)
  then show ?case using reserveSem_ok [OF w_reserve.hyps(2)]
    by (intro safe_frame [OF w_reserve.prems]) (simp_all add: tokens_def holds_w_def holds_r_def full_def)
next
  case (w_release s)
  then show ?case
    by (intro safe_frame [OF w_release.prems])
      (simp_all add: tokens_def holds_w_def holds_r_def full_def releaseSem_def)
next
  case (w_test_end s)
  then show ?case
    by (intro safe_frame [OF w_test_end.prems]) (simp_all add: tokens_def holds_w_def holds_r_def full_def)
next
  case (w_test_more s)
  then show ?case
    by (intro safe_frame [OF w_test_more.prems]) (simp_all add: tokens_def holds_w_def holds_r_def full_def)
next
  case (w_last s os v)
  then show ?case using reserveSem_ok [OF w_last.hyps(2)]
    by (intro safe_frame [OF w_last.prems]) (simp_all add: tokens_def holds_w_def holds_r_def full_def)
next
  case (r_reserve s os v)
  then show ?case using reserveSem_ok [OF r_reserve.hyps(2)]
    by (intro safe_frame [OF r_reserve.prems]) (simp_all add: tokens_def holds_w_def holds_r_def full_def)
next
  case (r_test_more s)
  then show ?case
    by (intro safe_frame [OF r_test_more.prems]) (simp_all add: tokens_def holds_w_def holds_r_def full_def)
next
  case (r_release s)
  then show ?case
    by (intro safe_frame [OF r_release.prems])
      (simp_all add: tokens_def holds_w_def holds_r_def full_def releaseSem_def)
next
  case (r_last s)
  then show ?case
    by (intro safe_frame [OF r_last.prems])
      (simp_all add: tokens_def holds_w_def holds_r_def full_def releaseSem_def)
qed

lemma safe_step: "xfer_step s s' \<Longrightarrow> safe inp s \<Longrightarrow> safe inp s'"
proof (induction rule: xfer_step_cases)
  case (fine s s')
  then show ?case by (rule safe_ok_step)
next
  case (w_reserve_fails s os v)
  then show ?case by (intro safe_frame [OF w_reserve_fails.prems]) (auto simp: shm_defs dest!: reserveSem_failed)
next
  case (w_read_fails s)
  have "tokens s \<le> 1" using w_read_fails.prems by (simp add: safe_def)
  then have "\<not> full s" using w_read_fails.hyps by (auto simp: shm_defs split: if_splits)
  with w_read_fails show ?case
    by (auto simp: safe_def data_ok_def tokens_def holds_w_def holds_r_def full_def in_flight_def)
next
  case (w_release_fails s)
  then show ?case by (intro safe_unreleased)
next
  case (r_release_fails s)
  then show ?case by (intro safe_dead [OF r_release_fails.prems]) (auto simp: shm_defs)
next
  case (r_reserve_fails s os v)
  then show ?case by (intro safe_dead [OF r_reserve_fails.prems]) (auto simp: shm_defs dest!: reserveSem_failed)
next
  case (r_write_fails s n)
  have "take (nat (sh_cnt s)) (sh_buf s) = take n (sh_buf s) @ drop n (take (nat (sh_cnt s)) (sh_buf s))"
    using r_write_fails.hyps(2) append_take_drop_id [of n "take (nat (sh_cnt s)) (sh_buf s)"]
    by (simp add: min_def)
  with r_write_fails show ?case by (intro safe_dead [OF r_write_fails.prems]) (auto simp: shm_defs)
qed

lemma safe_start: "safe inp (start_xfer inp)"
  by (simp add: safe_def data_ok_def start_xfer_def shm_defs initSemAvailable_def initSemInUse_def)

lemma safe_reaches: "reaches (start_xfer inp) s \<Longrightarrow> safe inp s"
  unfolding reaches_def by (induction rule: rtranclp_induct) (auto intro: safe_start safe_step)

section \<open>Progress, while nothing fails\<close>

definition alive :: "xfer \<Rightarrow> bool" where
  "alive s \<longleftrightarrow> w_pc s \<noteq> W_Dead \<and> r_pc s \<noteq> R_Dead"

definition one_token :: "xfer \<Rightarrow> bool" where
  "one_token s \<longleftrightarrow> tokens s + of_bool (w_pc s = W_Done) = 1"

text \<open>Where the two processes are, relative to the end of the input.\<close>

definition phase :: "xfer \<Rightarrow> bool" where
  "phase s \<longleftrightarrow>
     (sh_cnt s = 0 \<longrightarrow> w_pc s \<in> {W_Release, W_Test, W_Last, W_Done} \<longrightarrow> x_in s = []) \<and>
     (w_pc s \<in> {W_Last, W_Done} \<longrightarrow> sh_cnt s = 0) \<and>
     (r_pc s \<in> {R_Write, R_Release} \<longrightarrow> sh_cnt s \<noteq> 0) \<and>
     (w_pc s = W_Reserve \<longrightarrow> full s \<longrightarrow> sh_cnt s \<noteq> 0) \<and>
     (r_pc s \<in> {R_Last, R_Done} \<longrightarrow> sh_cnt s = 0 \<and> r_sem s = 0 \<and> w_pc s \<in> {W_Test, W_Last, W_Done}) \<and>
     (w_pc s \<in> {W_Test, W_Last} \<longrightarrow> sh_cnt s = 0 \<longrightarrow> w_sem s = 0 \<or> r_pc s = R_Done) \<and>
     (w_pc s = W_Done \<longrightarrow> r_pc s = R_Done)"

text \<open>The counters: bytes in, bytes out, and the number of transfers on both sides.\<close>

definition w_counted :: "string \<Rightarrow> xfer \<Rightarrow> bool" where
  "w_counted inp s \<longleftrightarrow>
     w_bytes s + (if w_pc s \<in> {W_Release, W_Test} then word_of_int (sh_cnt s) else 0) +
       word_of_nat (length (x_in s)) = word_of_nat (length inp)"

definition r_counted :: "xfer \<Rightarrow> bool" where
  "r_counted s \<longleftrightarrow>
     r_bytes s = word_of_nat (length (x_out s)) + (if r_pc s = R_Write then word_of_int (sh_cnt s) else 0)"

definition same_xfrs :: "xfer \<Rightarrow> bool" where
  "same_xfrs s \<longleftrightarrow>
     w_xfrs s + (if w_pc s \<in> {W_Release, W_Test} \<and> sh_cnt s \<noteq> 0 then 1 else 0) =
       r_xfrs s + (if full s \<and> sh_cnt s \<noteq> 0 \<or> r_pc s = R_Release then 1 else 0)"

lemma one_token_le: "one_token s \<Longrightarrow> tokens s \<le> 1"
  by (simp add: one_token_def)

lemma one_token_step: "ok_step s s' \<Longrightarrow> one_token s \<Longrightarrow> one_token s'"
proof (induction rule: ok_step_cases)
  case (w_reserve s os v)
  have "holds_r (s\<lparr>w_sem := v, w_pc := W_Read\<rparr>) = holds_r s" by (simp add: holds_r_def)
  with w_reserve show ?case using reserveSem_ok [OF w_reserve.hyps(2)]
    by (cases "holds_r s") (simp_all add: one_token_def tokens_def holds_w_def)
next
  case (w_last s os v)
  have "holds_r (s\<lparr>w_sem := v, w_pc := W_Done\<rparr>) = holds_r s" by (simp add: holds_r_def)
  with w_last show ?case using reserveSem_ok [OF w_last.hyps(2)]
    by (cases "holds_r s") (simp_all add: one_token_def tokens_def holds_w_def)
next
  case (r_reserve s os v)
  have "holds_w (s\<lparr>r_sem := v, r_pc := R_Test\<rparr>) = holds_w s" by (simp add: holds_w_def)
  with r_reserve show ?case using reserveSem_ok [OF r_reserve.hyps(2)]
    by (cases "holds_w s"; cases "w_pc s = W_Done") (simp_all add: one_token_def tokens_def holds_r_def)
qed (simp_all add: one_token_def tokens_def holds_w_def holds_r_def releaseSem_def)

lemma alive_iff: "ok_step s s' \<Longrightarrow> alive s' \<longleftrightarrow> alive s"
  by (induction rule: ok_step_cases) (auto simp: alive_def)

lemma alive_step: "ok_step s s' \<Longrightarrow> alive s \<Longrightarrow> alive s'"
  by (simp add: alive_iff)

lemma alive_before: "xfer_step s s' \<Longrightarrow> alive s' \<Longrightarrow> alive s \<and> ok_step s s'"
proof (induction rule: xfer_step_cases)
  case (fine s s')
  then show ?case by (simp add: alive_iff)
qed (simp_all add: alive_def)

lemma writer_alone:
  "tokens s \<le> 1 \<Longrightarrow> holds_w s \<Longrightarrow>
   w_sem s = 0 \<and> r_sem s = 0 \<and> r_pc s \<noteq> R_Test \<and> r_pc s \<noteq> R_Write \<and> r_pc s \<noteq> R_Release \<and> r_pc s \<noteq> R_Last"
  by (auto simp: tokens_def holds_r_def split: if_splits)

lemma reader_alone:
  "tokens s \<le> 1 \<Longrightarrow> holds_r s \<Longrightarrow>
   w_sem s = 0 \<and> r_sem s = 0 \<and> w_pc s \<noteq> W_Read \<and> w_pc s \<noteq> W_Release"
  by (auto simp: tokens_def holds_w_def split: if_splits)

lemma phase_step: "ok_step s s' \<Longrightarrow> w_pc s \<noteq> W_Dead \<Longrightarrow> tokens s \<le> 1 \<Longrightarrow> phase s \<Longrightarrow> phase s'"
proof (induction rule: ok_step_cases)
  case (w_reserve s os v)
  then show ?case by (simp add: phase_def full_def)
next
  case (w_read s piece left)
  then show ?case using writer_alone [of s] by (auto simp: phase_def holds_w_def full_def read_piece_def)
next
  case (w_release s)
  then show ?case using writer_alone [of s] by (simp add: phase_def holds_w_def full_def)
next
  case (w_test_end s)
  then show ?case by (simp add: phase_def full_def)
next
  case (w_test_more s)
  then show ?case by (simp add: phase_def full_def)
next
  case (w_last s os v)
  then show ?case using reserveSem_ok [OF w_last.hyps(2)] by (simp add: phase_def full_def)
next
  case (r_reserve s os v)
  then show ?case using reserveSem_ok [OF r_reserve.hyps(2)] by (simp add: phase_def full_def)
next
  case (r_test_end s)
  then show ?case using reader_alone [of s]
    by (cases "w_pc s") (simp_all add: phase_def holds_r_def full_def)
next
  case (r_test_more s)
  then show ?case by (simp add: phase_def full_def)
next
  case (r_write s)
  then show ?case by (simp add: phase_def full_def)
next
  case (r_release s)
  then show ?case by (simp add: phase_def full_def)
next
  case (r_last s)
  then show ?case using reader_alone [of s] by (auto simp: phase_def holds_r_def full_def)
qed

lemma w_counted_step: "ok_step s s' \<Longrightarrow> w_counted inp s \<Longrightarrow> w_counted inp s'"
proof (induction rule: ok_step_cases)
  case (w_read s piece left)
  then show ?case by (simp add: w_counted_def read_piece_def add.assoc)
qed (auto simp: w_counted_def split: if_splits)

lemma r_counted_step:
  "ok_step s s' \<Longrightarrow> tokens s \<le> 1 \<Longrightarrow> safe inp s \<Longrightarrow> r_counted s \<Longrightarrow> r_counted s'"
proof (induction rule: ok_step_cases)
  case (w_read s piece left)
  then show ?case using writer_alone [of s] by (simp add: r_counted_def holds_w_def)
next
  case (r_write s)
  then have n: "nat (sh_cnt s) \<le> length (sh_buf s)" "0 \<le> sh_cnt s"
    by (auto simp: safe_def full_def)
  then have "length (take (nat (sh_cnt s)) (sh_buf s)) = nat (sh_cnt s)" by simp
  moreover have "word_of_nat (nat (sh_cnt s)) = (word_of_int (sh_cnt s) :: 32 word)"
    using n(2) by (rule of_nat_nat)
  ultimately show ?case using r_write.hyps r_write.prems(3)
    by (simp only: r_counted_def xfer.simps length_append of_nat_add reader_pc.simps if_True if_False simp_thms)
       simp
qed (simp_all add: r_counted_def)

lemma same_xfrs_step:
  "ok_step s s' \<Longrightarrow> tokens s \<le> 1 \<Longrightarrow> phase s \<Longrightarrow> same_xfrs s \<Longrightarrow> same_xfrs s'"
proof (induction rule: ok_step_cases)
  case (w_read s piece left)
  then show ?case using writer_alone [of s] by (simp add: same_xfrs_def holds_w_def full_def)
next
  case (w_release s)
  then show ?case using writer_alone [of s] by (simp add: same_xfrs_def holds_w_def full_def releaseSem_def)
next
  case (r_reserve s os v)
  then show ?case using reserveSem_ok [OF r_reserve.hyps(2)] by (simp add: same_xfrs_def full_def)
next
  case (r_test_end s)
  then show ?case by (simp add: same_xfrs_def)
next
  case (r_write s)
  then show ?case using reader_alone [of s] by (simp add: same_xfrs_def holds_r_def full_def phase_def)
next
  case (r_release s)
  then show ?case using reader_alone [of s] by (simp add: same_xfrs_def holds_r_def full_def)
qed (simp_all add: same_xfrs_def full_def)

definition sound_xfer :: "string \<Rightarrow> xfer \<Rightarrow> bool" where
  "sound_xfer inp s \<longleftrightarrow> safe inp s \<and> one_token s \<and> phase s \<and>
     w_counted inp s \<and> r_counted s \<and> same_xfrs s"

lemma sound_start: "sound_xfer inp (start_xfer inp)"
  using safe_start [of inp]
  by (simp add: sound_xfer_def one_token_def phase_def w_counted_def r_counted_def same_xfrs_def start_xfer_def shm_defs
      initSemAvailable_def initSemInUse_def)

lemma sound_step: "ok_step s s' \<Longrightarrow> alive s \<Longrightarrow> sound_xfer inp s \<Longrightarrow> sound_xfer inp s'"
  using safe_ok_step one_token_step phase_step w_counted_step r_counted_step same_xfrs_step one_token_le
  unfolding sound_xfer_def alive_def by blast

lemma sound_reaches: "reaches (start_xfer inp) s \<Longrightarrow> alive s \<Longrightarrow> sound_xfer inp s"
  unfolding reaches_def
proof (induction rule: rtranclp_induct)
  case base
  show ?case by (rule sound_start)
next
  case (step s s')
  then show ?case using alive_before [OF step.hyps(2) step.prems] sound_step by blast
qed

text \<open>Whoever can go on does: when no step is possible, both processes have ended.\<close>

lemma stuck_done:
  assumes "sound_xfer inp s" and "alive s" and stuck: "\<And>s'. \<not> w_step s s' \<and> \<not> r_step s s'"
  shows "w_pc s = W_Done \<and> r_pc s = R_Done"
proof -
  have sems: "w_pc s \<in> {W_Reserve, W_Last} \<Longrightarrow> w_sem s = 0" "r_pc s = R_Reserve \<Longrightarrow> r_sem s = 0"
    using stuck w_step.w_reserve [of s "[Through]" "w_sem s - 1"]
      w_step.w_last [of s "[Through]" "w_sem s - 1"] r_step.r_reserve [of s "[Through]" "r_sem s - 1"]
    by (cases "w_sem s"; cases "r_sem s"; auto)+
  have "\<exists>piece left. read_piece (x_in s) piece left"
    by (cases "x_in s") (auto simp: read_piece_def BUF_SIZE_def intro: exI [of _ "[_]"])
  then have w: "w_pc s \<in> {W_Reserve, W_Last, W_Done}"
    using stuck w_step.w_read [of s] w_step.w_release [of s] w_step.w_test_end [of s]
      w_step.w_test_more [of s] assms(2)
    by (cases "w_pc s") (auto simp: alive_def)
  have r: "r_pc s \<in> {R_Reserve, R_Done}"
    using stuck r_step.r_test_end [of s] r_step.r_test_more [of s] r_step.r_write [of s]
      r_step.r_release [of s] r_step.r_last [of s] assms(2) by (cases "r_pc s") (auto simp: alive_def)
  have "one_token s" "phase s" using assms(1) by (simp_all add: sound_xfer_def)
  with sems w r show ?thesis
    by (elim insertE emptyE)
      (simp_all add: one_token_def tokens_def holds_w_def holds_r_def phase_def)
qed

text \<open>Every step uses up part of a budget that the length of the input gives.\<close>

fun w_budget :: "writer_pc \<Rightarrow> bool \<Rightarrow> nat" where
  "w_budget W_Reserve go = 10"
| "w_budget W_Read go = 9"
| "w_budget W_Release go = (if go then 17 else 8)"
| "w_budget W_Test go = (if go then 11 else 2)"
| "w_budget W_Last go = 1"
| "w_budget W_Done go = 0"
| "w_budget W_Dead go = 0"

fun r_budget :: "reader_pc \<Rightarrow> nat" where
  "r_budget R_Reserve = 1"
| "r_budget R_Test = 5"
| "r_budget R_Write = 4"
| "r_budget R_Release = 3"
| "r_budget R_Last = 1"
| "r_budget R_Done = 0"
| "r_budget R_Dead = 0"

definition budget :: "xfer \<Rightarrow> nat" where
  "budget s = 12 * length (x_in s) + w_budget (w_pc s) (sh_cnt s \<noteq> 0) + 5 * r_sem s + r_budget (r_pc s)"

lemma budget_ok_step: "ok_step s s' \<Longrightarrow> budget s' < budget s"
proof (induction rule: ok_step_cases)
  case (w_read s piece left)
  then show ?case by (cases piece) (auto simp: budget_def read_piece_def)
qed (auto simp: budget_def releaseSem_def dest!: reserveSem_ok)

lemma budget_step: "xfer_step s s' \<Longrightarrow> budget s' < budget s"
proof (induction rule: xfer_step_cases)
  case (fine s s')
  then show ?case by (rule budget_ok_step)
qed (auto simp: budget_def dest!: reserveSem_failed)

lemma budget_run: "(xfer_step ^^ n) s s' \<Longrightarrow> n + budget s' \<le> budget s"
proof (induction n arbitrary: s')
  case 0
  then show ?case by simp
next
  case (Suc n)
  then obtain u where "(xfer_step ^^ n) s u" "xfer_step u s'" by auto
  with Suc.IH [of u] budget_step [of u s'] show ?case by simp
qed

section \<open>Properties\<close>

text \<open>
  C9: In every state the two processes can reach, whatever calls fail, at most one of them is between
  its reserve and its release, and what the reader has written is a prefix of the input.
\<close>

theorem shm_safety:
  assumes "reaches (start_xfer inp) s"
  shows "\<not> (holds_w s \<and> holds_r s) \<and> (\<exists>left. inp = x_out s @ left)"
  using safe_reaches [OF assms] by (auto simp: safe_def data_ok_def tokens_def split: if_splits)

text \<open>
  C4: When nothing has failed and no step is left, the transfer is complete: both programs have ended,
  the output is the input, both have counted its bytes (in 32-bit arithmetic) and the same number
  of transfers.
\<close>

theorem shm_completes:
  assumes "reaches (start_xfer inp) s" and "alive s" and "\<not> (\<exists>s'. ok_step s s')"
  shows "w_pc s = W_Done \<and> r_pc s = R_Done \<and> x_out s = inp \<and>
    w_bytes s = word_of_nat (length inp) \<and> r_bytes s = word_of_nat (length inp) \<and> w_xfrs s = r_xfrs s"
proof -
  have s: "sound_xfer inp s" using sound_reaches [OF assms(1,2)] .
  moreover have "w_pc s = W_Done \<and> r_pc s = R_Done" using stuck_done [OF s assms(2)] assms(3) unfolding ok_step_def by blast
  ultimately show ?thesis
    by (auto simp: sound_xfer_def safe_def data_ok_def alive_def one_token_def phase_def w_counted_def r_counted_def same_xfrs_def shm_defs split: if_splits)
qed

text \<open>
  C20: No run is longer than twelve steps for every byte of the input and eleven more, so every run ends.
\<close>

theorem shm_terminates:
  assumes "(xfer_step ^^ n) (start_xfer inp) s"
  shows "n \<le> 12 * length inp + 11"
  using budget_run [OF assms]
  by (simp add: budget_def start_xfer_def initSemInUse_def initSemAvailable_def)

lemma run_to_end:
  "alive s \<Longrightarrow> \<exists>s'. ok_step\<^sup>*\<^sup>* s s' \<and> alive s' \<and> \<not> (\<exists>u. ok_step s' u)"
proof (induction "budget s" arbitrary: s rule: less_induct)
  case less
  show ?case
  proof (cases "\<exists>u. ok_step s u")
    case False
    with less.prems show ?thesis by blast
  next
    case True
    then obtain u where u: "ok_step s u" by blast
    from less.hyps [OF budget_ok_step [OF u]] alive_step [OF u less.prems]
    obtain s' where "ok_step\<^sup>*\<^sup>* u s'" "alive s'" "\<not> (\<exists>v. ok_step s' v)" by blast
    with u show ?thesis by (meson converse_rtranclp_into_rtranclp)
  qed
qed

lemma reaches_end:
  "\<exists>s. reaches (start_xfer inp) s \<and> alive s \<and> \<not> (\<exists>u. ok_step s u)"
proof -
  have "alive (start_xfer inp)" by (simp add: alive_def start_xfer_def)
  from run_to_end [OF this] obtain s where
    s: "ok_step\<^sup>*\<^sup>* (start_xfer inp) s" "alive s" "\<not> (\<exists>u. ok_step s u)" by blast
  have "ok_step \<le> xfer_step" by (auto simp: xfer_step_def)
  then have "xfer_step\<^sup>*\<^sup>* (start_xfer inp) s" using s(1) rtranclp_mono [of ok_step xfer_step] by blast
  with s show ?thesis by (auto simp: reaches_def)
qed

theorem shm_completes_witness:
  "\<exists>s. reaches (start_xfer ''some text'') s \<and> x_out s = ''some text'' \<and> r_bytes s = 9"
  using reaches_end [of "''some text''"] shm_completes [of "''some text''"] by fastforce

lemma example_step: "xfer_step (start_xfer inp) ((start_xfer inp)\<lparr>w_sem := 0, w_pc := W_Read\<rparr>)"
  using w_step.w_reserve [of "start_xfer inp" "[Eintr, Through]" 0]
  by (auto simp: start_xfer_def initSemAvailable_def bsRetryOnEintr_def xfer_step_def ok_step_def)

theorem shm_safety_witness:
  "\<not> (holds_w ((start_xfer ''ab'')\<lparr>w_sem := 0, w_pc := W_Read\<rparr>) \<and>
      holds_r ((start_xfer ''ab'')\<lparr>w_sem := 0, w_pc := W_Read\<rparr>)) \<and>
    (\<exists>left. ''ab'' = x_out ((start_xfer ''ab'')\<lparr>w_sem := 0, w_pc := W_Read\<rparr>) @ left)"
  by (rule shm_safety) (use example_step [of "''ab''"] in \<open>auto simp: reaches_def\<close>)

text \<open>A whole transfer of two bytes, to its end.\<close>

theorem shm_terminates_witness:
  "\<exists>n s. (xfer_step ^^ n) (start_xfer ''ab'') s \<and> \<not> (\<exists>u. ok_step s u) \<and> w_pc s = W_Done \<and> r_pc s = R_Done \<and> n \<le> 35"
proof -
  obtain s where s: "reaches (start_xfer ''ab'') s" "alive s" "\<not> (\<exists>u. ok_step s u)"
    using reaches_end by blast
  then obtain n where n: "(xfer_step ^^ n) (start_xfer ''ab'') s" by (auto simp: reaches_def rtranclp_power)
  have "w_pc s = W_Done \<and> r_pc s = R_Done"
    using stuck_done [OF sound_reaches [OF s(1,2)] s(2)] s(3) unfolding ok_step_def by blast
  with n s(3) shm_terminates [OF n] show ?thesis by auto
qed

end
