(* ===== verification/ShmMain.thy ===== *)
theory ShmMain
  imports ShmTransfer ErrorFunctions
begin

text \<open>
  The programs around the transfer of \<open>ShmTransfer\<close>, \<open>src/SP_HW9/54\<close>: how \<open>svshm_xfr_writer.c\<close> and
  \<open>svshm_xfr_reader.c\<close> set up the semaphores and the shared memory, how they remove them, and what they
  print at their ends.

  The two objects outside the processes are the record \<open>ipc\<close>: the semaphore set of \<open>SEM_KEY\<close>, and whether
  the name of the memory exists.  Which calls the system refuses, and with which \<open>errno\<close>, is an argument.
\<close>

section \<open>Objects and calls\<close>

record ipc =
  sem_set :: "(nat \<times> nat) option"
  shm_named :: bool

datatype ipc_call = Semget | Set_write | Set_read | Shm_open | Ftruncate | Mmap | Rmid | Munmap | Shm_unlink

section \<open>Writer and reader up to the transfer\<close>

definition writer_setup :: "ef_env \<Rightarrow> (ipc_call \<Rightarrow> int option) \<Rightarrow> ef_state \<Rightarrow> ipc \<Rightarrow> (ipc \<times> main_end) res" where
  "writer_setup env refused s objs =
     or_exit env (refused Semget) s ''semget'' [] objs
     (let objs = (case sem_set objs of None \<Rightarrow> objs\<lparr>sem_set := Some (0, 0)\<rparr> | Some _ \<Rightarrow> objs);
          r = snd (the (sem_set objs)) in
      or_exit env (refused Set_write) s ''initSemAvailable'' [] objs
     (let objs = objs\<lparr>sem_set := Some (initSemAvailable, r)\<rparr> in
      or_exit env (refused Set_read) s ''initSemInUse'' [] objs
     (let objs = objs\<lparr>sem_set := Some (initSemAvailable, initSemInUse)\<rparr> in
      or_exit env (refused Shm_open) s ''shm_open'' [] objs
     (let objs = objs\<lparr>shm_named := True\<rparr> in
      case refused Ftruncate of
        Some e \<Rightarrow> Inr (objs, perror_exit env ''ftruncate error'' e s)
      | None \<Rightarrow> or_exit env (refused Mmap) s ''mmap'' [] objs (Inr (objs, Goes_on))))))"

text \<open>The reader finds what the writer has made: without it \<open>semget\<close> and \<open>shm_open\<close> fail with \<open>ENOENT\<close>.\<close>

definition ENOENT :: int where "ENOENT = 2"

definition missing :: "bool \<Rightarrow> ipc_call \<Rightarrow> (ipc_call \<Rightarrow> int option) \<Rightarrow> ipc_call \<Rightarrow> int option" where
  "missing there call refused = (if there then refused else refused(call := Some ENOENT))"

definition reader_setup :: "ef_env \<Rightarrow> (ipc_call \<Rightarrow> int option) \<Rightarrow> ef_state \<Rightarrow> ipc \<Rightarrow> (ipc \<times> main_end) res" where
  "reader_setup env refused s objs =
     or_exit env (missing (sem_set objs \<noteq> None) Semget refused Semget) s ''semget'' [] objs
     (or_exit env (missing (shm_named objs) Shm_open refused Shm_open) s ''shm_open'' [] objs
     (or_exit env (refused Mmap) s ''mmap'' [] objs (Inr (objs, Goes_on))))"

text \<open>The state the transfer starts from: the semaphores as they are, an empty segment.\<close>

definition joined :: "string \<Rightarrow> ipc \<Rightarrow> xfer option" where
  "joined inp objs =
     (case sem_set objs of
        Some (w, r) \<Rightarrow> if shm_named objs then Some ((start_xfer inp)\<lparr>w_sem := w, r_sem := r\<rparr>) else None
      | None \<Rightarrow> None)"

section \<open>Behind the transfer\<close>

definition totals_line :: "string \<Rightarrow> 32 word \<Rightarrow> 32 word \<Rightarrow> string" where
  "totals_line did bytes xfrs =
     did @ '' '' @ dec_int (sint bytes) @ '' bytes ('' @ dec_int (sint xfrs) @ '' xfrs)'' @ [NL]"

definition say_err :: "string \<Rightarrow> ef_state \<Rightarrow> ef_state" where
  "say_err t s = s\<lparr>acts := acts s @ [To_stderr t]\<rparr>"

definition writer_finish :: "ef_env \<Rightarrow> (ipc_call \<Rightarrow> int option) \<Rightarrow> ef_state \<Rightarrow> ipc \<Rightarrow> xfer \<Rightarrow> (ipc \<times> main_end) res" where
  "writer_finish env refused s objs x =
     or_exit env (refused Rmid) s ''semctl'' [] objs
     (let objs = objs\<lparr>sem_set := None\<rparr> in
      or_exit env (refused Munmap) s ''munmap'' [] objs
     (or_exit env (refused Shm_unlink) s ''shm_unlink'' [] objs
     (let objs = objs\<lparr>shm_named := False\<rparr> in
      Inr (objs, Ends (say_err (totals_line ''Sent'' (w_bytes x) (w_xfrs x)) s) (Exit 0)))))"

definition reader_finish :: "ef_state \<Rightarrow> xfer \<Rightarrow> main_end" where
  "reader_finish s x = Ends (say_err (totals_line ''Received'' (r_bytes x) (r_xfrs x)) s) (Exit 0)"


section \<open>Lemmas\<close>

lemma writer_setup_goes_on:
  assumes "writer_setup env refused s objs = Inr (objs', Goes_on)"
  shows "objs' = \<lparr>sem_set = Some (1, 0), shm_named = True\<rparr>"
  using assms
  by (auto simp: writer_setup_def Let_def or_exit_goes_on initSemAvailable_def initSemInUse_def split: option.splits)

lemma joined_start: "joined inp \<lparr>sem_set = Some (1, 0), shm_named = True\<rparr> = Some (start_xfer inp)"
  by (simp add: joined_def start_xfer_def initSemAvailable_def initSemInUse_def)

text \<open>The writer's side of the phases holds as long as the writer lives, whatever becomes of the reader.\<close>

lemma phase_xfer_step:
  "xfer_step s s' \<Longrightarrow> w_pc s' \<noteq> W_Dead \<Longrightarrow> tokens s \<le> 1 \<Longrightarrow> phase s \<Longrightarrow> phase s'"
proof (induction rule: xfer_step_cases)
  case (fine s s')
  have "w_pc s \<noteq> W_Dead" using fine by (induction rule: ok_step_cases) simp_all
  with fine phase_step show ?case by blast
next
  case (r_reserve_fails s os v)
  then show ?case using reserveSem_failed [OF r_reserve_fails.hyps(2)] by (simp add: phase_def full_def)
next
  case (r_write_fails s n)
  then show ?case by (simp add: phase_def full_def)
next
  case (r_release_fails s)
  then show ?case by (elim insertE emptyE) (auto simp: phase_def full_def)
qed simp_all

lemma writer_alive_before: "xfer_step s s' \<Longrightarrow> w_pc s' \<noteq> W_Dead \<Longrightarrow> w_pc s \<noteq> W_Dead"
proof (induction rule: xfer_step_cases)
  case (fine s s')
  then show ?case by (induction rule: ok_step_cases) simp_all
qed simp_all

lemma phase_reaches:
  "xfer_step\<^sup>*\<^sup>* (start_xfer inp) s \<Longrightarrow> w_pc s \<noteq> W_Dead \<Longrightarrow> phase s"
proof (induction rule: rtranclp_induct)
  case base
  show ?case using sound_start by (simp add: sound_xfer_def)
next
  case (step s s')
  have "safe inp s" using step.hyps(1) safe_reaches by (simp add: reaches_def)
  then have "tokens s \<le> 1" by (simp add: safe_def)
  with step writer_alive_before [OF step.hyps(2)] phase_xfer_step show ?case by blast
qed

lemma writer_done:
  assumes "reaches (start_xfer inp) s" and "w_pc s = W_Done"
  shows "r_pc s = R_Done \<and> x_out s = inp \<and>
    w_bytes s = word_of_nat (length inp) \<and> r_bytes s = word_of_nat (length inp) \<and> w_xfrs s = r_xfrs s"
proof -
  have r: "r_pc s = R_Done" using phase_reaches assms by (simp add: reaches_def phase_def)
  then have "sound_xfer inp s" using sound_reaches [OF assms(1)] assms(2) by (simp add: alive_def)
  with r assms(2) show ?thesis
    by (auto simp: sound_xfer_def safe_def data_ok_def one_token_def phase_def w_counted_def r_counted_def
        same_xfrs_def shm_defs split: if_splits)
qed

section \<open>Properties\<close>

text \<open>
  C36: A whole session.  When the writer has set up the objects and has come through its last reserve -
  whatever has failed on the way -, the reader has ended and has written all of the input; the clean-up
  leaves neither semaphores nor memory, and both print the same totals.
\<close>

theorem transfer_session:
  assumes "writer_setup env refused s objs = Inr (objs', Goes_on)" and "joined inp objs' = Some x"
    and "reaches x y" and "w_pc y = W_Done"
    and "refused' Rmid = None" and "refused' Munmap = None" and "refused' Shm_unlink = None"
  shows "r_pc y = R_Done \<and> x_out y = inp \<and>
    (\<exists>k. writer_finish env refused' s objs' y =
           Inr (\<lparr>sem_set = None, shm_named = False\<rparr>,
             Ends (say_err (totals_line ''Sent'' (word_of_nat (length inp)) k) s) (Exit 0)) \<and>
         reader_finish s' y = Ends (say_err (totals_line ''Received'' (word_of_nat (length inp)) k) s') (Exit 0))"
proof -
  note objs' = writer_setup_goes_on [OF assms(1)]
  have "x = start_xfer inp" using assms(2) using joined_start [of inp] by (simp add: objs')
  with writer_done [of inp y] assms(3-) show ?thesis
    by (intro conjI exI [of _ "r_xfrs y"]) (simp_all add: objs' writer_finish_def reader_finish_def)
qed

text \<open>
  A reader that has failed - or the writer - is never cleaned up after: from then on the writer cannot
  come to the end, and the semaphores and the memory stay.
\<close>

theorem failed_reader_leaves_objects:
  assumes "reaches (start_xfer inp) s" and "r_pc s = R_Dead \<or> w_pc s = W_Dead" and "reaches s t"
  shows "w_pc t \<noteq> W_Done"
proof
  assume fin: "w_pc t = W_Done"
  have t: "reaches (start_xfer inp) t" using assms(1,3) by (simp add: reaches_def)
  have step: "r_pc u' = R_Dead \<or> w_pc u' = W_Dead"
    if "xfer_step u u'" "r_pc u = R_Dead \<or> w_pc u = W_Dead" for u u'
    using that
  proof (induction rule: xfer_step_cases)
    case (fine s s')
    then show ?case by (induction rule: ok_step_cases) auto
  qed auto
  from assms(3) have "r_pc t = R_Dead \<or> w_pc t = W_Dead"
    unfolding reaches_def by (induction rule: rtranclp_induct) (use assms(2) step in auto)
  with writer_done [OF t fin] fin show False by simp
qed

text \<open>
  A reader goes on exactly when the writer's objects are there and no call is refused; too early it ends
  with the report of \<open>semget\<close>.
\<close>

theorem reader_needs_objects:
  "reader_setup env refused s objs = Inr (objs', Goes_on) \<longleftrightarrow>
     objs' = objs \<and> sem_set objs \<noteq> None \<and> shm_named objs \<and>
     refused Semget = None \<and> refused Shm_open = None \<and> refused Mmap = None"
  by (auto simp: reader_setup_def or_exit_goes_on missing_def)


text \<open>
  A set-up that fails behind \<open>semget\<close> leaves the semaphores, and behind \<open>shm_open\<close> the memory too.
\<close>

theorem failed_setup_leaves:
  assumes "writer_setup env refused s objs = Inr (objs', Ends s' f)" and "refused Semget = None"
  shows "sem_set objs' \<noteq> None \<and>
    (refused Set_write = None \<longrightarrow> refused Set_read = None \<longrightarrow> refused Shm_open = None \<longrightarrow> shm_named objs')"
  using assms
  by (auto simp: writer_setup_def Let_def or_exit_def bindE_Inr_iff split: option.splits)

section \<open>Witnesses\<close>

definition none_refused :: "ipc_call \<Rightarrow> int option" where "none_refused = (\<lambda>_. None)"

lemma setup_example:
  "writer_setup ef_example none_refused s \<lparr>sem_set = None, shm_named = False\<rparr> =
     Inr (\<lparr>sem_set = Some (1, 0), shm_named = True\<rparr>, Goes_on)"
  by (simp add: writer_setup_def none_refused_def initSemAvailable_def initSemInUse_def)

theorem transfer_session_witness:
  "\<exists>y k. r_pc y = R_Done \<and> x_out y = ''some text'' \<and>
     reader_finish \<lparr>cur_errno = 0, acts = []\<rparr> y =
       Ends \<lparr>cur_errno = 0, acts = [To_stderr (''Received 9 bytes ('' @ k @ '' xfrs)'' @ [NL])]\<rparr> (Exit 0)"
proof -
  obtain y where y: "reaches (start_xfer ''some text'') y" "alive y" "\<not> (\<exists>u. ok_step y u)"
    using reaches_end [of "''some text''"] by blast
  have "w_pc y = W_Done" using stuck_done [OF sound_reaches [OF y(1,2)] y(2)] y(3) unfolding ok_step_def by blast
  from transfer_session [OF setup_example joined_start y(1) this, of none_refused "\<lparr>cur_errno = 0, acts = []\<rparr>"
      "\<lparr>cur_errno = 0, acts = []\<rparr>"]
  obtain k where k: "r_pc y = R_Done" "x_out y = ''some text''"
    "reader_finish \<lparr>cur_errno = 0, acts = []\<rparr> y =
       Ends (say_err (totals_line ''Received'' (word_of_nat (length ''some text'')) k) \<lparr>cur_errno = 0, acts = []\<rparr>) (Exit 0)"
    by (auto simp: none_refused_def)
  have "totals_line ''Received'' (word_of_nat (length ''some text'')) k =
      ''Received 9 bytes ('' @ dec_int (sint k) @ '' xfrs)'' @ [NL]"
    by (simp add: totals_line_def dec_int_def) code_simp
  with k show ?thesis by (auto simp: say_err_def)
qed

theorem failed_reader_leaves_objects_witness:
  "w_pc ((start_xfer ''ab'')\<lparr>r_pc := R_Dead, w_sem := 0, w_pc := W_Read\<rparr>) \<noteq> W_Done"
proof (rule failed_reader_leaves_objects [of "''ab''" "(start_xfer ''ab'')\<lparr>r_pc := R_Dead\<rparr>"])
  have "r_fail (start_xfer ''ab'') ((start_xfer ''ab'')\<lparr>r_pc := R_Dead\<rparr>)"
    using r_fail.r_reserve_fails [of "start_xfer ''ab''" "[Fails]" 0]
    by (simp add: start_xfer_def initSemInUse_def)
  then show "reaches (start_xfer ''ab'') ((start_xfer ''ab'')\<lparr>r_pc := R_Dead\<rparr>)"
    by (auto simp: reaches_def xfer_step_def)
  have "w_step ((start_xfer ''ab'')\<lparr>r_pc := R_Dead\<rparr>) ((start_xfer ''ab'')\<lparr>r_pc := R_Dead, w_sem := 0, w_pc := W_Read\<rparr>)"
    using w_step.w_reserve [of "(start_xfer ''ab'')\<lparr>r_pc := R_Dead\<rparr>" "[Through]" 0]
    by (simp add: start_xfer_def initSemAvailable_def bsRetryOnEintr_def)
  then show "reaches ((start_xfer ''ab'')\<lparr>r_pc := R_Dead\<rparr>) ((start_xfer ''ab'')\<lparr>r_pc := R_Dead, w_sem := 0, w_pc := W_Read\<rparr>)"
    by (auto simp: reaches_def xfer_step_def ok_step_def)
qed simp

end
