(* ===== verification/MsgFile.thy ===== *)
theory MsgFile
  imports ErrorFunctions
begin

text \<open>
  The file service over message queues, \<open>src/SP_HW9/52\<close>: \<open>svmsg_file.h\<close>, \<open>svmsg_file_server.c\<close> and
  \<open>svmsg_file_client.c\<close>, which were moved from System V queues to POSIX queues.  A POSIX message starts
  at the first byte of the structure, its type included, while the sizes of the code are still those of
  the part behind the type.  The model therefore keeps both structures at their bytes (8-byte
  little-endian \<open>long\<close>, 4-byte \<open>int\<close>, a byte nobody has stored is \<open>None\<close>), so what a message carries and
  what a receiver reads follow from the sizes.

  Parameters: which calls succeed and the \<open>errno\<close> they leave (\<open>mq_calls\<close>), what the reads of a file
  return (\<open>fs\<close>, the pieces in order; an error of \<open>read\<close> ends the pieces like the end of the file), and
  which of the sends of a child succeed.  A child runs to its end before the next event of the server;
  what the exit handler of a child reports is not recorded, nor is the removal of the client's queue.
\<close>

section \<open>Bytes\<close>

type_synonym cell = "char option"

definition long_bytes :: "nat \<Rightarrow> cell list" where
  "long_bytes n = map (\<lambda>i. Some (char_of (n div 256 ^ i))) [0..<8]"

definition int_bytes :: "nat \<Rightarrow> cell list" where
  "int_bytes n = map (\<lambda>i. Some (char_of (n div 256 ^ i))) [0..<4]"

text \<open>Reading a \<open>long\<close>: its value as an unsigned number; it is only compared with small constants.\<close>

fun long_of :: "cell list \<Rightarrow> nat res" where
  "long_of [] = Inr 0"
| "long_of (None # cs) = Inl Uninitialised"
| "long_of (Some c # cs) = bindE (long_of cs) (\<lambda>n. Inr (of_char c + 256 * n))"

text \<open>Reading a string out of bytes that may not be set.\<close>

fun cells_str :: "cell list \<Rightarrow> string res" where
  "cells_str [] = Inl OutOfBounds"
| "cells_str (None # cs) = Inl Uninitialised"
| "cells_str (Some c # cs) =
     (if c = NUL then Inr [] else bindE (cells_str cs) (\<lambda>s. Inr (c # s)))"

definition unset :: "nat \<Rightarrow> cell list" where
  "unset n = replicate n None"

text \<open>\<open>read\<close> and \<open>mq_receive\<close> into memory: the new bytes in front of what was there.\<close>

definition fill :: "cell list \<Rightarrow> cell list \<Rightarrow> cell list" where
  "fill old new = new @ drop (length new) old"

section \<open>Messages\<close>

definition PATH_MAX :: nat where "PATH_MAX = 4096"

definition RESP_MSG_SIZE :: nat where "RESP_MSG_SIZE = 8192"

definition REQ_MSG_SIZE :: nat where "REQ_MSG_SIZE = 12 - 8 + PATH_MAX"

definition RESP_MT_FAILURE :: nat where "RESP_MT_FAILURE = 1"

definition RESP_MT_DATA :: nat where "RESP_MT_DATA = 2"

definition RESP_MT_END :: nat where "RESP_MT_END = 3"

text \<open>\<open>struct requestMsg\<close>, with the four bytes of padding behind its array, and \<open>struct responseMsg\<close>.\<close>

record requestMsg =
  req_mtype :: "cell list"
  clientId :: "cell list"
  pathname :: "cell list"
  req_padding :: "cell list"

record responseMsg =
  resp_mtype :: "cell list"
  resp_data :: "cell list"

definition req_image :: "requestMsg \<Rightarrow> cell list" where
  "req_image r = req_mtype r @ clientId r @ pathname r @ req_padding r"

definition req_of :: "cell list \<Rightarrow> requestMsg" where
  "req_of b = \<lparr>req_mtype = take 8 b, clientId = take 4 (drop 8 b),
     pathname = take PATH_MAX (drop 12 b), req_padding = drop (12 + PATH_MAX) b\<rparr>"

definition resp_image :: "responseMsg \<Rightarrow> cell list" where
  "resp_image r = resp_mtype r @ resp_data r"

definition resp_of :: "cell list \<Rightarrow> responseMsg" where
  "resp_of b = \<lparr>resp_mtype = take 8 b, resp_data = drop 8 b\<rparr>"

definition unset_req :: requestMsg where
  "unset_req = \<lparr>req_mtype = unset 8, clientId = unset 4, pathname = unset PATH_MAX, req_padding = unset 4\<rparr>"

definition unset_resp :: responseMsg where
  "unset_resp = \<lparr>resp_mtype = unset 8, resp_data = unset RESP_MSG_SIZE\<rparr>"

section \<open>The server\<close>

text \<open>A child: the messages it sends, its own complaints, and how it ends.\<close>

datatype child_end = With_handlers int | Without_handlers int

record child =
  sent :: "cell list list"
  complaints :: "string list"
  ended :: child_end

text \<open>The loop that transmits the pieces; \<open>i\<close> counts the sends for \<open>ok\<close>.\<close>

fun send_pieces :: "(nat \<Rightarrow> bool) \<Rightarrow> nat \<Rightarrow> responseMsg \<Rightarrow> string list \<Rightarrow>
    cell list list \<times> string list \<times> nat \<times> responseMsg" where
  "send_pieces ok i resp [] = ([], [], i, resp)"
| "send_pieces ok i resp (c # cs) =
     (let resp' = resp\<lparr>resp_data := fill (resp_data resp) (map Some c)\<rparr> in
      if ok i then
        (let (ms, ps, j, r) = send_pieces ok (Suc i) resp' cs
         in (take (length c) (resp_image resp') # ms, ps, j, r))
      else ([], [''mq_send1''], Suc i, resp'))"

definition serveRequest :: "(string \<Rightarrow> string list option) \<Rightarrow> (nat \<Rightarrow> bool) \<Rightarrow> requestMsg \<Rightarrow> child res" where
  "serveRequest fs ok req =
     bindE (cells_str (pathname req)) (\<lambda>p.
     case fs p of
       None \<Rightarrow>
         (let text = ''Couldn'' @ [CHR 0x27] @ ''t open'';
              resp = unset_resp\<lparr>resp_mtype := long_bytes RESP_MT_FAILURE,
                resp_data := fill (unset RESP_MSG_SIZE) (map Some (text @ [NUL]))\<rparr>
          in Inr (if ok 0
               then \<lparr>sent = [take (length text + 1) (resp_image resp)], complaints = [], ended = With_handlers 1\<rparr>
               else \<lparr>sent = [], complaints = [''mq_send''], ended = With_handlers 1\<rparr>))
     | Some pieces \<Rightarrow>
         (let (ms, ps, i, resp) =
                send_pieces ok 0 (unset_resp\<lparr>resp_mtype := long_bytes RESP_MT_DATA\<rparr>) pieces;
              resp' = resp\<lparr>resp_mtype := long_bytes RESP_MT_END\<rparr>
          in Inr (if ok i
               then \<lparr>sent = ms @ [take 1 (resp_image resp')], complaints = ps, ended = Without_handlers 0\<rparr>
               else \<lparr>sent = ms, complaints = ps @ [''mq_send2''], ended = Without_handlers 0\<rparr>)))"

text \<open>
  The events of the server's loop: \<open>mq_receive\<close> interrupted by a signal, failing, or delivering a
  message, for which \<open>fork\<close> succeeds or not.
\<close>

datatype sv_event = Interrupted | Receive_fails | Request "cell list" bool "nat \<Rightarrow> bool"

record mq_calls =
  queue_ok :: bool
  atexit_ok :: bool
  action_ok :: bool
  failure :: "string \<Rightarrow> int"

definition failing :: "mq_calls \<Rightarrow> string \<Rightarrow> ef_state \<Rightarrow> ef_state" where
  "failing calls name s = s\<lparr>cur_errno := failure calls name\<rparr>"

text \<open>
  \<open>removeQueue\<close>, with \<open>named\<close> for whether the queue still has its name: the report of a failure, if
  it fails.
\<close>

definition removeQueue :: "ef_env \<Rightarrow> mq_calls \<Rightarrow> bool \<Rightarrow> ef_state \<Rightarrow> (ef_state \<times> ef_end) option res" where
  "removeQueue env calls named s =
     (if named then Inr None
      else bindE (errExit env ''mq_unlink'' [] (failing calls ''mq_unlink'' s)) (\<lambda>r. Inr (Some r)))"

text \<open>
  \<open>grimReaper\<close>, the handler of SIGCHLD, on the children of the server (process id, whether it has ended):
  \<open>waitpid\<close> without blocking takes one that has ended, and leaves ECHILD when there is no child at all.
\<close>

fun waitpid_nohang :: "(nat \<times> bool) list \<Rightarrow> (nat \<times> (nat \<times> bool) list) option" where
  "waitpid_nohang [] = None"
| "waitpid_nohang ((pid, over) # cs) =
     (if over then Some (pid, cs) else map_option (\<lambda>(p, ds). (p, (pid, over) # ds)) (waitpid_nohang cs))"

lemma waitpid_nohang_length: "waitpid_nohang cs = Some (p, ds) \<Longrightarrow> length ds < length cs"
  by (induction cs arbitrary: ds rule: waitpid_nohang.induct) (auto split: if_splits)

definition ECHILD :: int where "ECHILD = 10"

function reap :: "(nat \<times> bool) list \<Rightarrow> int \<Rightarrow> (nat \<times> bool) list \<times> int" where
  "reap cs e =
     (case waitpid_nohang cs of
        Some (p, ds) \<Rightarrow> reap ds e
      | None \<Rightarrow> (cs, if cs = [] then ECHILD else e))"
  by auto
termination by (relation "measure (\<lambda>(cs, e). length cs)") (auto dest: waitpid_nohang_length)

declare reap.simps [simp del]

definition grimReaper :: "(nat \<times> bool) list \<Rightarrow> int \<Rightarrow> (nat \<times> bool) list \<times> int" where
  "grimReaper cs e = (let savedErrno = e; (ds, e') = reap cs e in (ds, savedErrno))"

lemma waitpid_nohang_filter:
  "waitpid_nohang cs = Some (p, ds) \<Longrightarrow> filter (\<lambda>c. \<not> snd c) ds = filter (\<lambda>c. \<not> snd c) cs"
  "waitpid_nohang cs = None \<Longrightarrow> filter (\<lambda>c. \<not> snd c) cs = cs"
  by (induction cs arbitrary: ds rule: waitpid_nohang.induct) (auto split: if_splits)

lemma reap_running: "fst (reap cs e) = filter (\<lambda>c. \<not> snd c) cs"
proof (induction cs e rule: reap.induct)
  case (1 cs e)
  then show ?case
    by (subst reap.simps) (auto simp: waitpid_nohang_filter split: option.split)
qed

record sv_state =
  req_buf :: requestMsg
  named :: bool
  served_by :: "child list"
  sv_err :: ef_state

text \<open>
  The end of the server: the queue is removed, and \<open>exit\<close>, called with \<open>status\<close> or by a report, runs the
  handler, which tries to remove it once more and ends the process with its own report.
\<close>

definition exit_handlers :: "ef_env \<Rightarrow> mq_calls \<Rightarrow> sv_state \<Rightarrow> ef_end \<Rightarrow> (sv_state \<times> ef_end option) res" where
  "exit_handlers env calls st fin =
     bindE (removeQueue env calls (named st) (sv_err st)) (\<lambda>r.
     case r of
       None \<Rightarrow> Inr (st\<lparr>named := False\<rparr>, Some fin)
     | Some (e, fin') \<Rightarrow> Inr (st\<lparr>sv_err := e\<rparr>, Some fin'))"

definition leave :: "ef_env \<Rightarrow> mq_calls \<Rightarrow> sv_state \<Rightarrow> (sv_state \<times> ef_end option) res" where
  "leave env calls st =
     bindE (removeQueue env calls (named st) (sv_err st)) (\<lambda>r.
     case r of
       None \<Rightarrow> exit_handlers env calls (st\<lparr>named := False\<rparr>) (Exit 0)
     | Some (e, Abort) \<Rightarrow> Inr (st\<lparr>sv_err := e\<rparr>, Some Abort)
     | Some (e, fin) \<Rightarrow> exit_handlers env calls (st\<lparr>sv_err := e\<rparr>) fin)"

fun server_loop :: "ef_env \<Rightarrow> mq_calls \<Rightarrow> (string \<Rightarrow> string list option) \<Rightarrow> sv_event list \<Rightarrow> sv_state \<Rightarrow>
    (sv_state \<times> ef_end option) res" where
  "server_loop env calls fs [] st = Inr (st, None)"
| "server_loop env calls fs (Interrupted # es) st = server_loop env calls fs es st"
| "server_loop env calls fs (Receive_fails # es) st =
     bindE (errMsg env ''mq_receive'' [] (failing calls ''mq_receive'' (sv_err st))) (\<lambda>e.
     leave env calls (st\<lparr>sv_err := e\<rparr>))"
| "server_loop env calls fs (Request m forked ok # es) st =
     (let req = req_of (fill (req_image (req_buf st)) m) in
      if \<not> forked then
        bindE (errMsg env ''fork'' [] (failing calls ''fork'' (sv_err st))) (\<lambda>e.
        leave env calls (st\<lparr>req_buf := req, sv_err := e\<rparr>))
      else
        bindE (serveRequest fs ok req) (\<lambda>c.
        server_loop env calls fs es
          (st\<lparr>req_buf := req, served_by := served_by st @ [c],
              named := (named st \<and> ended c = Without_handlers 0)\<rparr>)))"

definition server_main :: "ef_env \<Rightarrow> mq_calls \<Rightarrow> (string \<Rightarrow> string list option) \<Rightarrow> sv_event list \<Rightarrow> ef_state \<Rightarrow>
    (sv_state \<times> ef_end option) res" where
  "server_main env calls fs es s =
     (let stop = (\<lambda>name q. bindE (errExit env name [] (failing calls name s)) (\<lambda>(e, fin).
            Inr (\<lparr>req_buf = unset_req, named = q, served_by = [], sv_err = e\<rparr>, Some fin)))
      in if \<not> queue_ok calls then stop ''mq_open'' False
         else if \<not> atexit_ok calls then stop ''atexit'' True
         else if \<not> action_ok calls then
           bindE (errExit env ''sigaction'' [] (failing calls ''sigaction'' s)) (\<lambda>(e, fin).
           let st = \<lparr>req_buf = unset_req, named = True, served_by = [], sv_err = e\<rparr> in
           if fin = Abort then Inr (st, Some Abort) else exit_handlers env calls st fin)
         else server_loop env calls fs es \<lparr>req_buf = unset_req, named = True, served_by = [], sv_err = s\<rparr>)"

section \<open>The client\<close>

record cl_calls =
  server_named :: bool
  reply_queue :: "nat option"
  cl_atexit_ok :: bool
  send_ok :: bool
  cl_failure :: "string \<Rightarrow> int"

definition client_request :: "nat \<Rightarrow> string \<Rightarrow> requestMsg" where
  "client_request qid path =
     \<lparr>req_mtype = long_bytes 1, clientId = int_bytes qid,
      pathname = map Some (pad (PATH_MAX - 1) path @ [NUL]), req_padding = unset 4\<rparr>"

text \<open>The client up to its request: the report it ends with, or the message it sends.\<close>

definition client_start :: "ef_env \<Rightarrow> cl_calls \<Rightarrow> string list \<Rightarrow> ef_state \<Rightarrow> (ef_state \<times> ef_end + cell list) res" where
  "client_start env calls argv s =
     (let stop = (\<lambda>r. bindE r (\<lambda>x. Inr (Inl x)));
          report = (\<lambda>name text. errExit env text [] (s\<lparr>cur_errno := cl_failure calls name\<rparr>))
      in if length argv \<noteq> 2 \<or> argv ! 1 = ''--help'' then
           stop (usageErr (''%s pathname'' @ [NL]) [AStr (argv ! 0)] s)
         else if PATH_MAX - 1 < length (argv ! 1) then
           stop (cmdLineErr (''pathname too long (max: %ld bytes)'' @ [NL]) [ALong (int (PATH_MAX - 1))] s)
         else if \<not> server_named calls then stop (report ''mq_open'' ''mq_open - server message queue'')
         else case reply_queue calls of
           None \<Rightarrow> stop (report ''mq_open'' ''mq_open - client message queue'')
         | Some qid \<Rightarrow>
             if \<not> cl_atexit_ok calls then stop (report ''atexit'' ''atexit'')
             else if \<not> send_ok calls then stop (report ''mq_send'' ''mq_send'')
             else Inr (Inr (take REQ_MSG_SIZE (req_image (client_request qid (argv ! 1))))))"

text \<open>
  The client behind its request, on the messages \<open>mq_receive\<close> gets, \<open>None\<close> for an error: what it
  prints and its status, the report it ends with, or that it waits.
\<close>

datatype client_end = Prints string int | Reports "ef_state \<times> ef_end" | Waits

definition totals :: "int \<Rightarrow> int \<Rightarrow> string" where
  "totals n k = ''Received '' @ dec_int n @ '' bytes ('' @ dec_int k @ '' messages)'' @ [NL]"

fun client_loop :: "ef_env \<Rightarrow> int \<Rightarrow> ef_state \<Rightarrow> cell list option list \<Rightarrow> responseMsg \<Rightarrow> int \<Rightarrow> int \<Rightarrow>
    client_end res" where
  "client_loop env e s ms resp totBytes numMsgs =
     bindE (long_of (resp_mtype resp)) (\<lambda>t.
     if t \<noteq> RESP_MT_DATA then Inr (Prints (totals (totBytes - 1) numMsgs) 0)
     else case ms of
       [] \<Rightarrow> Inr Waits
     | None # _ \<Rightarrow> bindE (errExit env ''mq_receive'' [] (s\<lparr>cur_errno := e\<rparr>)) (\<lambda>r. Inr (Reports r))
     | Some m # ms' \<Rightarrow>
         client_loop env e s ms' (resp_of (fill (resp_image resp) m)) (totBytes + int (length m)) (numMsgs + 1))"

declare client_loop.simps [simp del]

definition client_receive :: "ef_env \<Rightarrow> int \<Rightarrow> ef_state \<Rightarrow> cell list option list \<Rightarrow> client_end res" where
  "client_receive env e s ms =
     (case ms of
        [] \<Rightarrow> Inr Waits
      | None # _ \<Rightarrow> bindE (errExit env ''mq_receive'' [] (s\<lparr>cur_errno := e\<rparr>)) (\<lambda>r. Inr (Reports r))
      | Some m # ms' \<Rightarrow>
          (let resp = resp_of (fill (resp_image unset_resp) m) in
           bindE (long_of (resp_mtype resp)) (\<lambda>t.
           if t = RESP_MT_FAILURE then
             bindE (cells_str (resp_data resp)) (\<lambda>p. Inr (Prints (p @ [NL]) 1))
           else client_loop env e s ms' resp (int (length m)) 1)))"

section \<open>Lemmas on bytes\<close>

lemma length_long_bytes [simp]: "length (long_bytes n) = 8" "length (int_bytes n) = 4"
  by (simp_all add: long_bytes_def int_bytes_def)

lemma length_unset [simp]: "length (unset n) = n"
  by (simp add: unset_def)

lemma length_fill: "length new \<le> length old \<Longrightarrow> length (fill old new) = length old"
  by (simp add: fill_def)

lemma zeros_7: "zeros 7 = [NUL, NUL, NUL, NUL, NUL, NUL, NUL]"
  by (simp add: zeros_def eval_nat_numeral)

lemma low_chars: "char_of (0 :: nat) = NUL" "char_of (Suc 0) = CHR 0x01" "char_of (2 :: nat) = CHR 0x02"
    "char_of (3 :: nat) = CHR 0x03"
  by (simp_all add: char_of_def bit_0)

lemma long_bytes_values:
  "long_bytes 1 = map Some (CHR 0x01 # zeros 7)"
  "long_bytes 2 = map Some (CHR 0x02 # zeros 7)"
  "long_bytes 3 = map Some (CHR 0x03 # zeros 7)"
  by (simp_all add: long_bytes_def zeros_7 upt_rec low_chars)

lemma long_of_values:
  "long_of (long_bytes 1) = Inr 1" "long_of (long_bytes 2) = Inr 2" "long_of (long_bytes 3) = Inr 3"
  by (simp_all add: long_bytes_values zeros_7 del: One_nat_def)

lemma long_of_unset: "long_of (map Some xs @ None # ys) = Inl Uninitialised"
  by (induction xs) auto

lemma cells_str_terminated: "nul_free p \<Longrightarrow> cells_str (map Some p @ Some NUL # r) = Inr p"
  by (induction p) auto

lemma cells_str_unset: "nul_free p \<Longrightarrow> cells_str (map Some p @ None # r) = Inl Uninitialised"
  by (induction p) auto

text \<open>A request arrives without the last eight bytes of its path.\<close>

lemma request_path:
  assumes "length p < PATH_MAX" and "length (req_image r) = 4112"
  shows "pathname (req_of (fill (req_image r) (take REQ_MSG_SIZE (req_image (client_request q p))))) =
    map Some (take 4088 (pad 4095 p)) @ take 8 (drop 4100 (req_image r))"
proof -
  have l: "length (pad 4095 p) = 4095" using assms(1) by (simp add: PATH_MAX_def)
  have "take REQ_MSG_SIZE (req_image (client_request q p)) =
      long_bytes 1 @ int_bytes q @ map Some (take 4088 (pad 4095 p))"
    using l by (simp add: REQ_MSG_SIZE_def PATH_MAX_def req_image_def client_request_def take_map)
  then show ?thesis using l assms(2) by (simp add: fill_def req_of_def PATH_MAX_def)
qed

lemma request_arrives:
  assumes "nul_free p" and "length p < 4088" and "length (req_image r) = 4112"
  shows "cells_str (pathname (req_of (fill (req_image r) (take REQ_MSG_SIZE (req_image (client_request q p)))))) = Inr p"
proof -
  have "take 4088 (pad 4095 p) = p @ NUL # replicate (4087 - length p) NUL"
    using assms(2) by (simp add: pad_def Suc_diff_le flip: replicate_Suc)
  then show ?thesis
    using request_path [OF _ assms(3), of p q] cells_str_terminated [OF assms(1)] assms(2)
    by (simp add: PATH_MAX_def)
qed

section \<open>Lemmas on a transfer\<close>

text \<open>The message that carries the piece \<open>c\<close>: the type, and the piece without its last eight bytes.\<close>

definition piece_msg :: "string \<Rightarrow> cell list" where
  "piece_msg c = take (length c) (long_bytes RESP_MT_DATA) @ map Some (take (length c - 8) c)"

definition pieces_ok :: "string list \<Rightarrow> bool" where
  "pieces_ok cs \<longleftrightarrow> (\<forall>c \<in> set cs. length c \<le> RESP_MSG_SIZE)"

lemma length_piece_msg [simp]: "length (piece_msg c) = length c"
  by (simp add: piece_msg_def)

lemma send_pieces_all:
  assumes "\<forall>j. ok j" and "pieces_ok cs" and "resp_mtype r = long_bytes RESP_MT_DATA"
  shows "\<exists>r'. send_pieces ok i r cs = (map piece_msg cs, [], i + length cs, r')"
  using assms(2,3)
proof (induction cs arbitrary: i r)
  case (Cons c cs)
  let ?r = "r\<lparr>resp_data := fill (resp_data r) (map Some c)\<rparr>"
  obtain r' where "send_pieces ok (Suc i) ?r cs = (map piece_msg cs, [], Suc i + length cs, r')"
    using Cons.IH [of ?r "Suc i"] Cons.prems by (auto simp: pieces_ok_def)
  moreover have "take (length c) (resp_image ?r) = piece_msg c"
    using Cons.prems(2) by (simp add: resp_image_def fill_def piece_msg_def take_map)
  moreover have "ok i" using assms(1) by simp
  ultimately show ?case by (simp add: Let_def)
qed simp

lemma take_prefix_fill:
  "take 8 (fill (L @ d) (take n L @ x)) = L" if "length L = 8" and "n \<le> 8 \<longrightarrow> x = []" for L :: "cell list"
  using that by (cases "n \<le> 8") (auto simp: fill_def)

lemma receive_piece:
  assumes "resp_mtype r = long_bytes RESP_MT_DATA"
  shows "resp_mtype (resp_of (fill (resp_image r) (piece_msg c))) = long_bytes RESP_MT_DATA"
proof -
  have "length c \<le> 8 \<longrightarrow> map Some (take (length c - 8) c) = []" by simp
  from take_prefix_fill [OF length_long_bytes(1) this] show ?thesis
    using assms by (simp add: resp_of_def resp_image_def piece_msg_def)
qed

definition end_msg :: "cell list" where
  "end_msg = take 1 (long_bytes RESP_MT_END)"

lemma receive_end:
  assumes "resp_mtype r = long_bytes RESP_MT_DATA"
  shows "resp_mtype (resp_of (fill (resp_image r) end_msg)) = long_bytes RESP_MT_END"
  using assms
  by (simp add: resp_of_def resp_image_def end_msg_def fill_def RESP_MT_DATA_def RESP_MT_END_def
      long_bytes_values(2,3) zeros_7)

lemma client_loop_end:
  "resp_mtype r = long_bytes RESP_MT_END \<Longrightarrow>
   client_loop env e s ms r n k = Inr (Prints (totals (n - 1) k) 0)"
  by (simp add: client_loop.simps [of env e s ms] RESP_MT_END_def RESP_MT_DATA_def long_of_values)

lemma client_loop_data:
  "resp_mtype r = long_bytes RESP_MT_DATA \<Longrightarrow>
   client_loop env e s (Some m # ms) r n k =
   client_loop env e s ms (resp_of (fill (resp_image r) m)) (n + int (length m)) (k + 1)"
  by (simp add: client_loop.simps [of env e s "Some m # ms"] RESP_MT_DATA_def long_of_values)

lemma client_loop_pieces:
  assumes "resp_mtype r = long_bytes RESP_MT_DATA"
  shows "client_loop env e s (map Some (map piece_msg cs @ [end_msg])) r n k =
    Inr (Prints (totals (n + int (length (concat cs))) (k + int (length cs) + 1)) 0)"
  using assms
proof (induction cs arbitrary: r n k)
  case Nil
  have "length end_msg = 1" by (simp add: end_msg_def)
  then show ?case using Nil by (simp add: client_loop_data client_loop_end receive_end)
next
  case (Cons c cs)
  then show ?case by (simp add: client_loop_data receive_piece algebra_simps)
qed

lemma serveRequest_file:
  assumes "cells_str (pathname req) = Inr p" and "fs p = Some cs" and "pieces_ok cs" and "\<forall>j. ok j"
  shows "serveRequest fs ok req =
    Inr \<lparr>sent = map piece_msg cs @ [end_msg], complaints = [], ended = Without_handlers 0\<rparr>"
proof -
  obtain r where "send_pieces ok 0 (unset_resp\<lparr>resp_mtype := long_bytes RESP_MT_DATA\<rparr>) cs =
      (map piece_msg cs, [], length cs, r)"
    using send_pieces_all [OF assms(4,3), of "unset_resp\<lparr>resp_mtype := long_bytes RESP_MT_DATA\<rparr>" 0] by auto
  then show ?thesis using assms
    by (simp add: serveRequest_def Let_def end_msg_def resp_image_def)
qed

section \<open>Properties\<close>

definition cl_ok :: cl_calls where
  "cl_ok = \<lparr>server_named = True, reply_queue = Some 4, cl_atexit_ok = True, send_ok = True, cl_failure = (\<lambda>_. 0)\<rparr>"

lemma client_start_sends:
  assumes "server_named calls" and "reply_queue calls = Some q" and "cl_atexit_ok calls" and "send_ok calls"
    and "p \<noteq> ''--help''" and "length p < PATH_MAX"
  shows "client_start env calls [prog, p] s = Inr (Inr (take REQ_MSG_SIZE (req_image (client_request q p))))"
  using assms by (simp add: client_start_def Let_def PATH_MAX_def)

lemma first_message:
  assumes "8 \<le> length c"
  shows "long_of (resp_mtype (resp_of (fill (resp_image unset_resp) (piece_msg c)))) = Inr RESP_MT_DATA \<and>
    resp_mtype (resp_of (fill (resp_image unset_resp) (piece_msg c))) = long_bytes RESP_MT_DATA"
  using assms by (simp add: resp_of_def fill_def piece_msg_def RESP_MT_DATA_def long_of_values)

lemma short_receive:
  assumes "\<forall>c \<in> set (take 1 cs). length c < 8"
  shows "client_receive env e s (map Some (map piece_msg cs @ [end_msg])) = Inl Uninitialised"
proof -
  have partial: "long_of (resp_mtype (resp_of (fill (resp_image unset_resp) (map Some xs)))) = Inl Uninitialised"
    if "length xs < 8" for xs
  proof -
    have "8 - length xs = Suc (7 - length xs)" using that by simp
    then have "take 8 (fill (resp_image unset_resp) (map Some xs)) = map Some xs @ None # unset (7 - length xs)"
      using that by (simp add: fill_def resp_image_def unset_resp_def unset_def)
    then show ?thesis using long_of_unset by (simp add: resp_of_def)
  qed
  obtain m ms xs where m: "map piece_msg cs @ [end_msg] = m # ms" "m = map Some xs" "length xs < 8"
  proof (cases cs)
    case Nil
    then show ?thesis using that [of end_msg "[]" "[CHR 0x03]"]
      by (simp add: end_msg_def RESP_MT_END_def long_bytes_values)
  next
    case (Cons c cs')
    have t: "take (length c) (long_bytes RESP_MT_DATA) = map Some (take (length c) (CHR 0x02 # zeros 7))"
      by (simp only: RESP_MT_DATA_def long_bytes_values(2) take_map)
    show ?thesis
    proof (rule that)
      show "map piece_msg cs @ [end_msg] = piece_msg c # (map piece_msg cs' @ [end_msg])" by (simp add: Cons)
      show "piece_msg c = map Some (take (length c) (CHR 0x02 # zeros 7))"
        using assms(1) by (simp only: piece_msg_def t) (simp add: Cons)
      show "length (take (length c) (CHR 0x02 # zeros 7)) < 8" using assms(1) by (simp add: Cons)
    qed
  qed
  then show ?thesis
    using partial by (simp add: client_receive_def)
qed

text \<open>
  C15: A client that asks for a file (its path shorter than 4088 characters) and a child of the server that
  serves the request, whatever requests the server got before, when no call of either fails: if the first
  piece that is read of the file has at least eight bytes, the client prints the size of the file and the
  number of messages, one for every piece and one for the end; if it is shorter, or the file is empty, the client
  decides on a message type of which bytes were never set.
\<close>

theorem transfer_totals:
  assumes "server_named calls" and "reply_queue calls = Some q" and "cl_atexit_ok calls" and "send_ok calls"
    and "p \<noteq> ''--help''" and "nul_free p" and "length p < 4088" and "length (req_image old) = 4112"
    and "fs p = Some cs" and "\<forall>c \<in> set cs. length c \<le> RESP_MSG_SIZE" and "\<forall>j. ok j"
  shows "\<exists>m ch. client_start env calls [prog, p] s = Inr (Inr m) \<and>
    serveRequest fs ok (req_of (fill (req_image old) m)) = Inr ch \<and>
    client_receive env e s (map Some (sent ch)) =
      (if cs \<noteq> [] \<and> 8 \<le> length (hd cs)
       then Inr (Prints (totals (int (length (concat cs))) (int (length cs) + 1)) 0)
       else Inl Uninitialised)"
proof -
  let ?m = "take REQ_MSG_SIZE (req_image (client_request q p))"
  have "pieces_ok cs" using assms(10) by (simp add: pieces_ok_def)
  then have ch: "serveRequest fs ok (req_of (fill (req_image old) ?m)) =
      Inr \<lparr>sent = map piece_msg cs @ [end_msg], complaints = [], ended = Without_handlers 0\<rparr>"
    by (rule serveRequest_file [where fs = fs and ok = ok, OF request_arrives [OF assms(6-8)] assms(9) _ assms(11)])
  have "client_receive env e s (map Some (map piece_msg cs @ [end_msg])) =
      (if cs \<noteq> [] \<and> 8 \<le> length (hd cs)
       then Inr (Prints (totals (int (length (concat cs))) (int (length cs) + 1)) 0)
       else Inl Uninitialised)"
  proof (cases "cs \<noteq> [] \<and> 8 \<le> length (hd cs)")
    case True
    then obtain c ds where cs: "cs = c # ds" "8 \<le> length c" by (cases cs) auto
    let ?r = "resp_of (fill (resp_image unset_resp) (piece_msg c))"
    have "client_receive env e s (map Some (map piece_msg cs @ [end_msg])) =
        client_loop env e s (map Some (map piece_msg ds @ [end_msg])) ?r (int (length c)) 1"
      using first_message [OF cs(2)]
      by (simp add: cs(1) client_receive_def RESP_MT_DATA_def RESP_MT_FAILURE_def Let_def long_of_values(2))
    also have "\<dots> = Inr (Prints (totals (int (length (concat cs))) (int (length cs) + 1)) 0)"
      using client_loop_pieces [OF first_message [OF cs(2), THEN conjunct2]] by (simp add: cs(1))
    finally show ?thesis using True by simp
  next
    case False
    then have "\<forall>c \<in> set (take 1 cs). length c < 8" by (cases cs) auto
    from short_receive [OF this] False show ?thesis by auto
  qed
  then show ?thesis using client_start_sends [OF assms(1-5)] assms(7) ch by (simp add: PATH_MAX_def)
qed

definition fs_example :: "string \<Rightarrow> string list option" where
  "fs_example = [''notes'' \<mapsto> [''a file with a few words'' , ''and more'']]"

theorem transfer_totals_witness:
  "\<exists>m ch. client_start ef_example cl_ok [''client'', ''notes''] \<lparr>cur_errno = 0, acts = []\<rparr> = Inr (Inr m) \<and>
    serveRequest fs_example (\<lambda>_. True) (req_of (fill (req_image unset_req) m)) = Inr ch \<and>
    client_receive ef_example 0 \<lparr>cur_errno = 0, acts = []\<rparr> (map Some (sent ch)) =
      Inr (Prints (totals (int (length (concat [''a file with a few words'', ''and more''])))
        (int (length [''a file with a few words'', ''and more'']) + 1)) 0)"
  using transfer_totals [of cl_ok 4 "''notes''" unset_req fs_example "[''a file with a few words'', ''and more'']" "\<lambda>_. True"
      ef_example "''client''" "\<lparr>cur_errno = 0, acts = []\<rparr>" 0]
  by (simp add: cl_ok_def fs_example_def req_image_def unset_req_def PATH_MAX_def RESP_MSG_SIZE_def)

text \<open>
  The handler of SIGCHLD takes every child that has ended and no other, and leaves \<open>errno\<close> alone.
\<close>

theorem grimReaper_reaps: "grimReaper cs e = (filter (\<lambda>c. \<not> snd c) cs, e)"
  using reap_running [of cs e] by (cases "reap cs e") (simp add: grimReaper_def)

text \<open>
  The last eight bytes of every piece are lost on the way: of a piece of at least eight bytes the
  message carries its type and the bytes before.
\<close>

theorem data_cut:
  assumes "cells_str (pathname req) = Inr p" and "fs p = Some cs"
    and "\<forall>c \<in> set cs. 8 \<le> length c \<and> length c \<le> RESP_MSG_SIZE" and "\<forall>j. ok j"
  shows "\<exists>ch. serveRequest fs ok req = Inr ch \<and>
    map (drop 8) (sent ch) = map (\<lambda>c. map Some (take (length c - 8) c)) cs @ [[]]"
proof -
  have "pieces_ok cs" using assms(3) by (simp add: pieces_ok_def)
  moreover have "map (drop 8) (map piece_msg cs @ [end_msg]) = map (\<lambda>c. map Some (take (length c - 8) c)) cs @ [[]]"
    using assms(3) by (auto simp: piece_msg_def end_msg_def)
  ultimately show ?thesis using serveRequest_file [where fs = fs and ok = ok, OF assms(1,2) _ assms(4)] by auto
qed

lemma example_path: "nul_free p \<Longrightarrow> length p < 4088 \<Longrightarrow>
    cells_str (pathname (req_of (fill (req_image unset_req) (take REQ_MSG_SIZE (req_image (client_request 4 p)))))) = Inr p"
  by (rule request_arrives) (simp_all add: req_image_def unset_req_def PATH_MAX_def)

theorem data_cut_witness:
  "\<exists>ch. serveRequest fs_example (\<lambda>_. True)
      (req_of (fill (req_image unset_req) (take REQ_MSG_SIZE (req_image (client_request 4 ''notes''))))) = Inr ch \<and>
    map (drop 8) (sent ch) = [map Some ''a file with a f'', [], []]"
  using data_cut [OF example_path [of "''notes''"], where fs = fs_example and ok = "\<lambda>_. True" and
      cs = "[''a file with a few words'', ''and more'']"]
  by (simp add: fs_example_def RESP_MSG_SIZE_def)

text \<open>
  A file that is empty, or whose first piece has fewer than eight bytes, makes the client decide on a
  message type of which it has received only some bytes.
\<close>

theorem short_file_unset_type:
  assumes "cells_str (pathname req) = Inr p" and "fs p = Some cs" and "pieces_ok cs"
    and "\<forall>c \<in> set (take 1 cs). length c < 8" and "\<forall>j. ok j"
  shows "\<exists>ch. serveRequest fs ok req = Inr ch \<and>
    client_receive env e s (map Some (sent ch)) = Inl Uninitialised"
  using serveRequest_file [where fs = fs and ok = ok, OF assms(1-3,5)] short_receive [OF assms(4)] by auto

theorem short_file_unset_type_witness:
  "\<exists>ch. serveRequest [''empty'' \<mapsto> []] (\<lambda>_. True)
      (req_of (fill (req_image unset_req) (take REQ_MSG_SIZE (req_image (client_request 4 ''empty''))))) = Inr ch \<and>
    client_receive ef_example 0 \<lparr>cur_errno = 0, acts = []\<rparr> (map Some (sent ch)) = Inl Uninitialised"
  by (rule short_file_unset_type [OF example_path, where cs = "[]"]) (simp_all add: pieces_ok_def)

text \<open>
  The text for a file that cannot be opened reaches the client as its first six characters without a
  terminator: printing it reads bytes that nobody has set.
\<close>

theorem failure_text_cut:
  assumes "cells_str (pathname req) = Inr p" and "fs p = None" and "ok 0"
  shows "\<exists>ch. serveRequest fs ok req = Inr ch \<and>
    map (drop 8) (sent ch) = [map Some ''Couldn''] \<and>
    client_receive env e s (map Some (sent ch)) = Inl Uninitialised"
proof -
  let ?t = "''Couldn'' @ [CHR 0x27] @ ''t open''"
  let ?m = "long_bytes RESP_MT_FAILURE @ map Some ''Couldn''"
  have sent: "serveRequest fs ok req = Inr \<lparr>sent = [?m], complaints = [], ended = With_handlers 1\<rparr>"
    using assms by (simp add: serveRequest_def Let_def resp_image_def fill_def)
  have image: "fill (resp_image unset_resp) ?m = ?m @ None # unset (RESP_MSG_SIZE - 7)"
    by (simp add: fill_def resp_image_def unset_resp_def unset_def RESP_MSG_SIZE_def Suc_diff_Suc flip: replicate_Suc)
  have "client_receive env e s [Some ?m] = Inl Uninitialised"
    unfolding client_receive_def list.case option.case Let_def image
    using cells_str_unset [of "''Couldn''" "unset (RESP_MSG_SIZE - 7)"]
    by (simp add: resp_of_def RESP_MT_FAILURE_def long_of_values(1) [unfolded One_nat_def])
  then show ?thesis using sent by simp
qed

theorem failure_text_cut_witness:
  "\<exists>ch. serveRequest Map.empty (\<lambda>_. True)
      (req_of (fill (req_image unset_req) (take REQ_MSG_SIZE (req_image (client_request 4 ''none''))))) = Inr ch \<and>
    map (drop 8) (sent ch) = [map Some ''Couldn''] \<and>
    client_receive ef_example 0 \<lparr>cur_errno = 0, acts = []\<rparr> (map Some (sent ch)) = Inl Uninitialised"
  by (rule failure_text_cut [OF example_path]) simp_all

text \<open>A queue without its name does not get it back.\<close>

lemma removeQueue_unnamed: "\<exists>e fin. removeQueue env calls False s = Inr (Some (e, fin))"
  by (simp add: removeQueue_def errExit_def outputError_ok [OF vformat_plain])

lemma exit_handlers_unnamed:
  "\<not> named st \<Longrightarrow> exit_handlers env calls st fin = Inr (st', r) \<Longrightarrow> \<not> named st'"
  by (auto simp: exit_handlers_def bind_simps split: option.splits)

lemma leave_unnamed:
  assumes "\<not> named st" and "leave env calls st = Inr (st', r)"
  shows "\<not> named st'"
proof -
  obtain e fin where "removeQueue env calls False (sv_err st) = Inr (Some (e, fin))"
    using removeQueue_unnamed by blast
  then have "leave env calls st =
      (if fin = Abort then Inr (st\<lparr>sv_err := e\<rparr>, Some Abort) else exit_handlers env calls (st\<lparr>sv_err := e\<rparr>) fin)"
    using assms(1) by (cases fin) (simp_all add: leave_def)
  then have run: "(if fin = Abort then Inr (st\<lparr>sv_err := e\<rparr>, Some Abort)
      else exit_handlers env calls (st\<lparr>sv_err := e\<rparr>) fin) = Inr (st', r)"
    using assms(2) by simp
  show ?thesis
  proof (cases "fin = Abort")
    case True
    then show ?thesis using run assms(1) by auto
  next
    case False
    then have "exit_handlers env calls (st\<lparr>sv_err := e\<rparr>) fin = Inr (st', r)" using run by simp
    then show ?thesis by (rule exit_handlers_unnamed [rotated]) (simp add: assms(1))
  qed
qed

lemma server_loop_unnamed:
  "\<not> named st \<Longrightarrow> server_loop env calls fs es st = Inr (st', r) \<Longrightarrow> \<not> named st'"
proof (induction env calls fs es st rule: server_loop.induct)
  case (3 env calls fs es st)
  then obtain e where "leave env calls (st\<lparr>sv_err := e\<rparr>) = Inr (st', r)" by (auto simp: bindE_Inr_iff)
  then show ?case by (rule leave_unnamed [rotated]) (simp add: 3(1))
next
  case (4 env calls fs m forked ok es st)
  let ?req = "req_of (fill (req_image (req_buf st)) m)"
  show ?case
  proof (cases forked)
    case True
    then obtain c where "serveRequest fs ok ?req = Inr c"
        "server_loop env calls fs es (st\<lparr>req_buf := ?req, served_by := served_by st @ [c],
          named := (named st \<and> ended c = Without_handlers 0)\<rparr>) = Inr (st', r)"
      using 4(3) by (auto simp: bindE_Inr_iff Let_def)
    then show ?thesis using 4(1) [of ?req c] 4(2) True by simp
  next
    case False
    then obtain e where "leave env calls (st\<lparr>req_buf := ?req, sv_err := e\<rparr>) = Inr (st', r)"
      using 4(3) by (auto simp: bindE_Inr_iff Let_def)
    then show ?thesis by (rule leave_unnamed [rotated]) (simp add: 4(2))
  qed
qed auto

text \<open>
  C22: A request for a file that cannot be opened takes the service down for every later client: the child
  ends through the handlers it inherited, which remove the name of the server's queue, and whatever
  the server does afterwards, a client ends with the report that it cannot open that queue.
\<close>

theorem failed_request_closes_service:
  assumes "cells_str (pathname (req_of (fill (req_image (req_buf st)) m))) = Inr p" and "fs p = None"
    and "server_loop env calls fs (Request m True ok # es) st = Inr (st', r)"
    and "server_named cl = named st'" and "path \<noteq> ''--help''" and "length path < PATH_MAX"
  shows "client_start env cl [prog, path] s =
    bindE (errExit env ''mq_open - server message queue'' [] (s\<lparr>cur_errno := cl_failure cl ''mq_open''\<rparr>))
      (\<lambda>x. Inr (Inl x))"
proof -
  let ?req = "req_of (fill (req_image (req_buf st)) m)"
  obtain c where c: "serveRequest fs ok ?req = Inr c" "ended c = With_handlers 1"
    using assms(1,2) by (auto simp: serveRequest_def Let_def)
  then have "server_loop env calls fs es (st\<lparr>req_buf := ?req, served_by := served_by st @ [c], named := False\<rparr>) =
      Inr (st', r)"
    using assms(3) by (simp add: Let_def)
  then have "\<not> named st'" by (rule server_loop_unnamed [rotated]) simp
  then show ?thesis using assms(4-6) by (simp add: client_start_def Let_def PATH_MAX_def)
qed

definition sv_example :: sv_state where
  "sv_example = \<lparr>req_buf = unset_req, named = True, served_by = [], sv_err = \<lparr>cur_errno = 0, acts = []\<rparr>\<rparr>"

theorem failed_request_closes_service_witness:
  "\<exists>st' r. server_loop ef_example \<lparr>queue_ok = True, atexit_ok = True, action_ok = True, failure = (\<lambda>_. 4)\<rparr> fs_example
      [Request (take REQ_MSG_SIZE (req_image (client_request 4 ''none''))) True (\<lambda>_. True)] sv_example = Inr (st', r) \<and>
    client_start ef_example (cl_ok\<lparr>server_named := named st'\<rparr>) [''client'', ''notes''] \<lparr>cur_errno = 0, acts = []\<rparr> =
      bindE (errExit ef_example ''mq_open - server message queue'' []
        (\<lparr>cur_errno = 0, acts = []\<rparr>\<lparr>cur_errno := cl_failure (cl_ok\<lparr>server_named := named st'\<rparr>) ''mq_open''\<rparr>))
        (\<lambda>x. Inr (Inl x))"
proof -
  let ?m = "take REQ_MSG_SIZE (req_image (client_request 4 ''none''))"
  let ?calls = "\<lparr>queue_ok = True, atexit_ok = True, action_ok = True, failure = (\<lambda>_. 4)\<rparr>"
  have p: "cells_str (pathname (req_of (fill (req_image (req_buf sv_example)) ?m))) = Inr ''none''"
    using example_path [of "''none''"] by (simp add: sv_example_def)
  have f: "fs_example ''none'' = None" by (simp add: fs_example_def)
  obtain st' r where run: "server_loop ef_example ?calls fs_example [Request ?m True (\<lambda>_. True)] sv_example = Inr (st', r)"
    using p f by (auto simp: serveRequest_def Let_def)
  show ?thesis
    by (intro exI conjI, rule run, rule failed_request_closes_service [OF p f run]) (simp_all add: PATH_MAX_def)
qed

text \<open>
  The first request with a path of 4088 to 4095 characters, which the client accepts, arrives without a
  terminator, and the server reads past what it received.
\<close>

theorem long_path_unterminated:
  assumes "nul_free p" and "4088 \<le> length p" and "length p < PATH_MAX"
    and "client_start env calls [prog, p] s = Inr (Inr m)"
  shows "serveRequest fs ok (req_of (fill (req_image unset_req) m)) = Inl Uninitialised"
proof -
  obtain q where m: "m = take REQ_MSG_SIZE (req_image (client_request q p))"
    using assms(4) by (auto simp: client_start_def Let_def bindE_Inr_iff split: if_splits option.splits)
  have "take 4088 (pad 4095 p) = take 4088 p" using assms(2) by (simp add: pad_def)
  moreover have "length (req_image unset_req) = 4112" "take 8 (drop 4100 (req_image unset_req)) = None # unset 7"
    by (simp_all add: req_image_def unset_req_def unset_def PATH_MAX_def numeral_eq_Suc)
  ultimately have "pathname (req_of (fill (req_image unset_req) m)) = map Some (take 4088 p) @ None # unset 7"
    using request_path [OF assms(3), of unset_req q] by (simp add: m)
  moreover have "nul_free (take 4088 p)" using assms(1) by (auto simp: nul_free_def dest: in_set_takeD)
  ultimately show ?thesis using cells_str_unset by (simp add: serveRequest_def)
qed

theorem long_path_unterminated_witness:
  "serveRequest fs_example (\<lambda>_. True) (req_of (fill (req_image unset_req)
      (take REQ_MSG_SIZE (req_image (client_request 4 (replicate 4090 CHR ''x'')))))) = Inl Uninitialised"
proof (rule long_path_unterminated [where p = "replicate 4090 CHR ''x''"])
  show "nul_free (replicate 4090 CHR ''x'')" by (simp add: nul_free_def)
  show "client_start ef_example cl_ok [''client'', replicate 4090 CHR ''x''] \<lparr>cur_errno = 0, acts = []\<rparr> =
      Inr (Inr (take REQ_MSG_SIZE (req_image (client_request 4 (replicate 4090 CHR ''x'')))))"
  proof (rule client_start_sends)
    show "replicate 4090 CHR ''x'' \<noteq> ''--help''" by (simp add: numeral_eq_Suc)
  qed (simp_all add: cl_ok_def PATH_MAX_def)
qed (simp_all add: PATH_MAX_def)


text \<open>
  Every client has the same reply queue, and nothing in a reply says whose it is: the messages of a child
  do not depend on the client that asked.
\<close>

lemma replies_unaddressed: "serveRequest fs ok (req\<lparr>clientId := c\<rparr>) = serveRequest fs ok req"
  by (simp add: serveRequest_def)

end
