(* ===== verification/FileCopy.thy ===== *)
theory FileCopy
  imports CLib
begin

text \<open>
  The programs that move bytes between files: the tee of \<open>src/SP_HW1/hw1-1.c\<close>, the copy of
  \<open>hw1-2.c\<close>, the test file of \<open>produce_file.c\<close>, and the memory-mapped copy \<open>src/SP_HW9/49/49-1.c\<close>.

  A file system is a map from paths to contents.  Which calls fail, and how much a read or a write
  moves, are arguments; a read or write of fewer bytes than asked for is a value like any other.
  \<open>malloc\<close> is taken to succeed.  The locale \<open>tee_mode\<close> is the contract of the two ways tee stores what
  it reads; the append mode and the overwriting mode are its interpretations.
\<close>

type_synonym files = "string \<Rightarrow> string option"

definition arg :: "string list \<Rightarrow> nat \<Rightarrow> string option" where
  "arg argv i = (if i < length argv then Some (argv ! i) else None)"

text \<open>\<open>write\<close>: the value it returns and the bytes written, for the number of bytes it takes.\<close>

definition write_result :: "nat option \<Rightarrow> string \<Rightarrow> int \<times> string" where
  "write_result n s = (case n of None \<Rightarrow> (- 1, []) | Some k \<Rightarrow> (int (min k (length s)), take k s))"

section \<open>tee\<close>

record file_calls =
  f_open :: bool
  f_write :: "nat option"
  f_close :: bool

text \<open>One round: what \<open>read\<close> gets, how much the standard output takes, and the calls on the files.\<close>

record tee_round =
  t_input :: "string option"
  t_out :: "nat option"
  t_trunc :: file_calls
  t_append :: file_calls

datatype tee_step = Continue files string | Stop files string

definition tee_file :: "file_calls \<Rightarrow> string option \<Rightarrow> (string \<Rightarrow> string) \<Rightarrow> bool \<Rightarrow> string \<Rightarrow> files \<Rightarrow> files \<times> string option" where
  "tee_file c path keep strict s fs =
     (case path of
        None \<Rightarrow> (fs, Some ''open error'')
      | Some p \<Rightarrow>
          if \<not> f_open c then (fs, Some ''open error'')
          else
            (let (n, w) = write_result (f_write c) s;
                 fs' = fs(p \<mapsto> keep (case fs p of None \<Rightarrow> [] | Some old \<Rightarrow> old) @ w)
             in if n < 0 \<or> strict \<and> n = 0 then (fs', Some ''write error'')
                else if \<not> f_close c then (fs', Some ''close error'')
                else (fs', None)))"

definition tee_once :: "string list \<Rightarrow> tee_round \<Rightarrow> files \<Rightarrow> tee_step res" where
  "tee_once argv r fs =
     (case t_input r of
        None \<Rightarrow> Inr (Stop fs (''read error'' @ [NL]))
      | Some [] \<Rightarrow> Inr (Stop fs (''read error'' @ [NL]))
      | Some chunk \<Rightarrow>
          bindE (cstr (pad 1024 chunk)) (\<lambda>s.
          (let (n, w) = write_result (t_out r) s in
           if n \<le> 0 then Inr (Stop fs (w @ ''write error'' @ [NL]))
           else
             (let (fs1, e1) = (if arg argv 1 \<noteq> None \<and> length argv \<le> 2
                     then tee_file (t_trunc r) (arg argv 1) (\<lambda>_. []) True s fs else (fs, None)) in
              case e1 of
                Some e \<Rightarrow> Inr (Stop fs1 (w @ e @ [NL]))
              | None \<Rightarrow>
                  (let (fs2, e2) = (if arg argv 1 = Some ''-a''
                          then tee_file (t_append r) (arg argv 2) (\<lambda>old. old) False s fs1 else (fs1, None)) in
                   case e2 of
                     Some e \<Rightarrow> Inr (Stop fs2 (w @ e @ [NL]))
                   | None \<Rightarrow> Inr (Continue fs2 w))))))"

text \<open>The loop: the files, what has been printed, and the status; without a status the rounds ran out.\<close>

fun tee_main :: "string list \<Rightarrow> tee_round list \<Rightarrow> files \<Rightarrow> (files \<times> string \<times> int option) res" where
  "tee_main argv [] fs = Inr (fs, [], None)"
| "tee_main argv (r # rs) fs =
     bindE (tee_once argv r fs) (\<lambda>t.
     case t of
       Stop fs' out \<Rightarrow> Inr (fs', out, Some 1)
     | Continue fs' out \<Rightarrow>
         bindE (tee_main argv rs fs') (\<lambda>(fs'', out', e). Inr (fs'', out @ out', e)))"

section \<open>copy\<close>

record copy_calls =
  c_open1 :: bool
  c_lseek :: bool
  c_close1 :: bool
  c_open2 :: bool
  c_read :: "nat option"
  c_close2 :: bool
  c_open3 :: bool
  c_write :: "nat option"
  c_close3 :: bool

definition content :: "files \<Rightarrow> string \<Rightarrow> string" where
  "content fs p = (case fs p of None \<Rightarrow> [] | Some s \<Rightarrow> s)"

text \<open>
  Copy \<open>src\<close> to \<open>dst\<close>: the files and the message of the failure, if any, which goes with status 1.  A
  source that does not exist is created.
\<close>

definition copy_main :: "copy_calls \<Rightarrow> string \<Rightarrow> string \<Rightarrow> files \<Rightarrow> (files \<times> string option) res" where
  "copy_main c src dst fs =
     (if \<not> c_open1 c then Inr (fs, Some ''open error'')
      else
        (let s = content fs src; fs1 = fs(src \<mapsto> s); buf_size = to_int32 (int (length s)) in
         if \<not> c_lseek c \<or> buf_size < 0 then Inr (fs1, Some ''lseek error'')
         else if \<not> c_close1 c then Inr (fs1, Some ''close error'')
         else if \<not> c_open2 c then Inr (fs1, Some ''open error'')
         else case c_read c of
           None \<Rightarrow> Inr (fs1, Some ''read error'')
         | Some k \<Rightarrow>
             (let buf = take (min k (nat buf_size)) s in
              if \<not> c_close2 c then Inr (fs1, Some ''close error'')
              else if \<not> c_open3 c then Inr (fs1, Some ''open error'')
              else
                (let fs2 = fs1(dst \<mapsto> []) in
                 case c_write c of
                   None \<Rightarrow> Inr (fs2, Some ''write error'')
                 | Some m \<Rightarrow>
                     if length buf < min m (nat buf_size) then Inl Uninitialised
                     else
                       (let fs3 = fs2(dst \<mapsto> take m buf) in
                        if \<not> c_close3 c then Inr (fs3, Some ''close error'')
                        else Inr (fs3, None))))))"

definition null_bytes :: string where
  "null_bytes = ''sa'' @ zeros 3 @ ''dscdcsc'' @ zeros 4 @ ''ssccddsc''"

definition produce_file :: "files \<Rightarrow> files" where
  "produce_file fs = fs(''nullbyte.txt'' \<mapsto> null_bytes)"

section \<open>Memory-mapped copy\<close>

record map_calls =
  m_open :: bool
  m_stat :: bool
  m_map :: bool
  m_open1 :: bool
  m_trunc :: bool
  m_map1 :: bool

text \<open>
  The mapping of a file of no bytes fails, and a failed mapping is not NULL, so it goes unnoticed until
  \<open>memcpy\<close> touches it.  Both mappings are shared: when the files are the same, \<open>memcpy\<close> reads what the
  truncation has left.
\<close>

definition map_copy :: "map_calls \<Rightarrow> string \<Rightarrow> string \<Rightarrow> files \<Rightarrow> (files \<times> string option) res" where
  "map_copy c src dst fs =
     (case fs src of
        None \<Rightarrow> Inr (fs, Some ''open error'')
      | Some s \<Rightarrow>
          if \<not> m_open c then Inr (fs, Some ''open error'')
          else if \<not> m_stat c then Inr (fs, Some ''stat error'')
          else if \<not> m_open1 c then Inr (fs, Some ''open1 error'')
          else if \<not> m_trunc c then Inr (fs(dst \<mapsto> []), Some ''ftruncate error'')
          else
            (let fs1 = fs(dst \<mapsto> zeros (length s)) in
             if s = [] then Inr (fs1, None)
             else if \<not> m_map c \<or> \<not> m_map1 c then Inl OutOfBounds
             else Inr (fs1(dst \<mapsto> content fs1 src), None)))"

section \<open>Sessions of tee\<close>

definition all_written :: file_calls where
  "all_written = \<lparr>f_open = True, f_write = Some 1024, f_close = True\<rparr>"

definition good_round :: "string \<Rightarrow> tee_round" where
  "good_round s = \<lparr>t_input = Some s, t_out = Some 1024, t_trunc = all_written, t_append = all_written\<rparr>"

definition text_chunk :: "string \<Rightarrow> bool" where
  "text_chunk s \<longleftrightarrow> s \<noteq> [] \<and> nul_free s \<and> length s < 1024"

lemma tee_once_end: "tee_once argv (good_round []) fs = Inr (Stop fs (''read error'' @ [NL]))"
  by (simp add: tee_once_def good_round_def)

locale tee_mode =
  fixes argv :: "string \<Rightarrow> string list" and legal :: "string \<Rightarrow> bool" and keep :: "string \<Rightarrow> string \<Rightarrow> string"
  assumes stores: "legal p \<Longrightarrow> text_chunk s \<Longrightarrow>
      tee_once (argv p) (good_round s) fs = Inr (Continue (fs(p \<mapsto> keep (content fs p) s)) s)"
begin

lemma tee_session:
  assumes "legal p" and "\<forall>s \<in> set ss. text_chunk s" and "ss \<noteq> []"
  shows "tee_main (argv p) (map good_round ss @ [good_round []]) fs =
    Inr (fs(p \<mapsto> foldl keep (content fs p) ss), concat ss @ ''read error'' @ [NL], Some 1)"
  using assms(2,3)
proof (induction ss arbitrary: fs)
  case (Cons s ss)
  define fs' where "fs' = fs(p \<mapsto> keep (content fs p) s)"
  have c: "content fs' p = keep (content fs p) s" by (simp add: fs'_def content_def)
  have upd: "fs'(p \<mapsto> v) = fs(p \<mapsto> v)" for v by (simp add: fs'_def)
  have one: "tee_once (argv p) (good_round s) fs = Inr (Continue fs' s)"
    using stores [OF assms(1), of s fs] Cons.prems by (simp add: fs'_def)
  have rest: "tee_main (argv p) (map good_round ss @ [good_round []]) fs' =
      Inr (fs(p \<mapsto> foldl keep (content fs p) (s # ss)), concat ss @ ''read error'' @ [NL], Some 1)"
  proof (cases "ss = []")
    case True
    then show ?thesis by (simp add: tee_once_end fs'_def)
  next
    case False
    then have "tee_main (argv p) (map good_round ss @ [good_round []]) fs' =
        Inr (fs'(p \<mapsto> foldl keep (content fs' p) ss), concat ss @ ''read error'' @ [NL], Some 1)"
      using Cons.prems by (intro Cons.IH) simp_all
    then show ?thesis by (simp only: upd c foldl.simps)
  qed
  show ?case
    by (simp only: list.map append_Cons tee_main.simps one rest bindE.simps tee_step.case prod.case
        append_assoc concat.simps)
qed simp

end

lemma chunk_read: "text_chunk s \<Longrightarrow> cstr (pad 1024 s) = Inr s"
  by (simp add: text_chunk_def cstr_pad)

lemma chunk_written: "text_chunk s \<Longrightarrow> write_result (Some 1024) s = (int (length s), s)"
  by (simp add: write_result_def text_chunk_def)

lemma tee_file_ok:
  assumes "text_chunk s"
  shows "tee_file all_written (Some p) keep b s fs = (fs(p \<mapsto> keep (content fs p) @ s), None)"
  using assms chunk_written [OF assms]
  by (simp add: tee_file_def all_written_def content_def text_chunk_def)

lemma tee_once_text:
  assumes "text_chunk s"
  shows "tee_once argv (good_round s) fs =
    (let (fs1, e1) = (if arg argv 1 \<noteq> None \<and> length argv \<le> 2
                     then tee_file all_written (arg argv 1) (\<lambda>_. []) True s fs else (fs, None)) in
     case e1 of
       Some e \<Rightarrow> Inr (Stop fs1 (s @ e @ [NL]))
     | None \<Rightarrow>
         (let (fs2, e2) = (if arg argv 1 = Some ''-a''
                          then tee_file all_written (arg argv 2) (\<lambda>old. old) False s fs1 else (fs1, None)) in
          case e2 of
            Some e \<Rightarrow> Inr (Stop fs2 (s @ e @ [NL]))
          | None \<Rightarrow> Inr (Continue fs2 s)))"
proof -
  obtain c cs where "s = c # cs" using assms by (cases s) (auto simp: text_chunk_def)
  then show ?thesis
    using chunk_read [OF assms] chunk_written [OF assms]
    by (simp add: tee_once_def good_round_def)
qed

interpretation tee_append: tee_mode "\<lambda>p. [prog, ''-a'', p]" "\<lambda>_. True" "\<lambda>old s. old @ s" for prog
  by unfold_locales (simp add: tee_once_text tee_file_ok arg_def)

interpretation tee_over: tee_mode "\<lambda>p. [prog, p]" "\<lambda>p. p \<noteq> ''-a''" "\<lambda>_ s. s" for prog
  by unfold_locales (simp add: tee_once_text tee_file_ok arg_def)

lemma foldl_append: "foldl (\<lambda>old s. old @ s) acc ss = acc @ concat ss"
  by (induction ss arbitrary: acc) auto

lemma foldl_last: "ss \<noteq> [] \<Longrightarrow> foldl (\<lambda>_ s. s) acc ss = last ss"
  by (induction ss arbitrary: acc) auto

section \<open>Properties\<close>

text \<open>
  tee -a copies its input to the standard output and appends it to the file, in the order read, and
  ends with status 1 and a complaint about reading at the end of the input.
\<close>

theorem tee_appends:
  assumes "\<forall>s \<in> set ss. text_chunk s" and "ss \<noteq> []"
  shows "tee_main [prog, ''-a'', p] (map good_round ss @ [good_round []]) fs =
    Inr (fs(p \<mapsto> content fs p @ concat ss), concat ss @ ''read error'' @ [NL], Some 1)"
  using tee_append.tee_session [OF TrueI assms, of prog p fs] by (simp add: foldl_append)

theorem tee_appends_witness:
  "tee_main [''tee'', ''-a'', ''log''] (map good_round [''one '', ''two''] @ [good_round []]) [''log'' \<mapsto> ''zero ''] =
    Inr ([''log'' \<mapsto> ''zero one two''], ''one tworead error'' @ [NL], Some 1)"
  using tee_appends [of "[''one '', ''two'']" "''tee''" "''log''" "[''log'' \<mapsto> ''zero '']"]
  by (simp add: text_chunk_def content_def)

text \<open>
  Without -a the file is opened anew in every round, so it holds only the last chunk that was read.
\<close>

theorem tee_keeps_last:
  assumes "\<forall>s \<in> set ss. text_chunk s" and "ss \<noteq> []" and "p \<noteq> ''-a''"
  shows "tee_main [prog, p] (map good_round ss @ [good_round []]) fs =
    Inr (fs(p \<mapsto> last ss), concat ss @ ''read error'' @ [NL], Some 1)"
  using tee_over.tee_session [OF assms(3,1,2), of prog fs] assms(2) by (simp add: foldl_last)

theorem tee_keeps_last_witness:
  "tee_main [''tee'', ''out''] (map good_round [''one '', ''two''] @ [good_round []]) Map.empty =
    Inr ([''out'' \<mapsto> ''two''], ''one tworead error'' @ [NL], Some 1)"
  using tee_keeps_last [of "[''one '', ''two'']" "''out''" "''tee''" Map.empty]
  by (simp add: text_chunk_def)

text \<open>
  A read that fills the buffer with characters other than the null character makes tee look for the end
  of the string behind the buffer.
\<close>

theorem tee_full_buffer:
  assumes "t_input r = Some s" and "length s = 1024" and "nul_free s"
  shows "tee_main argv (r # rs) fs = Inl OutOfBounds"
proof -
  obtain c cs where "s = c # cs" using assms(2) by (cases s) auto
  then show ?thesis using assms by (simp add: tee_once_def pad_def cstr_def nul_free_def)
qed

theorem tee_full_buffer_witness:
  "tee_main [''tee''] [good_round (replicate 1024 CHR ''x'')] Map.empty = Inl OutOfBounds"
  by (rule tee_full_buffer [where s = "replicate 1024 CHR ''x''"]) (simp_all add: good_round_def nul_free_def)

text \<open>
  The copy copies every file of fewer than 2^31 bytes, null characters and the source itself as
  destination included.
\<close>

definition copy_ok :: "nat \<Rightarrow> copy_calls" where
  "copy_ok n = \<lparr>c_open1 = True, c_lseek = True, c_close1 = True, c_open2 = True, c_read = Some n,
     c_close2 = True, c_open3 = True, c_write = Some n, c_close3 = True\<rparr>"

lemma to_int32_small: "n < 2 ^ 31 \<Longrightarrow> to_int32 (int n) = int n"
  by (rule to_int32_ident) (simp_all add: INT_MIN_def INT_MAX_def)

theorem copy_copies:
  assumes "fs src = Some s" and "length s < 2 ^ 31" and "length s \<le> n"
  shows "copy_main (copy_ok n) src dst fs = Inr (fs(dst \<mapsto> s), None)"
proof -
  have "fs(src \<mapsto> s) = fs" using assms(1) by auto
  then show ?thesis
    using assms to_int32_small [OF assms(2)]
    by (simp add: copy_main_def copy_ok_def content_def Let_def)
qed

theorem copy_copies_witness:
  "copy_main (copy_ok 24) ''nullbyte.txt'' ''copy'' (produce_file Map.empty) =
    Inr ((produce_file Map.empty)(''copy'' \<mapsto> null_bytes), None)"
  by (rule copy_copies) (simp_all add: produce_file_def null_bytes_def)

text \<open>
  The size of the source goes through an int: a file of 2^31 to 2^32 - 1 bytes is refused, and a longer
  one can be cut without a message.
\<close>

theorem copy_size_wraps:
  assumes "fs src = Some s" and "length s \<le> n" and "2 ^ 31 \<le> length s" and "length s < 2 ^ 32 + 2 ^ 31"
  shows "copy_main (copy_ok n) src dst fs =
    (if length s < 2 ^ 32 then Inr (fs, Some ''lseek error'')
     else Inr (fs(dst \<mapsto> take (length s - 2 ^ 32) s), None))"
proof -
  have e: "to_int32 (int (length s)) = int (length s) - 2 ^ 32"
  proof -
    have "(word_of_int (int (length s)) :: 32 word) = word_of_int (int (length s) - 2 ^ 32)"
      by (simp add: word_of_int_eq_iff take_bit_eq_mod)
    then have "to_int32 (int (length s)) = to_int32 (int (length s) - 2 ^ 32)"
      by (simp only: to_int32_def)
    then show ?thesis using assms(3,4) by (simp add: to_int32_ident INT_MIN_def INT_MAX_def)
  qed
  have f: "fs(src \<mapsto> s) = fs" using assms(1) by auto
  show ?thesis
  proof (cases "length s < 2 ^ 32")
    case True
    then have "int (length s) - 2 ^ 32 < 0" by simp
    then show ?thesis using True f assms(1) by (simp add: copy_main_def copy_ok_def content_def Let_def e)
  next
    case False
    then have "nat (int (length s) - 2 ^ 32) = length s - 2 ^ 32" "\<not> int (length s) - 2 ^ 32 < 0" by simp_all
    then show ?thesis using False f assms(1,2)
      by (simp add: copy_main_def copy_ok_def content_def Let_def e)
  qed
qed

theorem copy_size_wraps_witness:
  "copy_main (copy_ok (2 ^ 32 + 5)) ''big'' ''copy'' [''big'' \<mapsto> replicate (2 ^ 32 + 5) CHR ''x''] =
    Inr ([''big'' \<mapsto> replicate (2 ^ 32 + 5) CHR ''x'', ''copy'' \<mapsto> replicate 5 CHR ''x''], None)"
  using copy_size_wraps [of "[''big'' \<mapsto> replicate (2 ^ 32 + 5) CHR ''x'']" "''big''"
      "replicate (2 ^ 32 + 5) CHR ''x''" "2 ^ 32 + 5" "''copy''"] by simp

text \<open>
  The memory-mapped copy copies a file to another, and turns a file copied onto itself into null
  characters of the same number.
\<close>

theorem map_copy_contents:
  assumes "fs src = Some s" and "c = \<lparr>m_open = True, m_stat = True, m_map = True, m_open1 = True,
      m_trunc = True, m_map1 = True\<rparr>"
  shows "map_copy c src dst fs = Inr (fs(dst \<mapsto> if dst = src then zeros (length s) else s), None)"
  using assms by (auto simp: map_copy_def content_def Let_def zeros_def)

theorem map_copy_contents_witness:
  "map_copy \<lparr>m_open = True, m_stat = True, m_map = True, m_open1 = True, m_trunc = True, m_map1 = True\<rparr>
      ''a'' ''a'' [''a'' \<mapsto> ''text''] = Inr ([''a'' \<mapsto> zeros (length ''text'')], None)"
  using map_copy_contents [of "[''a'' \<mapsto> ''text'']" "''a''" "''text''" _ "''a''"] by simp

end
