(* ===== verification/SingleFloat.thy ===== *)
theory SingleFloat
  imports "HOL-Library.Log_Nat" Complex_Main
begin

text \<open>
  The type \<open>float\<close> of the C programs, as far as the loss rate of \<open>src/SP_HW10/program.c\<close> needs it: IEEE single
  precision, where every conversion and every operation rounds its exact result to 24 significant bits, to
  the nearest and halfway to the even one.  The values are rational; the exponents that occur are far from
  the ends of the range, so that overflow and denormal numbers are left out.

  The lemmas show that numbers of 24 bits are not changed, and that rounding does not cross them.
\<close>

section \<open>Rounding\<close>

text \<open>To the nearest integer, halfway to the even one.\<close>

definition to_nearest :: "rat \<Rightarrow> int" where
  "to_nearest y =
     (let f = \<lfloor>y\<rfloor>; r = y - of_int f in
      if r < 1 / 2 \<or> (r = 1 / 2 \<and> even f) then f else f + 1)"

text \<open>The exponent: \<open>2 ^ e \<le> x < 2 ^ (e + 1)\<close>, from the lengths of numerator and denominator.\<close>

definition exponent :: "rat \<Rightarrow> int" where
  "exponent x =
     (let (n, d) = quotient_of x; k = bitlen n - bitlen d in if 2 powi k \<le> x then k else k - 1)"

definition round24 :: "rat \<Rightarrow> rat" where
  "round24 x = (let u = 2 powi (exponent x - 23) in of_int (to_nearest (x / u)) * u)"

definition single :: "rat \<Rightarrow> rat" where
  "single x = (if x = 0 then 0 else if x < 0 then - round24 (- x) else round24 x)"

section \<open>Lemmas\<close>

lemma to_nearest_le: "y \<le> of_int m \<Longrightarrow> to_nearest y \<le> m"
proof (cases "y = of_int m")
  case True
  then show ?thesis by (simp add: to_nearest_def)
next
  case False
  assume "y \<le> of_int m"
  with False have "y < of_int m" by simp
  then have "\<lfloor>y\<rfloor> < m" by (simp add: floor_less_iff)
  then show ?thesis by (simp add: to_nearest_def Let_def)
qed

lemma to_nearest_ge: "of_int m \<le> y \<Longrightarrow> m \<le> to_nearest y"
proof -
  assume "of_int m \<le> y"
  then have "m \<le> \<lfloor>y\<rfloor>" by (simp add: le_floor_iff)
  then show ?thesis by (simp add: to_nearest_def Let_def)
qed

lemma powi_bitlen:
  assumes "0 < n"
  shows "(2 :: rat) powi (bitlen n - 1) \<le> of_int n \<and> (of_int n :: rat) < 2 powi bitlen n"
proof -
  have b: "2 ^ nat (bitlen n - 1) \<le> n" "n < 2 ^ nat (bitlen n)" using bitlen_bounds [OF assms] by simp_all
  have pos: "0 < bitlen n"
  proof (rule ccontr)
    assume "\<not> 0 < bitlen n"
    then have "nat (bitlen n) = 0" by simp
    with b(2) assms show False by simp
  qed
  have "(of_int (2 ^ nat (bitlen n - 1)) :: rat) \<le> of_int n" using b(1) by (simp only: of_int_le_iff)
  moreover have "(of_int n :: rat) < of_int (2 ^ nat (bitlen n))" using b(2) by (simp only: of_int_less_iff)
  ultimately show ?thesis using pos by (simp add: power_int_def)
qed

lemma exponent_bounds:
  assumes "0 < x"
  shows "2 powi exponent x \<le> x \<and> x < 2 powi (exponent x + 1)"
proof -
  obtain n d where q: "quotient_of x = (n, d)" by (cases "quotient_of x")
  have d: "0 < d" and x: "x = of_int n / of_int d" using quotient_of_denom_pos [OF q] quotient_of_div [OF q] by auto
  have n: "0 < n" using assms d by (simp add: x zero_less_divide_iff)
  let ?k = "bitlen n - bitlen d"
  have split: "(2 :: rat) powi (i - j) = 2 powi i / 2 powi j" for i j by (simp add: power_int_diff)
  have "x < 2 powi bitlen n / 2 powi (bitlen d - 1)"
    unfolding x using powi_bitlen [OF n] powi_bitlen [OF d] d n
    by (intro frac_less) (simp_all)
  then have up: "x < 2 powi (?k + 1)" using split [of "bitlen n" "bitlen d - 1"] by (simp add: algebra_simps)
  have "2 powi (bitlen n - 1) / 2 powi bitlen d \<le> x"
    unfolding x using powi_bitlen [OF n] powi_bitlen [OF d] d n by (intro frac_le) simp_all
  then have low: "2 powi (?k - 1) \<le> x" using split [of "bitlen n - 1" "bitlen d"] by (simp add: algebra_simps)
  show ?thesis using up low by (simp add: exponent_def q Let_def)
qed

text \<open>A number of 24 bits: rounding keeps on its side of it.\<close>

lemma multiple_of_unit:
  assumes "0 < m" and "m \<le> 2 ^ 24" and "2 powi e \<le> (of_int m :: rat) * 2 powi k"
  shows "\<exists>M :: int. (of_int m :: rat) * 2 powi k = of_int M * 2 powi (e - 23)"
proof (cases "e - 23 \<le> k")
  case True
  have "(2 :: rat) powi k = 2 powi (e - 23) * 2 powi (k - (e - 23))"
    using power_int_add [of "2 :: rat" "e - 23" "k - (e - 23)"] by simp
  also have "(2 :: rat) powi (k - (e - 23)) = of_int (2 ^ nat (k - (e - 23)))"
    using True by (simp add: power_int_def)
  finally show ?thesis by (intro exI [of _ "m * 2 ^ nat (k - (e - 23))"]) simp
next
  case False
  then have "(2 :: rat) powi k \<le> 2 powi (e - 24)" by (intro power_int_increasing) simp_all
  then have "(of_int m :: rat) * 2 powi k \<le> of_int m * 2 powi (e - 24)" using assms(1) by simp
  moreover have "(2 :: rat) powi e = 2 ^ 24 * 2 powi (e - 24)" by (simp add: power_int_diff)
  ultimately have "(2 :: rat) ^ 24 * 2 powi (e - 24) \<le> of_int m * 2 powi (e - 24)" using assms(3) by linarith
  then have "(2 :: rat) ^ 24 \<le> of_int m" by (simp add: mult_le_cancel_right)
  then have "(of_int (2 ^ 24) :: rat) \<le> of_int m" by simp
  then have m: "m = 2 ^ 24" using assms(2) by (simp only: of_int_le_iff)
  have "(of_int m :: rat) * 2 powi k = 2 powi e"
    using \<open>(of_int m :: rat) * 2 powi k \<le> of_int m * 2 powi (e - 24)\<close> assms(3) by (simp add: m power_int_diff)
  then show ?thesis by (intro exI [of _ "2 ^ 23"]) (simp add: power_int_diff)
qed

lemma round24_le:
  assumes "0 < x" and "0 < m" and "m \<le> 2 ^ 24" and "x \<le> of_int m * 2 powi k"
  shows "round24 x \<le> of_int m * 2 powi k"
proof -
  let ?e = "exponent x"
  let ?u = "2 powi (?e - 23) :: rat"
  have e: "2 powi ?e \<le> x" "x < 2 powi (?e + 1)" using exponent_bounds [OF assms(1)] by simp_all
  have "2 powi ?e \<le> (of_int m :: rat) * 2 powi k" using e(1) assms(4) by linarith
  from multiple_of_unit [OF assms(2,3) this] obtain M where M: "(of_int m :: rat) * 2 powi k = of_int M * ?u" by blast
  have "x / ?u \<le> of_int M" using assms(4) by (simp add: M divide_le_eq)
  from to_nearest_le [OF this] have "(of_int (to_nearest (x / ?u)) :: rat) \<le> of_int M" by (simp only: of_int_le_iff)
  then show ?thesis by (simp add: round24_def Let_def M)
qed

lemma round24_ge:
  assumes "0 < x" and "0 < m" and "m \<le> 2 ^ 24" and "of_int m * 2 powi k \<le> x"
  shows "of_int m * 2 powi k \<le> round24 x"
proof -
  let ?e = "exponent x"
  let ?u = "2 powi (?e - 23) :: rat"
  have e: "2 powi ?e \<le> x" "x < 2 powi (?e + 1)" using exponent_bounds [OF assms(1)] by simp_all
  have "\<exists>M :: int. (of_int m :: rat) * 2 powi k \<le> of_int M * ?u \<and> of_int M * ?u \<le> x"
  proof (cases "2 powi ?e \<le> (of_int m :: rat) * 2 powi k")
    case True
    from multiple_of_unit [OF assms(2,3) this] assms(4) show ?thesis by auto
  next
    case False
    have "(of_int (2 ^ 23) :: rat) * ?u = 2 powi ?e" by (simp add: power_int_diff)
    with False e(1) show ?thesis by (intro exI [of _ "2 ^ 23"]) simp
  qed
  then obtain M :: int where M: "(of_int m :: rat) * 2 powi k \<le> of_int M * ?u" "of_int M * ?u \<le> x" by blast
  have "of_int M \<le> x / ?u" using M(2) by (simp add: le_divide_eq)
  from to_nearest_ge [OF this] have "(of_int M :: rat) \<le> of_int (to_nearest (x / ?u))" by (simp only: of_int_le_iff)
  then have "of_int M * ?u \<le> round24 x" by (simp add: round24_def Let_def)
  with M(1) show ?thesis by linarith
qed

lemma single_le: "0 < x \<Longrightarrow> 0 < m \<Longrightarrow> m \<le> 2 ^ 24 \<Longrightarrow> x \<le> of_int m * 2 powi k \<Longrightarrow> single x \<le> of_int m * 2 powi k"
  using round24_le by (simp add: single_def)

lemma single_ge: "0 < x \<Longrightarrow> 0 < m \<Longrightarrow> m \<le> 2 ^ 24 \<Longrightarrow> of_int m * 2 powi k \<le> x \<Longrightarrow> of_int m * 2 powi k \<le> single x"
  using round24_ge by (simp add: single_def)

lemma single_zero [simp]: "single 0 = 0"
  by (simp add: single_def)

lemma single_24: "0 < m \<Longrightarrow> m \<le> 2 ^ 24 \<Longrightarrow> single (of_int m * 2 powi k) = of_int m * 2 powi k"
  by (intro antisym single_le single_ge) simp_all

lemma single_int: "0 \<le> m \<Longrightarrow> m \<le> 2 ^ 24 \<Longrightarrow> single (of_int m) = of_int m"
  using single_24 [of m 0] by (cases "m = 0") simp_all

lemma single_unit:
  assumes "0 < x" and "x < 1"
  shows "0 \<le> single x \<and> single x \<le> 1" and "1 / 2 ^ 24 \<le> x \<Longrightarrow> 1 / 2 ^ 24 \<le> single x"
    and "x \<le> 1 - 1 / 2 ^ 24 \<Longrightarrow> single x \<le> 1 - 1 / 2 ^ 24"
proof -
  have "0 \<le> round24 x"
    unfolding round24_def Let_def
    using to_nearest_ge [of 0 "x / 2 powi (exponent x - 23)"] assms(1) by simp
  then show "0 \<le> single x \<and> single x \<le> 1" using single_le [of x 1 0] assms by (simp add: single_def)
  have small: "(2 :: rat) powi - 24 = 1 / 2 ^ 24" by (simp add: power_int_minus inverse_eq_divide)
  show "1 / 2 ^ 24 \<le> single x" if "1 / 2 ^ 24 \<le> x" using single_ge [of x 1 "- 24"] assms(1) that by (simp add: small)
  have "(of_int (2 ^ 24 - 1) :: rat) * 2 powi - 24 = 1 - 1 / 2 ^ 24" by (simp add: small)
  then show "single x \<le> 1 - 1 / 2 ^ 24" if "x \<le> 1 - 1 / 2 ^ 24"
    using single_le [of x "2 ^ 24 - 1" "- 24"] assms(1) that by simp
qed

lemma single_inner:
  assumes "1 / 2 ^ 24 \<le> x \<and> x \<le> 1 - 1 / 2 ^ 24"
  shows "1 / 2 ^ 24 \<le> single x \<and> single x \<le> 1 - 1 / 2 ^ 24"
proof -
  have "(0 :: rat) < 1 / 2 ^ 24" by simp
  then have "0 < x" "x < 1" using assms by linarith+
  then show ?thesis using single_unit(2,3) [of x] assms by blast
qed

text \<open>Three times 16777217, which is no number of 24 bits, divided by the product of its rounded factors.\<close>

lemma single_numbers:
  "single 3 = 3" "single 16777217 = 16777216" "single 50331648 = 50331648" "single 50331651 = 50331652"
  "single (12582913 / 12582912) = 8388609 / 8388608" "single (- (1 / 8388608)) = - (1 / 8388608)"
  by code_simp+

end
