(* ===== verification/RingBuffer.thy ===== *)
theory RingBuffer
  imports CLib SingleFloat "HOL-Library.Word" "HOL-Library.Signed_Division"
begin

text \<open>
  One producer and several consumers over a ring of 80-byte slots in shared memory, woken by signals:
  \<open>src/SP_HW10/program.c\<close>, and \<open>program_enhanced.c\<close>, where a compare-and-swap lock guards the slots.

  Both programs are one step relation; \<open>locked\<close> tells them apart.  A message is stored character by
  character, so a consumer of the unlocked program can read a half-stored one.  A consumer has one
  pending SIGUSR1 at most, as the kernel keeps a standard signal: one sent while another is pending is
  lost; before the handler is installed the signal ends the process, and one that is delivered before
  \<open>pause\<close> is called (\<open>Ready\<close>) does not end the call.  \<open>g\<close> is the value a call of
  \<open>seqcmp\<close> leaves when it falls off its end.  The
  counter is an \<open>int\<close> of 32 bits that the atomic addition wraps around, and the loss rate of \<open>program.c\<close> is
  computed in single precision (\<open>SingleFloat\<close>).  Not modelled: the time the producer sleeps.  The set-up of the shared memory and the report are in \<open>RingMain\<close>, the
  failures of \<open>fork\<close>, \<open>sigqueue\<close> and of the consumers' calls and what they print in \<open>RingFail\<close>.  The counter and the lock lie in the last slot, at bytes 40 to 47, behind
  every message (\<open>message_fits\<close>), and are fields of their own.
\<close>

section \<open>Messages\<close>

definition message :: "nat \<Rightarrow> string" where
  "message n = ''This is message '' @ dec_nat n"

definition SLOT :: nat where "SLOT = 80"

definition blanks :: "char list" where "blanks = [CHR '' '', CHR 0x09]"

text \<open>\<open>seqcmp\<close>: the first token among four that is a number other than 0; \<open>None\<close> at its end without a value.\<close>

function seq_tokens :: "int \<Rightarrow> nat \<Rightarrow> string \<Rightarrow> int option" where
  "seq_tokens over i s =
     (case strtok blanks s of
        (None, _) \<Rightarrow> None
      | (Some key, s') \<Rightarrow>
          if 4 < i then Some over
          else if atoi key \<noteq> 0 then Some (atoi key)
          else seq_tokens over (Suc i) s')"
  by auto
termination by (relation "measure (\<lambda>(_, _, s). length s)") (auto dest!: sym [of "(_, _)"] strtok_shorter)

declare seq_tokens.simps [simp del]

text \<open>Behind the fourth token \<open>program.c\<close> returns 0 and \<open>program_enhanced.c\<close> -1.\<close>

definition seqcmp :: "bool \<Rightarrow> string \<Rightarrow> int option" where
  "seqcmp locked str = seq_tokens (if locked then - 1 else 0) 1 str"

section \<open>State\<close>

datatype consumer_pc = Starting | Ready | Pausing | Awake | Reading | Copied string | Finished | Killed

record consumer =
  kpc :: consumer_pc
  recv_seq :: int
  pending :: "int option"
  k_b :: nat
  k_ptr :: nat

datatype producer_pc = Write | Storing nat | Signal nat

record ring =
  ppc :: producer_pc
  p_n :: nat
  p_ptr :: nat
  r_slots :: "char list list"
  r_count :: "32 word"
  r_lock :: bool
  consumers :: "consumer list"

definition start_consumer :: consumer where
  "start_consumer = \<lparr>kpc = Starting, recv_seq = 0, pending = None, k_b = 0, k_ptr = 0\<rparr>"

definition start_ring :: "nat \<Rightarrow> nat \<Rightarrow> ring" where
  "start_ring buf consumer = \<lparr>ppc = Write, p_n = 0, p_ptr = 0, r_slots = replicate buf (zeros SLOT),
     r_count = 0, r_lock = False, consumers = replicate consumer start_consumer\<rparr>"

text \<open>The pointers into the ring: forward by a slot, and back to the start behind the last one.\<close>

definition next_ptr :: "nat \<Rightarrow> nat \<Rightarrow> nat \<Rightarrow> nat" where
  "next_ptr buf i p = (if i mod buf = buf - 1 then 0 else p + 1)"

section \<open>Signals\<close>

definition send_signal :: "int \<Rightarrow> consumer \<Rightarrow> consumer" where
  "send_signal v k = (case pending k of None \<Rightarrow> k\<lparr>pending := Some v\<rparr> | Some _ \<Rightarrow> k)"

text \<open>Delivery: the handler \<open>capture_signal\<close>, which also ends a \<open>pause\<close>.\<close>

definition capture_signal :: "int \<Rightarrow> consumer \<Rightarrow> consumer" where
  "capture_signal v k =
     (case kpc k of
        Starting \<Rightarrow> k\<lparr>pending := None, kpc := Killed\<rparr>
      | Pausing \<Rightarrow> k\<lparr>pending := None, recv_seq := v, kpc := Awake\<rparr>
      | Finished \<Rightarrow> k\<lparr>pending := None\<rparr>
      | Killed \<Rightarrow> k\<lparr>pending := None\<rparr>
      | _ \<Rightarrow> k\<lparr>pending := None, recv_seq := v\<rparr>)"

section \<open>Steps\<close>

text \<open>The producer: its loop over the messages.\<close>

inductive p_step :: "bool \<Rightarrow> nat \<Rightarrow> nat \<Rightarrow> ring \<Rightarrow> ring \<Rightarrow> bool" for locked data_num buf where
  p_lock: "ppc s = Write \<Longrightarrow> p_n s < data_num \<Longrightarrow> \<not> (locked \<and> r_lock s) \<Longrightarrow>
     p_step locked data_num buf s (s\<lparr>ppc := Storing 0, r_lock := locked\<rparr>)"
| p_store: "ppc s = Storing k \<Longrightarrow> k < length (message (p_n s) @ [NUL]) \<Longrightarrow>
     p_step locked data_num buf s (s\<lparr>ppc := Storing (Suc k),
       r_slots := (r_slots s)[p_ptr s := (r_slots s ! p_ptr s)[k := (message (p_n s) @ [NUL]) ! k]]\<rparr>)"
| p_unlock: "ppc s = Storing (length (message (p_n s) @ [NUL])) \<Longrightarrow>
     p_step locked data_num buf s (s\<lparr>ppc := Signal 0, r_lock := False\<rparr>)"
| p_signal: "ppc s = Signal i \<Longrightarrow> i < length (consumers s) \<Longrightarrow>
     p_step locked data_num buf s (s\<lparr>ppc := Signal (Suc i),
       consumers := (consumers s)[i := send_signal (int (p_n s)) (consumers s ! i)]\<rparr>)"
| p_next: "ppc s = Signal (length (consumers s)) \<Longrightarrow>
     p_step locked data_num buf s (s\<lparr>ppc := Write, p_ptr := next_ptr buf (p_n s) (p_ptr s), p_n := Suc (p_n s)\<rparr>)"

text \<open>What consumer \<open>i\<close> does when it has compared: one round is over.\<close>

definition round_over :: "nat \<Rightarrow> nat \<Rightarrow> consumer \<Rightarrow> consumer" where
  "round_over data_num buf k =
     k\<lparr>k_ptr := next_ptr buf (k_b k) (k_ptr k), k_b := Suc (k_b k),
       kpc := (if data_num \<le> Suc (k_b k) then Finished else Ready)\<rparr>"

definition seq_value :: "bool \<Rightarrow> int \<Rightarrow> string \<Rightarrow> int" where
  "seq_value locked g split = (case seqcmp locked split of None \<Rightarrow> g | Some v \<Rightarrow> v)"

inductive k_step :: "bool \<Rightarrow> nat \<Rightarrow> nat \<Rightarrow> int \<Rightarrow> nat \<Rightarrow> ring \<Rightarrow> ring \<Rightarrow> bool"
  for locked data_num buf g i where
  k_install: "i < length (consumers s) \<Longrightarrow> kpc (consumers s ! i) = Starting \<Longrightarrow>
     k_step locked data_num buf g i s (s\<lparr>consumers := (consumers s)[i := (consumers s ! i)\<lparr>kpc := Ready\<rparr>]\<rparr>)"
| k_pause: "i < length (consumers s) \<Longrightarrow> kpc (consumers s ! i) = Ready \<Longrightarrow>
     k_step locked data_num buf g i s (s\<lparr>consumers := (consumers s)[i := (consumers s ! i)\<lparr>kpc := Pausing\<rparr>]\<rparr>)"
| k_deliver: "i < length (consumers s) \<Longrightarrow> pending (consumers s ! i) = Some v \<Longrightarrow>
     k_step locked data_num buf g i s (s\<lparr>consumers := (consumers s)[i := capture_signal v (consumers s ! i)]\<rparr>)"
| k_lock: "i < length (consumers s) \<Longrightarrow> kpc (consumers s ! i) = Awake \<Longrightarrow> \<not> (locked \<and> r_lock s) \<Longrightarrow>
     k_step locked data_num buf g i s
       (s\<lparr>r_lock := locked, consumers := (consumers s)[i := (consumers s ! i)\<lparr>kpc := Reading\<rparr>]\<rparr>)"
| k_copy: "i < length (consumers s) \<Longrightarrow> kpc (consumers s ! i) = Reading \<Longrightarrow>
     k_step locked data_num buf g i s
       (s\<lparr>r_lock := False,
          consumers := (consumers s)[i := (consumers s ! i)
            \<lparr>kpc := Copied (upto_nul (r_slots s ! k_ptr (consumers s ! i)) @ [NL])\<rparr>]\<rparr>)"
| k_compare: "i < length (consumers s) \<Longrightarrow> kpc (consumers s ! i) = Copied split \<Longrightarrow>
     k_step locked data_num buf g i s
       (s\<lparr>r_count := (if recv_seq (consumers s ! i) = seq_value locked g split then r_count s + 1 else r_count s),
          consumers := (consumers s)[i := round_over data_num buf (consumers s ! i)]\<rparr>)"

inductive ring_run :: "bool \<Rightarrow> nat \<Rightarrow> nat \<Rightarrow> nat \<Rightarrow> int \<Rightarrow> ring \<Rightarrow> bool"
  for locked data_num buf consumer g where
  run_start: "ring_run locked data_num buf consumer g (start_ring buf consumer)"
| run_p: "ring_run locked data_num buf consumer g s \<Longrightarrow> p_step locked data_num buf s t \<Longrightarrow>
     ring_run locked data_num buf consumer g t"
| run_k: "ring_run locked data_num buf consumer g s \<Longrightarrow> k_step locked data_num buf g i s t \<Longrightarrow>
     ring_run locked data_num buf consumer g t"

text \<open>The two programs.\<close>

definition program_run :: "nat \<Rightarrow> nat \<Rightarrow> nat \<Rightarrow> int \<Rightarrow> ring \<Rightarrow> bool" where
  "program_run data_num buf consumer g = ring_run False data_num buf consumer g"

definition enhanced_run :: "nat \<Rightarrow> nat \<Rightarrow> nat \<Rightarrow> int \<Rightarrow> ring \<Rightarrow> bool" where
  "enhanced_run data_num buf consumer g = ring_run True data_num buf consumer g"

section \<open>The loss rate\<close>

text \<open>
  In \<open>program.c\<close> the three numbers are converted to \<open>float\<close>, and the product, the quotient and the difference are
  rounded to it; \<open>None\<close> stands for the infinity or the ``not a number'' of a division by zero.
\<close>

definition loss :: "int \<Rightarrow> nat \<Rightarrow> nat \<Rightarrow> rat option" where
  "loss p data_num consumer =
     (let divisor = single (single (of_nat data_num) * single (of_nat consumer)) in
      if divisor = 0 then None else Some (single (1 - single (single (of_int p) / divisor))))"

text \<open>In \<open>program_enhanced.c\<close> the division is one of integers, undefined by zero and on an overflow.\<close>

definition loss_enhanced :: "int \<Rightarrow> nat \<Rightarrow> nat \<Rightarrow> int option" where
  "loss_enhanced p data_num consumer =
     (if data_num * consumer = 0 \<or> INT_MAX < int (data_num * consumer) then None
      else Some (1 - p sdiv int (data_num * consumer)))"

section \<open>Lemmas on messages\<close>

lemma message_fits: "n < 10 ^ 10 \<Longrightarrow> length (message n) \<le> 26"
  using length_dec_nat_le [of n 10] by (simp add: message_def)

lemma dec_nat_chars:
  assumes "c \<in> set (dec_nat n)"
  shows "c \<noteq> NUL \<and> c \<notin> set blanks"
proof -
  obtain m where "m < 10" "c = digit m" using assms decimal_dec_nat [of n] by (auto simp: decimal_def)
  then show ?thesis using digit_ne_sign [of m] by (auto simp: blanks_def)
qed

lemma nul_free_dec_nat: "nul_free (dec_nat n)"
  using dec_nat_chars by (auto simp: nul_free_def)

lemma nul_free_message [simp]: "nul_free (message n)"
  by (simp add: message_def nul_free_dec_nat)

lemma seq_tokens_skip:
  assumes "strtok blanks s = (Some key, r)" and "i \<le> 4" and "atoi key = 0"
  shows "seq_tokens over i s = seq_tokens over (Suc i) r"
  using assms by (simp add: seq_tokens.simps [of over i s])

lemma words_are_no_numbers: "atoi ''This'' = 0" "atoi ''is'' = 0" "atoi ''message'' = 0"
  by (simp_all add: atoi_def strtol_def strtol_sign_def isspace_def num_of_def dval_def to_int32_def Let_def
      LONG_MAX_def LONG_MIN_def)

lemma seqcmp_message:
  assumes "int n \<le> INT_MAX"
  shows "seqcmp locked (message n @ [NL]) = (if n = 0 then None else Some (int n))"
proof -
  let ?d = "dec_nat n @ [NL]" and ?o = "if locked then - 1 else 0 :: int"
  have w: "strtok blanks (w @ CHR '' '' # r) = (Some w, r)" if "w \<noteq> []" "\<forall>c \<in> set w. c \<notin> set blanks" for w r
    using strtok_word [OF that, of "CHR '' '' # r"] that by (simp add: blanks_def)
  have "message n @ [NL] = ''This'' @ CHR '' '' # ''is'' @ CHR '' '' # ''message'' @ CHR '' '' # ?d"
    by (simp add: message_def)
  then have "seqcmp locked (message n @ [NL]) = seq_tokens ?o (Suc (Suc (Suc 1))) ?d"
    unfolding seqcmp_def
    using w [of "''This''"] w [of "''is''"] w [of "''message''"] words_are_no_numbers
    by (simp only: seq_tokens_skip) (simp add: blanks_def seq_tokens_skip)
  then have "seqcmp locked (message n @ [NL]) = seq_tokens ?o 4 ?d"
    by (simp only: numeral_eq_Suc pred_numeral_simps One_nat_def BitM.simps)
  moreover have "strtok blanks ?d = (Some ?d, [])"
    using strtok_word [of ?d blanks "[]"] dec_nat_chars [of _ n] by (auto simp: blanks_def)
  moreover have "strtok blanks [] = (None, [])" by (simp add: strtok_def)
  moreover have "atoi ?d = int n" using atoi_dec_nat [of n "[NL]"] assms by (simp add: dval_def)
  ultimately show ?thesis
    by (auto simp: seq_tokens.simps [of _ 4 ?d] seq_tokens.simps [of _ _ "[]"])
qed

section \<open>Invariants\<close>

inductive_cases p_step_elim: "p_step locked data_num buf s t"
inductive_cases k_step_elim: "k_step locked data_num buf g i s t"

lemma all_update: "\<forall>k \<in> set xs. P k \<Longrightarrow> P v \<Longrightarrow> \<forall>k \<in> set (xs[i := v]). P k"
  using set_update_subset_insert [of xs i v] by auto

lemma next_ptr_mod: "0 < buf \<Longrightarrow> next_ptr buf i (i mod buf) = Suc i mod buf"
  by (auto simp: next_ptr_def mod_Suc)

text \<open>One consumer: its pointer follows its rounds, and it has rounds to go while it runs.\<close>

definition consumer_ok :: "nat \<Rightarrow> nat \<Rightarrow> consumer \<Rightarrow> bool" where
  "consumer_ok data_num buf k \<longleftrightarrow> k_ptr k = k_b k mod buf \<and> k_b k \<le> data_num \<and>
     (kpc k \<noteq> Finished \<longrightarrow> k_b k < data_num)"

definition shape_ok :: "nat \<Rightarrow> nat \<Rightarrow> nat \<Rightarrow> ring \<Rightarrow> bool" where
  "shape_ok data_num buf consumer s \<longleftrightarrow>
     length (consumers s) = consumer \<and> length (r_slots s) = buf \<and>
     (\<forall>j < buf. length (r_slots s ! j) = SLOT) \<and>
     p_ptr s = p_n s mod buf \<and> p_n s \<le> data_num \<and> (ppc s \<noteq> Write \<longrightarrow> p_n s < data_num) \<and>
     (\<forall>k \<in> set (consumers s). consumer_ok data_num buf k)"

lemma send_signal_frame [simp]:
  "kpc (send_signal v k) = kpc k" "k_b (send_signal v k) = k_b k" "k_ptr (send_signal v k) = k_ptr k"
  by (simp_all add: send_signal_def split: option.split)

lemma capture_signal_frame [simp]:
  "k_b (capture_signal v k) = k_b k" "k_ptr (capture_signal v k) = k_ptr k"
  by (simp_all add: capture_signal_def split: consumer_pc.split)

lemma capture_signal_finished: "kpc (capture_signal v k) = Finished \<longleftrightarrow> kpc k = Finished"
  by (simp add: capture_signal_def split: consumer_pc.split)

lemma capture_signal_reading: "kpc (capture_signal v k) = Reading \<longleftrightarrow> kpc k = Reading"
  by (simp add: capture_signal_def split: consumer_pc.split)

lemma consumer_ok_signal:
  "consumer_ok d buf k \<Longrightarrow> consumer_ok d buf (send_signal v k)"
  "consumer_ok d buf k \<Longrightarrow> consumer_ok d buf (capture_signal v k)"
  by (simp_all add: consumer_ok_def capture_signal_finished)

lemma consumer_ok_round:
  "0 < buf \<Longrightarrow> consumer_ok d buf k \<Longrightarrow> kpc k = Copied split \<Longrightarrow> consumer_ok d buf (round_over d buf k)"
  by (auto simp: consumer_ok_def round_over_def next_ptr_mod)

lemma shape_start: "0 < data_num \<Longrightarrow> shape_ok data_num buf consumer (start_ring buf consumer)"
  by (auto simp: shape_ok_def start_ring_def consumer_ok_def start_consumer_def)

lemma shape_p: "p_step locked d buf s t \<Longrightarrow> 0 < buf \<Longrightarrow> shape_ok d buf c s \<Longrightarrow> shape_ok d buf c t"
proof (induction rule: p_step.induct)
  case (p_store s k)
  then show ?case by (auto simp: shape_ok_def nth_list_update)
next
  case (p_signal s i)
  then have "consumer_ok d buf (send_signal (int (p_n s)) (consumers s ! i))"
    by (intro consumer_ok_signal) (simp add: shape_ok_def)
  then show ?case using p_signal all_update [of "consumers s" "consumer_ok d buf"] by (simp add: shape_ok_def)
next
  case (p_next s)
  then show ?case by (auto simp: shape_ok_def next_ptr_mod)
qed (auto simp: shape_ok_def)

lemma shape_k: "k_step locked d buf g i s t \<Longrightarrow> 0 < buf \<Longrightarrow> shape_ok d buf c s \<Longrightarrow> shape_ok d buf c t"
proof (induction rule: k_step.induct)
  case (k_install s)
  then have "consumer_ok d buf ((consumers s ! i)\<lparr>kpc := Ready\<rparr>)"
    by (simp add: shape_ok_def consumer_ok_def)
  then show ?case using k_install all_update [of "consumers s" "consumer_ok d buf"] by (simp add: shape_ok_def)
next
  case (k_pause s)
  then have "consumer_ok d buf ((consumers s ! i)\<lparr>kpc := Pausing\<rparr>)"
    by (simp add: shape_ok_def consumer_ok_def)
  then show ?case using k_pause all_update [of "consumers s" "consumer_ok d buf"] by (simp add: shape_ok_def)
next
  case (k_deliver s v)
  then have "consumer_ok d buf (capture_signal v (consumers s ! i))"
    by (intro consumer_ok_signal) (simp add: shape_ok_def)
  then show ?case using k_deliver all_update [of "consumers s" "consumer_ok d buf"] by (simp add: shape_ok_def)
next
  case (k_lock s)
  then have "consumer_ok d buf ((consumers s ! i)\<lparr>kpc := Reading\<rparr>)"
    by (simp add: shape_ok_def consumer_ok_def)
  then show ?case using k_lock all_update [of "consumers s" "consumer_ok d buf"] by (simp add: shape_ok_def)
next
  case (k_copy s)
  let ?k = "(consumers s ! i)\<lparr>kpc := Copied (upto_nul (r_slots s ! k_ptr (consumers s ! i)) @ [NL])\<rparr>"
  have "consumer_ok d buf ?k" using k_copy by (simp add: shape_ok_def consumer_ok_def)
  then show ?case using k_copy all_update [of "consumers s" "consumer_ok d buf" ?k i] by (simp add: shape_ok_def)
next
  case (k_compare s split)
  then have "consumer_ok d buf (round_over d buf (consumers s ! i))"
    by (intro consumer_ok_round) (simp_all add: shape_ok_def)
  then show ?case using k_compare all_update [of "consumers s" "consumer_ok d buf"] by (simp add: shape_ok_def)
qed

lemma run_shape:
  "ring_run locked d buf c g s \<Longrightarrow> 0 < d \<Longrightarrow> 0 < buf \<Longrightarrow> shape_ok d buf c s"
  by (induction rule: ring_run.induct) (auto intro: shape_start shape_p shape_k)

section \<open>The counter\<close>

definition rounds :: "ring \<Rightarrow> nat" where
  "rounds s = sum_list (map k_b (consumers s))"

lemma rounds_same:
  "i < length cs \<Longrightarrow> k_b v = k_b (cs ! i) \<Longrightarrow> sum_list (map k_b (cs[i := v])) = sum_list (map k_b cs)"
  by (metis list_update_id map_update nth_map)

lemma rounds_more:
  assumes "i < length cs" and "k_b v = Suc (k_b (cs ! i))"
  shows "sum_list (map k_b (cs[i := v])) = Suc (sum_list (map k_b cs))"
proof -
  have "k_b (cs ! i) \<le> sum_list (map k_b cs)"
    using assms(1) member_le_sum_list [of "k_b (cs ! i)" "map k_b cs"] by simp
  then show ?thesis using assms by (simp add: map_update sum_list_update)
qed

lemma count_step_p: "p_step locked d buf s t \<Longrightarrow> r_count t = r_count s \<and> rounds t = rounds s"
  by (induction rule: p_step.induct) (simp_all add: rounds_def rounds_same)

text \<open>The counter is a number of rounds at most as large as that of the rounds that are over.\<close>

definition counted :: "ring \<Rightarrow> bool" where
  "counted s \<longleftrightarrow> (\<exists>n \<le> rounds s. r_count s = of_nat n)"

lemma counted_same: "r_count t = r_count s \<Longrightarrow> rounds s \<le> rounds t \<Longrightarrow> counted s \<Longrightarrow> counted t"
  unfolding counted_def by (metis order_trans)

lemma counted_more:
  assumes "r_count t = r_count s + 1" and "rounds t = Suc (rounds s)" and "counted s"
  shows "counted t"
proof -
  obtain n where "n \<le> rounds s" "r_count s = of_nat n" using assms(3) by (auto simp: counted_def)
  then show ?thesis unfolding counted_def assms(1,2) by (intro exI [of _ "Suc n"]) simp
qed

lemma count_step_k: "k_step locked d buf g i s t \<Longrightarrow> counted s \<Longrightarrow> counted t"
proof (induction rule: k_step.induct)
  case (k_compare s split)
  then have over: "rounds (s\<lparr>r_count := c, consumers := (consumers s)[i := round_over d buf (consumers s ! i)]\<rparr>) = Suc (rounds s)" for c
    by (simp add: rounds_def rounds_more round_over_def)
  show ?case
  proof (cases "recv_seq (consumers s ! i) = seq_value locked g split")
    case True
    show ?thesis by (rule counted_more [OF _ _ k_compare.prems]) (simp_all add: True over)
  next
    case False
    with over [of "r_count s"] show ?thesis by (intro counted_same [OF _ _ k_compare.prems]) simp_all
  qed
qed (erule counted_same [rotated 2], simp_all add: rounds_def rounds_same)+

lemma count_rounds: "ring_run locked d buf c g s \<Longrightarrow> counted s"
proof (induction rule: ring_run.induct)
  case run_start
  show ?case unfolding counted_def by (intro exI [of _ 0]) (simp add: start_ring_def)
next
  case (run_p s t)
  then show ?case using count_step_p [of locked d buf s t] by (intro counted_same [OF _ _ run_p.IH]) simp_all
qed (auto intro: count_step_k)

text \<open>As long as they can be counted by an \<open>int\<close>, the counter does not wrap.\<close>

lemma sint_of_nat:
  assumes "int n \<le> INT_MAX"
  shows "sint (of_nat n :: 32 word) = int n"
  using assms by (simp add: INT_MAX_def signed_of_nat signed_take_bit_int_eq_self)

lemma rounds_bound:
  assumes "shape_ok d buf c s"
  shows "rounds s \<le> d * c"
proof -
  have "sum_list (map k_b cs) \<le> d * length cs" if "\<forall>k \<in> set cs. k_b k \<le> d" for cs
    using that by (induction cs) auto
  then show ?thesis using assms by (auto simp: rounds_def shape_ok_def consumer_ok_def)
qed

section \<open>The lock\<close>

definition storing :: "ring \<Rightarrow> bool" where
  "storing s \<longleftrightarrow> (\<exists>k. ppc s = Storing k)"

definition reader :: "ring \<Rightarrow> nat \<Rightarrow> bool" where
  "reader s i \<longleftrightarrow> i < length (consumers s) \<and> kpc (consumers s ! i) = Reading"

definition lock_ok :: "ring \<Rightarrow> bool" where
  "lock_ok s \<longleftrightarrow>
     (storing s \<longrightarrow> r_lock s) \<and> (\<forall>i. reader s i \<longrightarrow> r_lock s \<and> \<not> storing s) \<and>
     (\<forall>i j. reader s i \<longrightarrow> reader s j \<longrightarrow> i = j)"

lemma lock_start: "lock_ok (start_ring buf c)"
  by (auto simp: lock_ok_def start_ring_def storing_def reader_def start_consumer_def)

lemma reader_update:
  "j < length cs \<Longrightarrow> kpc ((cs[i := v]) ! j) = Reading \<longleftrightarrow> (if j = i then kpc v = Reading else kpc (cs ! j) = Reading)"
  by auto

lemma lock_p: "p_step True d buf s t \<Longrightarrow> lock_ok s \<Longrightarrow> lock_ok t"
  by (induction rule: p_step.induct) (auto simp: lock_ok_def storing_def reader_def nth_list_update)

lemma lock_k: "k_step True d buf g i s t \<Longrightarrow> lock_ok s \<Longrightarrow> lock_ok t"
proof (induction rule: k_step.induct)
  case (k_deliver s v)
  then show ?case
    by (auto simp: lock_ok_def storing_def reader_def nth_list_update capture_signal_reading)
next
  case (k_compare s split)
  then show ?case
    by (auto simp: lock_ok_def storing_def reader_def nth_list_update round_over_def split: if_splits)
qed (auto simp: lock_ok_def storing_def reader_def nth_list_update split: if_splits)

lemma run_lock: "ring_run True d buf c g s \<Longrightarrow> lock_ok s"
  by (induction rule: ring_run.induct) (auto intro: lock_start lock_p lock_k)

section \<open>The slots\<close>

text \<open>A slot that nobody is storing into: empty, or a whole message of a lap of its own.\<close>

definition whole :: "nat \<Rightarrow> nat \<Rightarrow> nat \<Rightarrow> char list \<Rightarrow> bool" where
  "whole d buf j sl \<longleftrightarrow> upto_nul sl = [] \<or> (\<exists>m < d. m mod buf = j \<and> upto_nul sl = message m)"

definition slots_ok :: "nat \<Rightarrow> nat \<Rightarrow> ring \<Rightarrow> bool" where
  "slots_ok d buf s \<longleftrightarrow>
     (\<forall>j < buf. (storing s \<longrightarrow> j \<noteq> p_ptr s) \<longrightarrow> whole d buf j (r_slots s ! j)) \<and>
     (\<forall>k. ppc s = Storing k \<longrightarrow> k \<le> length (message (p_n s) @ [NUL]) \<and>
        take k (r_slots s ! p_ptr s) = take k (message (p_n s) @ [NUL]))"

lemma take_store: "k < length xs \<Longrightarrow> k < length ys \<Longrightarrow> take k xs = take k ys \<Longrightarrow>
    take (Suc k) (xs[k := ys ! k]) = take (Suc k) ys"
  by (simp add: take_Suc_conv_app_nth)

lemma whole_stored:
  assumes "take (length (message n @ [NUL])) sl = message n @ [NUL]"
  shows "upto_nul sl = message n"
proof -
  have "sl = (message n @ [NUL]) @ drop (length (message n @ [NUL])) sl"
    using assms by (metis append_take_drop_id)
  then have "sl = message n @ NUL # drop (length (message n @ [NUL])) sl" by simp
  then show ?thesis using upto_nul_append_nul [OF nul_free_message] by metis
qed

lemma slots_start: "slots_ok d buf (start_ring buf c)"
proof -
  have "upto_nul (zeros SLOT) = []" by (simp add: upto_nul_def zeros_def SLOT_def)
  then show ?thesis by (auto simp: slots_ok_def start_ring_def whole_def)
qed

lemma slots_p:
  assumes "p_step locked d buf s t" and "0 < buf" and "d \<le> 10 ^ 10" and "shape_ok d buf c s" and "slots_ok d buf s"
  shows "slots_ok d buf t"
  using assms
proof (induction rule: p_step.induct)
  case (p_lock s)
  then show ?case by (auto simp: slots_ok_def storing_def)
next
  case (p_store s k)
  let ?msg = "message (p_n s) @ [NUL]" and ?p = "p_ptr s"
  have p: "?p < length (r_slots s)" "length (r_slots s ! ?p) = SLOT" "p_n s < 10 ^ 10"
    using p_store by (auto simp: shape_ok_def)
  then have "k < length (r_slots s ! ?p)" using p_store(2) message_fits [of "p_n s"] by (simp add: SLOT_def)
  then have "take (Suc k) ((r_slots s ! ?p)[k := ?msg ! k]) = take (Suc k) ?msg"
    using p_store by (intro take_store) (auto simp: slots_ok_def)
  then show ?case using p_store p by (auto simp: slots_ok_def storing_def)
next
  case (p_unlock s)
  let ?msg = "message (p_n s) @ [NUL]"
  have "take (length ?msg) (r_slots s ! p_ptr s) = ?msg" using p_unlock by (auto simp: slots_ok_def)
  then have "whole d buf (p_ptr s) (r_slots s ! p_ptr s)"
    using whole_stored p_unlock by (auto simp: whole_def shape_ok_def)
  then show ?case using p_unlock by (auto simp: slots_ok_def storing_def)
qed (auto simp: slots_ok_def storing_def)

lemma slots_k: "k_step locked d buf g i s t \<Longrightarrow> slots_ok d buf s \<Longrightarrow> slots_ok d buf t"
  by (induction rule: k_step.induct) (auto simp: slots_ok_def storing_def)

lemma run_slots:
  assumes "ring_run locked d buf c g s" and "0 < d" and "0 < buf" and "d \<le> 10 ^ 10"
  shows "slots_ok d buf s"
  using assms
proof (induction rule: ring_run.induct)
  case run_start
  show ?case by (rule slots_start)
next
  case (run_p s t)
  then show ?case using slots_p run_shape by blast
next
  case (run_k s i t)
  then show ?case using slots_k by blast
qed

section \<open>From the enhanced program to the other\<close>

text \<open>A copied text under the lock: an empty slot or a whole message, where both versions of seqcmp agree.\<close>

definition copied_ok :: "nat \<Rightarrow> consumer \<Rightarrow> bool" where
  "copied_ok d k \<longleftrightarrow>
     (\<forall>split. kpc k = Copied split \<longrightarrow> split = [NL] \<or> (\<exists>m < d. split = message m @ [NL]))"

definition copies_ok :: "nat \<Rightarrow> ring \<Rightarrow> bool" where
  "copies_ok d s \<longleftrightarrow> (\<forall>k \<in> set (consumers s). copied_ok d k)"

lemma copied_ok_signal:
  "copied_ok d k \<Longrightarrow> copied_ok d (send_signal v k)"
  "copied_ok d k \<Longrightarrow> copied_ok d (capture_signal v k)"
  by (simp add: copied_ok_def) (simp add: copied_ok_def capture_signal_def split: consumer_pc.splits)

lemma seqcmp_empty: "seqcmp locked [NL] = None"
proof -
  have "strtok blanks [NL] = (Some [NL], [])" "strtok blanks [] = (None, [])"
    by (simp_all add: strtok_def blanks_def)
  moreover have "atoi [NL] = 0"
    by (simp add: atoi_def strtol_def strtol_sign_def isspace_def to_int32_def Let_def)
  ultimately show ?thesis
    by (simp add: seqcmp_def seq_tokens.simps [of _ _ "[NL]"] seq_tokens.simps [of _ _ "[]"])
qed

lemma copies_p: "p_step locked d buf s t \<Longrightarrow> copies_ok d s \<Longrightarrow> copies_ok d t"
proof (induction rule: p_step.induct)
  case (p_signal s i)
  then have "copied_ok d (send_signal (int (p_n s)) (consumers s ! i))"
    by (intro copied_ok_signal) (simp add: copies_ok_def)
  moreover have "\<forall>k \<in> set (consumers s). copied_ok d k" using p_signal(3) by (simp add: copies_ok_def)
  ultimately have "\<forall>k \<in> set ((consumers s)[i := send_signal (int (p_n s)) (consumers s ! i)]). copied_ok d k"
    by (intro all_update)
  then show ?case by (simp add: copies_ok_def)
qed (simp_all add: copies_ok_def)

lemma copies_k:
  assumes "k_step True d buf g i s t" and "copies_ok d s" and "ring_run True d buf c g s"
    and "0 < d" and "0 < buf" and "d \<le> 10 ^ 10"
  shows "copies_ok d t"
proof -
  obtain k' where k': "consumers t = (consumers s)[i := k']" "copied_ok d k'"
    using assms(1)
  proof (cases rule: k_step.cases)
    case k_install
    then show ?thesis using that by (simp add: copied_ok_def)
  next
    case k_pause
    then show ?thesis using that by (simp add: copied_ok_def)
  next
    case (k_deliver v)
    then have "copied_ok d (capture_signal v (consumers s ! i))"
      using assms(2) by (intro copied_ok_signal) (simp add: copies_ok_def)
    then show ?thesis using that k_deliver(1) by simp
  next
    case k_lock
    then show ?thesis using that by (simp add: copied_ok_def)
  next
    case k_copy
    have "reader s i" using k_copy by (simp add: reader_def)
    then have "\<not> storing s" using run_lock [OF assms(3)] by (auto simp: lock_ok_def)
    moreover have "k_ptr (consumers s ! i) < buf"
      using run_shape [OF assms(3-5)] k_copy(2) assms(5) by (auto simp: shape_ok_def consumer_ok_def)
    ultimately have "whole d buf (k_ptr (consumers s ! i)) (r_slots s ! k_ptr (consumers s ! i))"
      using run_slots [OF assms(3-6)] by (simp add: slots_ok_def)
    then have "copied_ok d ((consumers s ! i)\<lparr>kpc := Copied (upto_nul (r_slots s ! k_ptr (consumers s ! i)) @ [NL])\<rparr>)"
      by (auto simp: whole_def copied_ok_def)
    then show ?thesis by (rule that [rotated]) (simp add: k_copy(1))
  next
    case (k_compare split)
    then show ?thesis using that by (simp add: round_over_def copied_ok_def)
  qed
  then show ?thesis
    using all_update [of "consumers s" "copied_ok d" k' i] assms(2) by (simp add: copies_ok_def)
qed

lemma run_copies:
  assumes "ring_run True d buf c g s" and "0 < d" and "0 < buf" and "d \<le> 10 ^ 10"
  shows "copies_ok d s"
  using assms
proof (induction rule: ring_run.induct)
  case run_start
  then show ?case by (auto simp: copies_ok_def copied_ok_def start_ring_def start_consumer_def)
next
  case (run_p s t)
  then show ?case using copies_p by blast
next
  case (run_k s i t)
  then show ?case using copies_k by blast
qed

lemma erase_p: "p_step True d buf s t \<Longrightarrow> p_step False d buf (s\<lparr>r_lock := False\<rparr>) (t\<lparr>r_lock := False\<rparr>)"
proof (induction rule: p_step.induct)
  case (p_lock s)
  then show ?case using p_step.p_lock [of "s\<lparr>r_lock := False\<rparr>" d False buf] by (cases s) simp
next
  case (p_store s k)
  then show ?case using p_step.p_store [of "s\<lparr>r_lock := False\<rparr>" k False d buf] by (cases s) simp
next
  case (p_unlock s)
  then show ?case using p_step.p_unlock [of "s\<lparr>r_lock := False\<rparr>" False d buf] by (cases s) simp
next
  case (p_signal s i)
  then show ?case using p_step.p_signal [of "s\<lparr>r_lock := False\<rparr>" i False d buf] by (cases s) simp
next
  case (p_next s)
  then show ?case using p_step.p_next [of "s\<lparr>r_lock := False\<rparr>" False d buf] by (cases s) simp
qed

lemma erase_k:
  assumes "k_step True d buf g i s t" and "copies_ok d s" and "int d \<le> INT_MAX"
  shows "k_step False d buf g i (s\<lparr>r_lock := False\<rparr>) (t\<lparr>r_lock := False\<rparr>)"
  using assms
proof (induction rule: k_step.induct)
  case (k_install s)
  then show ?case using k_step.k_install [of i "s\<lparr>r_lock := False\<rparr>" False d buf g] by (cases s) simp
next
  case (k_pause s)
  then show ?case using k_step.k_pause [of i "s\<lparr>r_lock := False\<rparr>" False d buf g] by (cases s) simp
next
  case (k_deliver s v)
  then show ?case using k_step.k_deliver [of i "s\<lparr>r_lock := False\<rparr>" v False d buf g] by (cases s) simp
next
  case (k_lock s)
  then show ?case using k_step.k_lock [of i "s\<lparr>r_lock := False\<rparr>" False d buf g] by (cases s) simp
next
  case (k_copy s)
  then show ?case using k_step.k_copy [of i "s\<lparr>r_lock := False\<rparr>" False d buf g] by (cases s) simp
next
  case (k_compare s split)
  then have "copied_ok d (consumers s ! i)" by (simp add: copies_ok_def)
  then have "split = [NL] \<or> (\<exists>m < d. split = message m @ [NL])"
    using k_compare(2) by (simp add: copied_ok_def)
  then have "seqcmp True split = seqcmp False split"
    using seqcmp_message seqcmp_empty k_compare(4) by (auto simp: order.strict_implies_order)
  then have "seq_value True g split = seq_value False g split" by (simp add: seq_value_def)
  then show ?case using k_step.k_compare [of i "s\<lparr>r_lock := False\<rparr>" split False d buf g] k_compare
    by (cases s, cases "recv_seq (consumers s ! i) = seq_value False g split") simp_all
qed

section \<open>Properties\<close>

text \<open>
  The number in a message is the one seqcmp finds in it, for every message but the first: seqcmp of
  message 0 ends without a value.
\<close>

theorem seqcmp_reads_number:
  assumes "int n \<le> INT_MAX"
  shows "seqcmp locked (message n @ [NL]) = (if n = 0 then None else Some (int n))"
  by (rule seqcmp_message [OF assms])

theorem seqcmp_reads_number_witness:
  "seqcmp True (message 41 @ [NL]) = Some 41"
  using seqcmp_reads_number [of 41 True] by (simp add: INT_MAX_def)

lemma counter_bound:
  assumes "ring_run locked data_num buf consumer g s" and "0 < data_num" and "0 < buf"
    and "int (data_num * consumer) \<le> INT_MAX"
  shows "\<exists>n \<le> data_num * consumer. sint (r_count s) = int n \<and> (n = 0 \<longleftrightarrow> r_count s = 0)"
proof -
  obtain n where n: "n \<le> rounds s" "r_count s = of_nat n" using count_rounds [OF assms(1)] by (auto simp: counted_def)
  have le: "n \<le> data_num * consumer" using n(1) rounds_bound [OF run_shape [OF assms(1-3)]] by linarith
  have "int n \<le> int (data_num * consumer)" using le by (simp only: of_nat_le_iff)
  then have s: "sint (r_count s) = int n" unfolding n(2) using assms(4) by (intro sint_of_nat) linarith
  moreover have "n = 0 \<longleftrightarrow> r_count s = 0" using s n(2) by auto
  ultimately show ?thesis using le by blast
qed

lemma loss_small:
  assumes "n \<le> data_num * consumer" and "0 < data_num * consumer" and "data_num * consumer \<le> 2 ^ 24"
  shows "\<exists>l. loss (int n) data_num consumer = Some l \<and> 0 \<le> l \<and> l \<le> 1 \<and>
    (l = 0 \<longleftrightarrow> n = data_num * consumer) \<and> (l = 1 \<longleftrightarrow> n = 0)"
proof -
  have exact: "single (of_nat m) = of_nat m" if "m \<le> 2 ^ 24" for m
  proof -
    have "int m \<le> int (2 ^ 24)" using that by (simp only: of_nat_le_iff)
    then show ?thesis using single_int [of "int m"] by simp
  qed
  have "data_num \<le> data_num * consumer" "consumer \<le> data_num * consumer" using assms(2) by auto
  then have le: "data_num \<le> 2 ^ 24" "consumer \<le> 2 ^ 24" using assms(3) by linarith+
  let ?d = "of_nat (data_num * consumer) :: rat"
  have d: "0 < ?d" "?d \<le> 2 ^ 24"
    using assms(2,3) by (simp_all only: of_nat_0_less_iff) (metis of_nat_le_iff of_nat_numeral of_nat_power)
  have divisor: "single (single (of_nat data_num) * single (of_nat consumer)) = ?d"
    using exact [OF le(1)] exact [OF le(2)] exact [OF assms(3)] by simp
  let ?x = "of_nat n / ?d"
  have loss: "loss (int n) data_num consumer = Some (single (1 - single ?x))"
    using divisor d(1) exact [of n] assms by (simp add: loss_def Let_def)
  have one: "single 1 = 1" using single_int [of 1] by simp
  consider "n = 0" | "n = data_num * consumer" "n \<noteq> 0" | "0 < n" "n < data_num * consumer"
    using assms(1) by linarith
  then show ?thesis
  proof cases
    case 3
    have "(of_nat n :: rat) + 1 \<le> ?d" "(1 :: rat) \<le> of_nat n"
      using 3 by (simp_all add: Suc_le_eq flip: of_nat_Suc of_nat_mult)
    moreover have "1 / D \<le> k / D \<and> k / D \<le> 1 - 1 / D" if "0 < D" "k + 1 \<le> D" "1 \<le> k" for k D :: rat
      using that by (simp add: field_simps)
    ultimately have x: "1 / ?d \<le> ?x" "?x \<le> 1 - 1 / ?d" using d(1) by blast+
    have "1 / 2 ^ 24 \<le> 1 / ?d" using d by (simp add: frac_le)
    with x have "1 / 2 ^ 24 \<le> ?x \<and> ?x \<le> 1 - 1 / 2 ^ 24" by linarith
    from single_inner [OF this] have "1 / 2 ^ 24 \<le> 1 - single ?x \<and> 1 - single ?x \<le> 1 - 1 / 2 ^ 24" by linarith
    from single_inner [OF this] have l: "1 / 2 ^ 24 \<le> single (1 - single ?x) \<and> single (1 - single ?x) \<le> 1 - 1 / 2 ^ 24" .
    moreover have "(0 :: rat) < 1 / 2 ^ 24" by simp
    ultimately have "0 < single (1 - single ?x)" "single (1 - single ?x) < 1" by linarith+
    then show ?thesis using loss 3 by auto
  qed (use loss d one assms(2) in auto)
qed

text \<open>
  C25: Whatever is lost, the counter never exceeds the number of messages times the number of consumers; and as
  long as this product is at most 2 to the power of 24, the loss rate, computed in single precision, is a
  number between 0 and 1: 0 exactly when every consumer has counted every message, and 1 exactly when none has
  counted any.
\<close>

theorem loss_rate_bounds:
  assumes "ring_run locked data_num buf consumer g s" and "0 < data_num" and "0 < buf" and "0 < consumer"
    and "data_num * consumer \<le> 2 ^ 24"
  shows "sint (r_count s) \<le> int (data_num * consumer) \<and>
    (\<exists>l. loss (sint (r_count s)) data_num consumer = Some l \<and> 0 \<le> l \<and> l \<le> 1 \<and>
      (l = 0 \<longleftrightarrow> sint (r_count s) = int (data_num * consumer)) \<and> (l = 1 \<longleftrightarrow> r_count s = 0))"
proof -
  have "int (data_num * consumer) \<le> int (2 ^ 24)" using assms(5) by (simp only: of_nat_le_iff)
  then have "int (data_num * consumer) \<le> INT_MAX" by (simp add: INT_MAX_def)
  from counter_bound [OF assms(1-3) this] obtain n where
    n: "n \<le> data_num * consumer" "sint (r_count s) = int n" "n = 0 \<longleftrightarrow> r_count s = 0" by blast
  have "0 < data_num * consumer" using assms(2,4) by simp
  from loss_small [OF n(1) this assms(5)] n show ?thesis by (auto simp: of_nat_eq_iff simp del: of_nat_mult)
qed

theorem loss_rate_bounds_witness:
  "sint (r_count (start_ring 3 2)) \<le> 10 \<and> (\<exists>l. loss (sint (r_count (start_ring 3 2))) 5 2 = Some l \<and> 0 \<le> l \<and> l \<le> 1)"
  using loss_rate_bounds [OF ring_run.run_start [of True 5 3 2 0]] by auto

text \<open>
  With more messages the rounding shows: when three consumers have counted all of 16777217 messages, the rate
  printed is less than 0.
\<close>

theorem loss_negative: "\<exists>l. loss (16777217 * 3) 16777217 3 = Some l \<and> l < 0"
  by (simp add: loss_def single_numbers)

text \<open>
  The enhanced program prints a loss of 0 when every consumer counted every message, and of 1 in every
  other case.
\<close>

lemma sdiv_small:
  assumes "n \<le> m" and "0 < m"
  shows "int n sdiv int m = (if n = m then 1 else 0)"
  using assms by (cases "n = m") (simp_all add: signed_divide_int_def)

theorem loss_enhanced_extremes:
  assumes "p \<le> data_num * consumer" and "0 < data_num * consumer" and "int (data_num * consumer) \<le> INT_MAX"
  shows "loss_enhanced (int p) data_num consumer = Some (if p = data_num * consumer then 0 else 1)"
  using sdiv_small [OF assms(1,2)] assms by (simp add: loss_enhanced_def del: of_nat_mult)

theorem loss_enhanced_extremes_witness: "loss_enhanced 9 5 2 = Some 1"
  using loss_enhanced_extremes [of 9 5 2] by (simp add: INT_MAX_def)

text \<open>
  C10: Under the lock a consumer that is about to copy its slot is alone with it, and finds there nothing or
  a whole message, whose number is that of the consumer's round up to whole laps of the ring.
\<close>

theorem locked_reads_whole:
  assumes "ring_run True data_num buf consumer g s" and "0 < data_num" and "0 < buf" and "data_num \<le> 10 ^ 10"
    and "i < length (consumers s)" and "kpc (consumers s ! i) = Reading"
  shows "(\<forall>k. ppc s \<noteq> Storing k) \<and>
    (\<forall>j < length (consumers s). kpc (consumers s ! j) = Reading \<longrightarrow> j = i) \<and>
    whole data_num buf (k_b (consumers s ! i) mod buf) (r_slots s ! k_ptr (consumers s ! i))"
proof -
  have r: "reader s i" using assms(5,6) by (simp add: reader_def)
  then have l: "\<not> storing s" "\<forall>j. reader s j \<longrightarrow> j = i"
    using run_lock [OF assms(1)] by (auto simp: lock_ok_def)
  have k: "k_ptr (consumers s ! i) = k_b (consumers s ! i) mod buf"
    using run_shape [OF assms(1-3)] assms(5) by (auto simp: shape_ok_def consumer_ok_def)
  have "whole data_num buf (k_b (consumers s ! i) mod buf) (r_slots s ! k_ptr (consumers s ! i))"
    using run_slots [OF assms(1-4)] l(1) assms(3) by (simp add: slots_ok_def k)
  then show ?thesis using l by (auto simp: storing_def reader_def)
qed

text \<open>A run that brings a consumer to its slot.\<close>

lemma store_some:
  assumes "ring_run locked d buf c g s" and "ppc s = Storing 0"
    and "k \<le> length (message (p_n s) @ [NUL])"
  shows "\<exists>sl. ring_run locked d buf c g (s\<lparr>ppc := Storing k, r_slots := sl\<rparr>)"
  using assms(3)
proof (induction k)
  case 0
  have "s\<lparr>ppc := Storing 0, r_slots := r_slots s\<rparr> = s" using assms(2) by (cases s) simp
  then show ?case using assms(1) by metis
next
  case (Suc k)
  then obtain sl where "ring_run locked d buf c g (s\<lparr>ppc := Storing k, r_slots := sl\<rparr>)" by auto
  from run_p [OF this p_store [of _ k]] Suc.prems show ?case by fastforce
qed

definition first_reader :: "char list list \<Rightarrow> ring" where
  "first_reader sl = \<lparr>ppc = Signal 1, p_n = 0, p_ptr = 0, r_slots = sl, r_count = 0, r_lock = True,
     consumers = [\<lparr>kpc = Reading, recv_seq = 0, pending = None, k_b = 0, k_ptr = 0\<rparr>]\<rparr>"

lemma first_reader_run: "\<exists>sl. ring_run True 3 2 1 0 (first_reader sl)"
proof -
  let ?k = "\<lambda>pc q. \<lparr>kpc = pc, recv_seq = 0, pending = q, k_b = 0, k_ptr = 0\<rparr>"
  let ?s = "\<lambda>pc sl lk k. \<lparr>ppc = pc, p_n = 0, p_ptr = 0, r_slots = sl, r_count = 0, r_lock = lk, consumers = [k]\<rparr>"
  let ?run = "ring_run True 3 2 1 0"
  let ?z = "replicate 2 (zeros SLOT)" and ?len = "length (message 0 @ [NUL])"
  have "?run (?s Write ?z False (?k Starting None))"
    using run_start [of True 3 2 1 0] by (simp add: start_ring_def start_consumer_def)
  from run_k [OF this k_install [of 0]] have "?run (?s Write ?z False (?k Ready None))" by simp
  from run_k [OF this k_pause [of 0]] have "?run (?s Write ?z False (?k Pausing None))" by simp
  from run_p [OF this p_lock] have "?run (?s (Storing 0) ?z True (?k Pausing None))" by simp
  from store_some [OF this, of ?len] obtain sl where "?run (?s (Storing ?len) sl True (?k Pausing None))" by auto
  from run_p [OF this p_unlock] have "?run (?s (Signal 0) sl False (?k Pausing None))" by simp
  from run_p [OF this p_signal] have "?run (?s (Signal 1) sl False (?k Pausing (Some 0)))"
    by (simp add: send_signal_def)
  from run_k [OF this k_deliver [of 0]] have "?run (?s (Signal 1) sl False (?k Awake None))"
    by (simp add: capture_signal_def)
  from run_k [OF this k_lock [of 0]] have "?run (?s (Signal 1) sl True (?k Reading None))" by simp
  then show ?thesis by (auto simp: first_reader_def)
qed

theorem locked_reads_whole_witness:
  "\<exists>sl. ring_run True 3 2 1 0 (first_reader sl) \<and> kpc (consumers (first_reader sl) ! 0) = Reading \<and>
    whole 3 2 0 (sl ! 0)"
proof -
  obtain sl where run: "ring_run True 3 2 1 0 (first_reader sl)" using first_reader_run by blast
  show ?thesis
    using locked_reads_whole [OF run, of 0] run by (intro exI [of _ sl]) (simp add: first_reader_def)
qed

text \<open>The continuations of a state, and a consumer that nobody will wake.\<close>

definition ring_step :: "bool \<Rightarrow> nat \<Rightarrow> nat \<Rightarrow> int \<Rightarrow> ring \<Rightarrow> ring \<Rightarrow> bool" where
  "ring_step locked data_num buf g s t \<longleftrightarrow>
     p_step locked data_num buf s t \<or> (\<exists>i. k_step locked data_num buf g i s t)"

definition stuck :: "nat \<Rightarrow> nat \<Rightarrow> ring \<Rightarrow> bool" where
  "stuck data_num i s \<longleftrightarrow> ppc s = Write \<and> p_n s = data_num \<and> i < length (consumers s) \<and>
     kpc (consumers s ! i) = Pausing \<and> pending (consumers s ! i) = None"

lemma stuck_step:
  assumes "stuck data_num i s" and "ring_step locked data_num buf g s t"
  shows "stuck data_num i t \<and> consumers t ! i = consumers s ! i"
  using assms(2) unfolding ring_step_def
proof
  assume "p_step locked data_num buf s t"
  then show ?thesis using assms(1) by (cases rule: p_step.cases) (auto simp: stuck_def)
next
  assume "\<exists>j. k_step locked data_num buf g j s t"
  then obtain j where "k_step locked data_num buf g j s t" by blast
  then show ?thesis
    using assms(1) by (cases rule: k_step.cases) (auto simp: stuck_def nth_list_update)
qed

text \<open>
  A consumer that still waits for a message when the producer has sent all of them, without a pending
  signal, waits for ever, and the producer waits for its end: no later step changes it.
\<close>

theorem missed_signal_blocks:
  assumes "stuck data_num i s" and "(ring_step locked data_num buf g)\<^sup>*\<^sup>* s t"
  shows "consumers t ! i = consumers s ! i \<and> kpc (consumers t ! i) = Pausing"
proof -
  from assms(2) have "stuck data_num i t \<and> consumers t ! i = consumers s ! i"
  proof (induction rule: rtranclp_induct)
    case base
    then show ?case using assms(1) by simp
  next
    case (step t u)
    then show ?case using stuck_step by metis
  qed
  then show ?thesis unfolding stuck_def by metis
qed

text \<open>Such a state is reached: both signals are sent before the first is delivered, and are one.\<close>

definition merged :: "32 word \<Rightarrow> char list list \<Rightarrow> ring" where
  "merged cnt sl = \<lparr>ppc = Write, p_n = 2, p_ptr = 0, r_slots = sl, r_count = cnt, r_lock = False,
     consumers = [\<lparr>kpc = Pausing, recv_seq = 0, pending = None, k_b = 1, k_ptr = 0\<rparr>]\<rparr>"

lemma merged_run: "\<exists>cnt sl. ring_run True 2 1 1 0 (merged cnt sl)"
proof -
  let ?k = "\<lambda>pc q b. \<lparr>kpc = pc, recv_seq = 0, pending = q, k_b = b, k_ptr = 0\<rparr>"
  let ?s = "\<lambda>pc n sl lk c k. \<lparr>ppc = pc, p_n = n, p_ptr = 0, r_slots = sl, r_count = c, r_lock = lk, consumers = [k]\<rparr>"
  let ?run = "ring_run True 2 1 1 0"
  let ?z = "[zeros SLOT]" and ?len = "\<lambda>n. length (message n @ [NUL])"
  have "?run (?s Write 0 ?z False 0 (?k Starting None 0))"
    using run_start [of True 2 1 1 0] by (simp add: start_ring_def start_consumer_def)
  from run_k [OF this k_install [of 0]] have "?run (?s Write 0 ?z False 0 (?k Ready None 0))" by simp
  from run_k [OF this k_pause [of 0]] have "?run (?s Write 0 ?z False 0 (?k Pausing None 0))" by simp
  from run_p [OF this p_lock] have "?run (?s (Storing 0) 0 ?z True 0 (?k Pausing None 0))" by simp
  from store_some [OF this, of "?len 0"] obtain sl
    where "?run (?s (Storing (?len 0)) 0 sl True 0 (?k Pausing None 0))" by auto
  from run_p [OF this p_unlock] have "?run (?s (Signal 0) 0 sl False 0 (?k Pausing None 0))" by simp
  from run_p [OF this p_signal] have "?run (?s (Signal 1) 0 sl False 0 (?k Pausing (Some 0) 0))"
    by (simp add: send_signal_def)
  from run_p [OF this p_next] have "?run (?s Write 1 sl False 0 (?k Pausing (Some 0) 0))"
    by (simp add: next_ptr_def)
  from run_p [OF this p_lock] have "?run (?s (Storing 0) 1 sl True 0 (?k Pausing (Some 0) 0))" by simp
  from store_some [OF this, of "?len 1"] obtain sl'
    where "?run (?s (Storing (?len 1)) 1 sl' True 0 (?k Pausing (Some 0) 0))" by auto
  from run_p [OF this p_unlock] have "?run (?s (Signal 0) 1 sl' False 0 (?k Pausing (Some 0) 0))" by simp
  from run_p [OF this p_signal] have "?run (?s (Signal 1) 1 sl' False 0 (?k Pausing (Some 0) 0))"
    by (simp add: send_signal_def)
  from run_p [OF this p_next] have "?run (?s Write 2 sl' False 0 (?k Pausing (Some 0) 0))"
    by (simp add: next_ptr_def numeral_2_eq_2)
  from run_k [OF this k_deliver [of 0]] have "?run (?s Write 2 sl' False 0 (?k Awake None 0))"
    by (simp add: capture_signal_def)
  from run_k [OF this k_lock [of 0]] have "?run (?s Write 2 sl' True 0 (?k Reading None 0))" by simp
  from run_k [OF this k_copy [of 0]] obtain split
    where "?run (?s Write 2 sl' False 0 (?k (Copied split) None 0))" by simp
  from run_k [OF this k_compare [of 0]] obtain cnt where "?run (?s Write 2 sl' False cnt (?k Ready None 1))"
    by (auto simp: round_over_def next_ptr_def)
  from run_k [OF this k_pause [of 0]] have "?run (?s Write 2 sl' False cnt (?k Pausing None 1))" by simp
  then show ?thesis by (auto simp: merged_def)
qed

theorem missed_signal_blocks_witness:
  "\<exists>cnt sl. ring_run True 2 1 1 0 (merged cnt sl) \<and> stuck 2 0 (merged cnt sl) \<and>
    kpc (consumers (merged cnt sl) ! 0) = Pausing"
proof -
  obtain cnt sl where run: "ring_run True 2 1 1 0 (merged cnt sl)" using merged_run by blast
  have st: "stuck 2 0 (merged cnt sl)" by (simp add: stuck_def merged_def)
  from missed_signal_blocks [OF st, of True 1 0 "merged cnt sl"] run st show ?thesis by blast
qed

text \<open>
  C12: The enhanced program refines the other one: each of its runs, without the lock, is a run of
  \<open>program.c\<close>, with the same messages, signals and count.
\<close>

theorem enhanced_refines_program:
  assumes "enhanced_run data_num buf consumer g s" and "0 < data_num" and "0 < buf"
    and "int data_num \<le> INT_MAX"
  shows "program_run data_num buf consumer g (s\<lparr>r_lock := False\<rparr>)"
proof -
  have d: "data_num \<le> 10 ^ 10" using assms(4) by (simp add: INT_MAX_def)
  have "ring_run True data_num buf consumer g s" using assms(1) by (simp add: enhanced_run_def)
  then have "ring_run False data_num buf consumer g (s\<lparr>r_lock := False\<rparr>)"
  proof (induction rule: ring_run.induct)
    case run_start
    then show ?case using ring_run.run_start [of False] by (simp add: start_ring_def)
  next
    case (run_p s t)
    then show ?case using ring_run.run_p erase_p by blast
  next
    case (run_k s i t)
    then show ?case using ring_run.run_k erase_k [OF run_k(2) run_copies [OF run_k(1) assms(2,3) d] assms(4)] by blast
  qed
  then show ?thesis by (simp add: program_run_def)
qed

theorem enhanced_refines_program_witness:
  "\<exists>sl. program_run 3 2 1 0 (first_reader sl\<lparr>r_lock := False\<rparr>)"
proof -
  obtain sl where "enhanced_run 3 2 1 0 (first_reader sl)"
    using first_reader_run by (auto simp: enhanced_run_def)
  from enhanced_refines_program [OF this] show ?thesis by (auto simp: INT_MAX_def)
qed

end
