(* ===== verification/RingMain.thy ===== *)
theory RingMain
  imports RingBuffer
begin

text \<open>
  The frame of the two programs of \<open>src/SP_HW10\<close> around the producer and the consumers of \<open>RingBuffer\<close>: what
  \<open>main\<close> does with its arguments and with the shared memory before it forks, and the report it prints
  behind the end of the consumers.  Which calls on the shared memory fail is an argument; \<open>ftruncate\<close>
  refuses a negative size and \<open>mmap\<close> an empty one, as documented.  The digits \<open>printf\<close> shows of the loss rate
  of \<open>program.c\<close> are an argument too; the rate of \<open>program_enhanced.c\<close> is an integer.
\<close>

section \<open>The set-up\<close>

record shm_calls =
  shm_opens :: bool
  ftruncate_ok :: bool
  mmap_ok :: bool

datatype setup_result = Gives_up string | Starts nat nat nat  \<comment> \<open>data\_num, consumer, buf\<close>

definition int_result :: "int \<Rightarrow> int res" where
  "int_result i = (if INT_MIN \<le> i \<and> i \<le> INT_MAX then Inr i else Inl Arithmetic)"

text \<open>The program itself is the first argument; the second number, the rate, is only slept by.\<close>

definition ring_setup :: "shm_calls \<Rightarrow> string list \<Rightarrow> setup_result res" where
  "ring_setup c argv =
     (if length argv < 5 then Inl NullDeref
      else
        (let data_num = atoi (argv ! 1); consumer = atoi (argv ! 3); buf = atoi (argv ! 4) in
         bindE (int_result (buf * 80)) (\<lambda>buffer_size.
         if \<not> shm_opens c then Inr (Gives_up ''shm_open'')
         else if \<not> ftruncate_ok c \<or> buffer_size < 0 then Inr (Gives_up ''ftruncate error'')
         else if \<not> mmap_ok c \<or> buffer_size = 0 then Inr (Gives_up ''mmap'')
         else if consumer \<le> 0 then Inl OutOfBounds
         else Inr (Starts (nat data_num) (nat consumer) (nat buf)))))"

section \<open>The report\<close>

definition report_lines :: "int \<Rightarrow> int \<Rightarrow> string \<Rightarrow> string" where
  "report_lines all received rate =
     ''Total message: '' @ dec_int all @ NL # ''Sum of received messages by all consumers: '' @ dec_int received @
     NL # ''Loss rate: '' @ rate @ [NL]"

definition report_program :: "(rat option \<Rightarrow> string) \<Rightarrow> nat \<Rightarrow> nat \<Rightarrow> int \<Rightarrow> string res" where
  "report_program show_loss data_num consumer p =
     bindE (int_result (int (data_num * consumer))) (\<lambda>all.
     Inr (report_lines all p (show_loss (loss p data_num consumer))))"

definition report_enhanced :: "nat \<Rightarrow> nat \<Rightarrow> int \<Rightarrow> string res" where
  "report_enhanced data_num consumer p =
     (case loss_enhanced p data_num consumer of
        None \<Rightarrow> Inl Arithmetic
      | Some l \<Rightarrow>
          bindE (int_result (int (data_num * consumer))) (\<lambda>all.
          Inr (report_lines all p (dec_int l @ ''.000000''))))"

section \<open>Properties\<close>

lemma setup_starts:
  assumes "ring_setup c argv = Inr (Starts d k b)"
  shows "0 < k \<and> 0 < b \<and> int (b * 80) \<le> INT_MAX \<and> d = nat (atoi (argv ! 1)) \<and> k = nat (atoi (argv ! 3)) \<and> b = nat (atoi (argv ! 4))"
  using assms
  by (auto simp: ring_setup_def Let_def bindE_Inr_iff int_result_def split: if_splits)

text \<open>
  Once program_enhanced has started, it reports the messages its consumers counted, never more than
  there were, and a loss of either nothing or everything.
\<close>

theorem enhanced_reports:
  assumes "ring_setup c argv = Inr (Starts d k b)" and "ring_run True d b k g s" and "0 < d" and "int (d * k) \<le> INT_MAX"
  shows "sint (r_count s) \<le> int (d * k) \<and>
    report_enhanced d k (sint (r_count s)) = Inr (report_lines (int (d * k)) (sint (r_count s))
      (if sint (r_count s) = int (d * k) then ''0.000000'' else ''1.000000''))"
proof -
  have k: "0 < k" and b: "0 < b" using setup_starts [OF assms(1)] by blast+
  from counter_bound [OF assms(2,3) b assms(4)] obtain n where n: "n \<le> d * k" "sint (r_count s) = int n" by blast
  have le: "int n \<le> int (d * k)" using n(1) by (simp only: of_nat_le_iff)
  have pos: "0 < d * k" using k assms(3) by simp
  have eq: "int n = int (d * k) \<longleftrightarrow> n = d * k" by (simp only: of_nat_eq_iff)
  have "dec_int 0 = ''0''" "dec_int 1 = ''1''" by code_simp+
  then show ?thesis
    using le pos assms(4) loss_enhanced_extremes [OF n(1) pos assms(4)] unfolding n(2) eq
    by (simp add: report_enhanced_def int_result_def INT_MIN_def del: of_nat_mult)
qed

theorem enhanced_reports_witness:
  "report_enhanced 2 1 (sint (r_count (start_ring 3 1))) = Inr (report_lines 2 0 ''1.000000'')"
proof -
  have n: "atoi ''2'' = 2" "atoi ''1'' = 1" "atoi ''3'' = 3" by code_simp+
  have "ring_setup \<lparr>shm_opens = True, ftruncate_ok = True, mmap_ok = True\<rparr> [''program'', ''2'', ''1'', ''1'', ''3''] =
      Inr (Starts 2 1 3)"
    by (simp add: ring_setup_def n int_result_def INT_MIN_def INT_MAX_def)
  from enhanced_reports [OF this ring_run.run_start [of True 2 3 1 0]] show ?thesis
    by (simp add: INT_MAX_def start_ring_def)
qed

end
