(* ===== verification/RingFail.thy ===== *)
theory RingFail
  imports RingMain
begin

text \<open>
  The programs of \<open>src/SP_HW10\<close> with everything that can go wrong around the ring: a \<open>fork\<close> or a \<open>sigqueue\<close>
  that fails ends the producer; a consumer opens the shared memory when it has been woken for the first
  time, and ends when it cannot; the first consumer that has finished removes the name of the memory, so
  that nobody can open it any more.  The state holds the ring of \<open>RingBuffer\<close>, and \<open>full_step\<close> wraps its
  steps.  \<open>said\<close> records what is printed, by whom: a consumer's copy of a message behind which \<open>printf\<close> puts
  a newline, and the messages of the failures.

  The lemmas show that the ring inside is always a state of \<open>ring_run\<close>: failures add no behaviour, so what
  \<open>RingBuffer\<close> shows of all its runs holds with them.
\<close>

section \<open>States\<close>

datatype speaker = Producer | Consumer nat

datatype saying = Printed speaker string | Complaint speaker string

record full_ring =
  base :: ring
  forked :: nat
  stopped :: bool                \<comment> \<open>the producer has ended because a call failed\<close>
  gone :: "nat \<Rightarrow> bool"         \<comment> \<open>the consumer has ended because a call failed\<close>
  attached :: "nat \<Rightarrow> bool"     \<comment> \<open>the consumer has mapped the shared memory\<close>
  named :: bool                  \<comment> \<open>the name of the shared memory exists\<close>
  said :: "saying list"

definition start_full :: "nat \<Rightarrow> nat \<Rightarrow> full_ring" where
  "start_full buf consumer = \<lparr>base = start_ring buf consumer, forked = 0, stopped = False, gone = (\<lambda>_. False),
     attached = (\<lambda>_. False), named = True, said = []\<rparr>"

section \<open>Steps\<close>

text \<open>What a step of consumer \<open>i\<close> from the ring \<open>b\<close> to \<open>b'\<close> prints, and whether it ends the consumer.\<close>

definition prints :: "nat \<Rightarrow> ring \<Rightarrow> ring \<Rightarrow> saying list" where
  "prints i b b' =
     (case kpc (consumers b ! i) of
        Reading \<Rightarrow> (case kpc (consumers b' ! i) of Copied split \<Rightarrow> [Printed (Consumer i) (split @ [NL])] | _ \<Rightarrow> [])
      | _ \<Rightarrow> [])"

definition finishes :: "nat \<Rightarrow> ring \<Rightarrow> ring \<Rightarrow> bool" where
  "finishes i b b' \<longleftrightarrow> kpc (consumers b ! i) \<noteq> Finished \<and> kpc (consumers b' ! i) = Finished"

inductive full_step :: "bool \<Rightarrow> nat \<Rightarrow> nat \<Rightarrow> int \<Rightarrow> full_ring \<Rightarrow> full_ring \<Rightarrow> bool" for locked data_num buf g where
  f_fork: "\<not> stopped s \<Longrightarrow> forked s < length (consumers (base s)) \<Longrightarrow>
     full_step locked data_num buf g s (s\<lparr>forked := Suc (forked s)\<rparr>)"
| f_fork_fails: "\<not> stopped s \<Longrightarrow> forked s < length (consumers (base s)) \<Longrightarrow>
     full_step locked data_num buf g s (s\<lparr>stopped := True, said := said s @ [Complaint Producer ''fork'']\<rparr>)"
| f_produce: "\<not> stopped s \<Longrightarrow> forked s = length (consumers (base s)) \<Longrightarrow> p_step locked data_num buf (base s) b \<Longrightarrow>
     full_step locked data_num buf g s (s\<lparr>base := b\<rparr>)"
| f_sigqueue_fails: "\<not> stopped s \<Longrightarrow> ppc (base s) = Signal i \<Longrightarrow> i < length (consumers (base s)) \<Longrightarrow>
     full_step locked data_num buf g s (s\<lparr>stopped := True, said := said s @ [Complaint Producer ''sigqueue'']\<rparr>)"
| f_attach: "i < forked s \<Longrightarrow> \<not> gone s i \<Longrightarrow> \<not> attached s i \<Longrightarrow> kpc (consumers (base s) ! i) = Awake \<Longrightarrow> named s \<Longrightarrow>
     full_step locked data_num buf g s (s\<lparr>attached := (attached s)(i := True)\<rparr>)"
| f_attach_fails: "i < forked s \<Longrightarrow> \<not> gone s i \<Longrightarrow> \<not> attached s i \<Longrightarrow> kpc (consumers (base s) ! i) = Awake \<Longrightarrow>
     m = ''shm_open'' \<or> m = ''mmap'' \<and> named s \<Longrightarrow>
     full_step locked data_num buf g s (s\<lparr>gone := (gone s)(i := True), said := said s @ [Complaint (Consumer i) m]\<rparr>)"
| f_consume: "i < forked s \<Longrightarrow> \<not> gone s i \<Longrightarrow> k_step locked data_num buf g i (base s) b \<Longrightarrow>
     (kpc (consumers b ! i) = Reading \<longrightarrow> attached s i) \<Longrightarrow>
     full_step locked data_num buf g s
       (s\<lparr>base := b, named := (named s \<and> \<not> finishes i (base s) b), said := said s @ prints i (base s) b\<rparr>)"

inductive full_run :: "bool \<Rightarrow> nat \<Rightarrow> nat \<Rightarrow> nat \<Rightarrow> int \<Rightarrow> full_ring \<Rightarrow> bool" for locked data_num buf consumer g where
  full_start: "full_run locked data_num buf consumer g (start_full buf consumer)"
| full_more: "full_run locked data_num buf consumer g s \<Longrightarrow> full_step locked data_num buf g s t \<Longrightarrow>
     full_run locked data_num buf consumer g t"

section \<open>Failures add no behaviour\<close>

lemma full_base:
  assumes "full_run locked d buf c g s"
  shows "ring_run locked d buf c g (base s)"
  using assms
proof (induction rule: full_run.induct)
  case full_start
  show ?case by (simp add: start_full_def run_start)
next
  case (full_more s t)
  from full_more.hyps(2) full_more.IH show ?case
    by (cases rule: full_step.cases) (auto intro: ring_run.intros)
qed

text \<open>
  Whatever calls of the two ring programs fail, and whoever ends early: the ring itself is in a state that
  a run without failures reaches.
\<close>

theorem failures_refine:
  assumes "full_run locked data_num buf consumer g s"
  shows "ring_run locked data_num buf consumer g (base s)"
  by (rule full_base [OF assms])

text \<open>What a copy shows in a step of a consumer.\<close>

lemma prints_copy:
  assumes "k_step locked d buf g i b b'" and "Printed who out \<in> set (prints i b b')"
  shows "who = Consumer i \<and> i < length (consumers b) \<and> kpc (consumers b ! i) = Reading \<and>
    out = upto_nul (r_slots b ! k_ptr (consumers b ! i)) @ [NL, NL]"
  using assms by (cases rule: k_step.cases) (auto simp: prints_def capture_signal_def split: consumer_pc.splits)

lemma prints_no_complaint: "Complaint who m \<notin> set (prints i b b')"
  by (auto simp: prints_def split: consumer_pc.split)

definition said_whole :: "nat \<Rightarrow> saying list \<Rightarrow> bool" where
  "said_whole d ss \<longleftrightarrow> (\<forall>who out. Printed who out \<in> set ss \<longrightarrow> out = [NL, NL] \<or> (\<exists>m < d. out = message m @ [NL, NL]))"

lemma prints_whole:
  assumes "ring_run True d buf c g b" and "0 < d" and "0 < buf" and "d \<le> 10 ^ 10"
    and "k_step True d buf g i b b'"
  shows "said_whole d (prints i b b')"
proof -
  have "copies_ok d b'" using copies_k [OF assms(5) run_copies [OF assms(1-4)] assms(1-4)] .
  then have ok: "copied_ok d (consumers b' ! i)" if "i < length (consumers b')" using that by (simp add: copies_ok_def)
  have len: "length (consumers b') = length (consumers b)" using assms(5) by (cases rule: k_step.cases) simp_all
  show ?thesis
    unfolding said_whole_def
  proof (intro allI impI)
    fix who out assume p: "Printed who out \<in> set (prints i b b')"
    from prints_copy [OF assms(5) p] have i: "i < length (consumers b)" by simp
    from p obtain split where "kpc (consumers b' ! i) = Copied split" "out = split @ [NL]"
      by (force simp: prints_def split: consumer_pc.splits)
    with ok i len show "out = [NL, NL] \<or> (\<exists>m < d. out = message m @ [NL, NL])" by (auto simp: copied_ok_def)
  qed
qed

text \<open>
  C34: Under the lock, whatever fails, a consumer prints nothing but whole messages and empty lines.
\<close>

theorem locked_prints_whole:
  assumes "full_run True data_num buf consumer g s" and "0 < data_num" and "0 < buf" and "data_num \<le> 10 ^ 10"
    and "Printed who out \<in> set (said s)"
  shows "out = [NL, NL] \<or> (\<exists>m < data_num. out = message m @ [NL, NL])"
proof -
  from assms(1) have "said_whole data_num (said s)"
  proof (induction rule: full_run.induct)
    case full_start
    show ?case by (simp add: start_full_def said_whole_def)
  next
    case (full_more s t)
    note run = full_base [OF full_more.hyps(1)]
    from full_more.hyps(2) show ?case
    proof (cases rule: full_step.cases)
      case (f_consume i b)
      with prints_whole [OF run assms(2-4) f_consume(4)] full_more.IH show ?thesis by (auto simp: said_whole_def)
    qed (use full_more.IH in \<open>auto simp: said_whole_def\<close>)
  qed
  with assms(5) show ?thesis by (simp add: said_whole_def)
qed


text \<open>A run that brings the first of two consumers to its end before the second opens the memory.\<close>

lemma full_store:
  assumes "full_run locked d buf c g s" and "\<not> stopped s" and "forked s = length (consumers (base s))"
    and "ppc (base s) = Storing 0" and "k \<le> length (message (p_n (base s)) @ [NUL])"
  shows "\<exists>sl. full_run locked d buf c g (s\<lparr>base := (base s)\<lparr>ppc := Storing k, r_slots := sl\<rparr>\<rparr>)"
  using assms(5)
proof (induction k)
  case 0
  have "s\<lparr>base := (base s)\<lparr>ppc := Storing 0, r_slots := r_slots (base s)\<rparr>\<rparr> = s" using assms(4) by (cases s) simp
  then show ?case using assms(1) by metis
next
  case (Suc k)
  then obtain sl where run: "full_run locked d buf c g (s\<lparr>base := (base s)\<lparr>ppc := Storing k, r_slots := sl\<rparr>\<rparr>)" by auto
  have "p_step locked d buf (base (s\<lparr>base := (base s)\<lparr>ppc := Storing k, r_slots := sl\<rparr>\<rparr>))
      ((base s)\<lparr>ppc := Storing (Suc k), r_slots := sl[p_ptr (base s) := (sl ! p_ptr (base s))[k := (message (p_n (base s)) @ [NUL]) ! k]]\<rparr>)"
    using p_store [of "(base s)\<lparr>ppc := Storing k, r_slots := sl\<rparr>" k locked d buf] Suc.prems by simp
  from full_more [OF run f_produce [OF _ _ this]] assms(2,3) show ?case by auto
qed

definition two :: "producer_pc \<Rightarrow> nat \<Rightarrow> char list list \<Rightarrow> bool \<Rightarrow> 32 word \<Rightarrow> consumer_pc \<Rightarrow> int option \<Rightarrow> nat \<Rightarrow> consumer_pc \<Rightarrow> int option \<Rightarrow> ring" where
  "two pc n sl lk cnt k0 q0 b0 k1 q1 = \<lparr>ppc = pc, p_n = n, p_ptr = 0, r_slots = sl, r_count = cnt, r_lock = lk,
     consumers = [\<lparr>kpc = k0, recv_seq = 0, pending = q0, k_b = b0, k_ptr = 0\<rparr>,
                  \<lparr>kpc = k1, recv_seq = 0, pending = q1, k_b = 0, k_ptr = 0\<rparr>]\<rparr>"


lemma shut_out_run:
  "\<exists>sl cnt out. full_run True 1 1 2 0
     \<lparr>base = two (Signal 2) 0 sl False cnt Finished None 1 Awake None, forked = 2, stopped = False, gone = (\<lambda>_. False),
      attached = (\<lambda>_. False)(0 := True), named = False, said = [Printed (Consumer 0) out]\<rparr>"
proof -
  let ?run = "full_run True 1 1 2 0"
  let ?F = "\<lambda>b n av nm ss. \<lparr>base = b, forked = n, stopped = False, gone = (\<lambda>_. False), attached = av, named = nm, said = ss\<rparr>"
  let ?no = "\<lambda>_ :: nat. False" and ?z = "[zeros SLOT]" and ?len = "length (message 0 @ [NUL])"
  let ?at = "?no(0 := True)"
  have start: "start_full 1 2 = ?F (two Write 0 ?z False 0 Starting None 0 Starting None) 0 ?no True []"
    by (simp add: start_full_def start_ring_def two_def start_consumer_def numeral_2_eq_2)
  have "?run (?F (two Write 0 ?z False 0 Starting None 0 Starting None) 0 ?no True [])"
    using full_start [of True 1 1 2 0] unfolding start .
  from full_more [OF this f_fork] have "?run (?F (two Write 0 ?z False 0 Starting None 0 Starting None) 1 ?no True [])"
    by (simp add: two_def)
  from full_more [OF this f_fork] have "?run (?F (two Write 0 ?z False 0 Starting None 0 Starting None) 2 ?no True [])"
    by (simp add: two_def numeral_2_eq_2)
  from full_more [OF this f_consume [OF _ _ k_install [of 0]]]
  have "?run (?F (two Write 0 ?z False 0 Ready None 0 Starting None) 2 ?no True [])"
    by (simp add: two_def prints_def finishes_def)
  from full_more [OF this f_consume [OF _ _ k_pause [of 0]]]
  have "?run (?F (two Write 0 ?z False 0 Pausing None 0 Starting None) 2 ?no True [])"
    by (simp add: two_def prints_def finishes_def)
  from full_more [OF this f_consume [OF _ _ k_install [of 1]]]
  have "?run (?F (two Write 0 ?z False 0 Pausing None 0 Ready None) 2 ?no True [])"
    by (simp add: two_def prints_def finishes_def)
  from full_more [OF this f_consume [OF _ _ k_pause [of 1]]]
  have "?run (?F (two Write 0 ?z False 0 Pausing None 0 Pausing None) 2 ?no True [])"
    by (simp add: two_def prints_def finishes_def)
  from full_more [OF this f_produce [OF _ _ p_lock]]
  have stored: "?run (?F (two (Storing 0) 0 ?z True 0 Pausing None 0 Pausing None) 2 ?no True [])"
    by (simp add: two_def)
  obtain sl where "?run (?F (two (Storing ?len) 0 sl True 0 Pausing None 0 Pausing None) 2 ?no True [])"
    using full_store [OF stored, of ?len] by (auto simp: two_def)
  from full_more [OF this f_produce [OF _ _ p_unlock]]
  have "?run (?F (two (Signal 0) 0 sl False 0 Pausing None 0 Pausing None) 2 ?no True [])"
    by (simp add: two_def)
  from full_more [OF this f_produce [OF _ _ p_signal]]
  have "?run (?F (two (Signal 1) 0 sl False 0 Pausing (Some 0) 0 Pausing None) 2 ?no True [])"
    by (simp add: two_def send_signal_def)
  from full_more [OF this f_produce [OF _ _ p_signal]]
  have "?run (?F (two (Signal 2) 0 sl False 0 Pausing (Some 0) 0 Pausing (Some 0)) 2 ?no True [])"
    by (simp add: two_def send_signal_def numeral_2_eq_2)
  from full_more [OF this f_consume [OF _ _ k_deliver [of 0]]]
  have "?run (?F (two (Signal 2) 0 sl False 0 Awake None 0 Pausing (Some 0)) 2 ?no True [])"
    by (simp add: two_def prints_def finishes_def capture_signal_def)
  from full_more [OF this f_consume [OF _ _ k_deliver [of 1]]]
  have "?run (?F (two (Signal 2) 0 sl False 0 Awake None 0 Awake None) 2 ?no True [])"
    by (simp add: two_def prints_def finishes_def capture_signal_def)
  from full_more [OF this f_attach [of 0]]
  have "?run (?F (two (Signal 2) 0 sl False 0 Awake None 0 Awake None) 2 ?at True [])"
    by (simp add: two_def)
  from full_more [OF this f_consume [OF _ _ k_lock [of 0]]]
  have "?run (?F (two (Signal 2) 0 sl True 0 Reading None 0 Awake None) 2 ?at True [])"
    by (simp add: two_def prints_def finishes_def)
  from full_more [OF this f_consume [OF _ _ k_copy [of 0]]]
  have "?run (?F (two (Signal 2) 0 sl False 0 (Copied (upto_nul (sl ! 0) @ [NL])) None 0 Awake None) 2 ?at True
      [Printed (Consumer 0) (upto_nul (sl ! 0) @ [NL, NL])])"
    by (simp add: two_def prints_def finishes_def)
  from full_more [OF this f_consume [OF _ _ k_compare [of 0]]]
  obtain cnt where "?run (?F (two (Signal 2) 0 sl False cnt Finished None 1 Awake None) 2 ?at False
      [Printed (Consumer 0) (upto_nul (sl ! 0) @ [NL, NL])])"
    by (simp add: two_def prints_def finishes_def round_over_def next_ptr_def)
  then show ?thesis by blast
qed


section \<open>Who opens the memory too late\<close>

text \<open>A consumer that has not opened the memory has not got beyond waiting, and has printed nothing.\<close>

definition outside :: "consumer_pc \<Rightarrow> bool" where
  "outside pc \<longleftrightarrow> pc = Starting \<or> pc = Ready \<or> pc = Pausing \<or> pc = Awake \<or> pc = Killed"

definition shut_out :: "nat \<Rightarrow> full_ring \<Rightarrow> bool" where
  "shut_out i s \<longleftrightarrow> \<not> attached s i \<and> outside (kpc (consumers (base s) ! i)) \<and>
     (\<forall>out. Printed (Consumer i) out \<notin> set (said s))"

lemma outside_p: "p_step locked d buf b b' \<Longrightarrow> kpc (consumers b' ! i) = kpc (consumers b ! i)"
proof (induction rule: p_step.induct)
  case (p_signal s j)
  then show ?case by (cases "j = i") simp_all
qed simp_all

lemma outside_k:
  assumes "k_step locked d buf g j b b'" and "outside (kpc (consumers b ! i))"
    and "j = i \<Longrightarrow> kpc (consumers b' ! j) \<noteq> Reading"
  shows "outside (kpc (consumers b' ! i)) \<and> (\<forall>out. Printed (Consumer i) out \<notin> set (prints j b b'))"
proof (cases "j = i")
  case True
  from assms(1) show ?thesis
    using assms(2,3) unfolding True
    by (cases rule: k_step.cases) (auto simp: outside_def prints_def capture_signal_def split: consumer_pc.splits)
next
  case False
  from assms(1) have "kpc (consumers b' ! i) = kpc (consumers b ! i)"
    using False by (cases rule: k_step.cases) simp_all
  with False assms(2) show ?thesis using prints_copy [OF assms(1)] by auto
qed

lemma shut_out_step:
  assumes "full_step locked d buf g s t" and "\<not> named s" and "shut_out i s"
  shows "\<not> named t \<and> shut_out i t"
  using assms(1)
proof (cases rule: full_step.cases)
  case (f_produce b)
  then show ?thesis using assms(2,3) outside_p [OF f_produce(4), of i] by (simp add: shut_out_def)
next
  case (f_consume j b)
  have "\<not> attached s i" "outside (kpc (consumers (base s) ! i))" using assms(3) by (simp_all add: shut_out_def)
  then show ?thesis using assms(2,3) outside_k [OF f_consume(4), of i] f_consume by (auto simp: shut_out_def)
qed (use assms(2,3) in \<open>auto simp: shut_out_def\<close>)

lemma not_attached_shut_out:
  assumes "full_run locked d buf c g s" and "i < c" and "\<not> attached s i"
  shows "shut_out i s"
  using assms(1,3)
proof (induction rule: full_run.induct)
  case full_start
  show ?case using assms(2) by (simp add: shut_out_def outside_def start_full_def start_ring_def start_consumer_def)
next
  case (full_more s t)
  from full_more.hyps(2) show ?case
  proof (cases rule: full_step.cases)
    case (f_produce b)
    then show ?thesis using full_more.IH full_more.prems outside_p [OF f_produce(4), of i] by (simp add: shut_out_def)
  next
    case (f_consume j b)
    have "shut_out i s" using full_more.IH full_more.prems f_consume by simp
    then have "\<not> attached s i" "outside (kpc (consumers (base s) ! i))" by (simp_all add: shut_out_def)
    then show ?thesis using \<open>shut_out i s\<close> outside_k [OF f_consume(4), of i] f_consume by (auto simp: shut_out_def)
  next
    case (f_attach j)
    then show ?thesis using full_more.IH full_more.prems by (cases "j = i") (auto simp: shut_out_def)
  qed (use full_more.IH full_more.prems in \<open>auto simp: shut_out_def\<close>)
qed

lemma shut_out_steps:
  "(full_step locked d buf g)\<^sup>*\<^sup>* s t \<Longrightarrow> \<not> named s \<Longrightarrow> shut_out i s \<Longrightarrow> \<not> named t \<and> shut_out i t"
  by (induction rule: rtranclp_induct) (auto dest: shut_out_step)

text \<open>
  The first consumer that has read its last message removes the name of the shared memory: a consumer
  that has not opened it by then never opens it and never prints a message.
\<close>

theorem late_consumer_shut_out:
  assumes "full_run locked data_num buf consumer g s" and "i < consumer"
    and "\<not> named s" and "\<not> attached s i" and "(full_step locked data_num buf g)\<^sup>*\<^sup>* s t"
  shows "\<not> attached t i \<and> Printed (Consumer i) out \<notin> set (said t)"
  using shut_out_steps [OF assms(5,3) not_attached_shut_out [OF assms(1,2,4)]] by (simp add: shut_out_def)

lemma late_consumer_shut_out_witness:
  "\<exists>s t. full_run True 1 1 2 0 s \<and> full_step True 1 1 0 s t \<and> ppc (base s) = Signal 2 \<and> \<not> named s \<and>
     kpc (consumers (base t) ! 1) = Awake \<and> Complaint (Consumer 1) ''shm_open'' \<in> set (said t) \<and>
     Printed (Consumer 1) [NL, NL] \<notin> set (said t)"
proof -
  obtain sl cnt out where run: "full_run True 1 1 2 0
     \<lparr>base = two (Signal 2) 0 sl False cnt Finished None 1 Awake None, forked = 2, stopped = False, gone = (\<lambda>_. False),
      attached = (\<lambda>_. False)(0 := True), named = False, said = [Printed (Consumer 0) out]\<rparr>" (is "full_run _ _ _ _ _ ?s")
    using shut_out_run by blast
  let ?t = "?s\<lparr>gone := (gone ?s)(1 := True), said := said ?s @ [Complaint (Consumer 1) ''shm_open'']\<rparr>"
  have step: "full_step True 1 1 0 ?s ?t" by (rule f_attach_fails) (simp_all add: two_def)
  have "Printed (Consumer 1) [NL, NL] \<notin> set (said ?t)"
    using late_consumer_shut_out [OF run, of 1 ?t "[NL, NL]"] step by auto
  moreover have "ppc (base ?s) = Signal 2" "\<not> named ?s" "kpc (consumers (base ?t) ! 1) = Awake"
    "Complaint (Consumer 1) ''shm_open'' \<in> set (said ?t)"
    by (simp_all add: two_def)
  ultimately show ?thesis using run step by blast
qed

text \<open>Witnesses of the other two properties, in the same run.\<close>

lemma failures_refine_witness:
  "\<exists>sl cnt. ring_run True 1 1 2 0 (two (Signal 2) 0 sl False cnt Finished None 1 Awake None)"
proof -
  obtain sl cnt out where run: "full_run True 1 1 2 0
     \<lparr>base = two (Signal 2) 0 sl False cnt Finished None 1 Awake None, forked = 2, stopped = False, gone = (\<lambda>_. False),
      attached = (\<lambda>_. False)(0 := True), named = False, said = [Printed (Consumer 0) out]\<rparr>"
    using shut_out_run by blast
  from failures_refine [OF run] show ?thesis by auto
qed

lemma locked_prints_whole_witness:
  "\<exists>s out. full_run True 1 1 2 0 s \<and> said s = [Printed (Consumer 0) out] \<and>
     (out = [NL, NL] \<or> out = ''This is message 0'' @ [NL, NL])"
proof -
  obtain sl cnt out where run: "full_run True 1 1 2 0
     \<lparr>base = two (Signal 2) 0 sl False cnt Finished None 1 Awake None, forked = 2, stopped = False, gone = (\<lambda>_. False),
      attached = (\<lambda>_. False)(0 := True), named = False, said = [Printed (Consumer 0) out]\<rparr>" (is "full_run _ _ _ _ _ ?s")
    using shut_out_run by blast
  have "message 0 = ''This is message 0''" by code_simp
  then have "out = [NL, NL] \<or> out = ''This is message 0'' @ [NL, NL]"
    using locked_prints_whole [OF run, of "Consumer 0" out] by auto
  with run show ?thesis by auto
qed

end
