(* ===== verification/RingLive.thy ===== *)
theory RingLive
  imports RingBuffer
begin

text \<open>
  Progress of the producer and the consumers of \<open>src/SP_HW10\<close>: whatever has happened, some process can take
  a step until the producer has sent all its messages and every consumer has ended or waits for a signal;
  and the producer can always be brought to its end.  The lock never stays taken by nobody.
\<close>

section \<open>Who holds the lock\<close>

definition lock_owned :: "ring \<Rightarrow> bool" where
  "lock_owned s \<longleftrightarrow> (r_lock s \<longrightarrow> storing s \<or> (\<exists>i. reader s i))"

lemma owned_p: "p_step locked d buf s t \<Longrightarrow> lock_owned s \<Longrightarrow> lock_owned t"
  by (induction rule: p_step.induct) (auto simp: lock_owned_def storing_def reader_def nth_list_update)

lemma owned_frame:
  assumes "lock_owned s" and "kpc (consumers s ! i) \<noteq> Reading"
    and "r_lock t = r_lock s" and "ppc t = ppc s" and "consumers t = (consumers s)[i := v]"
  shows "lock_owned t"
proof -
  have "reader t j" if "reader s j" for j using that assms(2,5) by (cases "j = i") (auto simp: reader_def)
  moreover have "storing t = storing s" using assms(4) by (simp add: storing_def)
  ultimately show ?thesis using assms(1,3) by (auto simp: lock_owned_def)
qed

lemma owned_k: "k_step locked d buf g i s t \<Longrightarrow> lock_owned s \<Longrightarrow> lock_owned t"
proof (induction rule: k_step.induct)
  case (k_deliver s v)
  then show ?case by (auto simp: lock_owned_def storing_def reader_def nth_list_update capture_signal_reading)
next
  case (k_lock s)
  then show ?case by (auto simp: lock_owned_def reader_def intro!: exI [of _ i])
next
  case (k_copy s)
  then show ?case by (simp add: lock_owned_def)
next
  case (k_install s)
  then show ?case by (intro owned_frame [OF k_install.prems]) simp_all
next
  case (k_pause s)
  then show ?case by (intro owned_frame [OF k_pause.prems]) simp_all
next
  case (k_compare s split)
  then show ?case by (intro owned_frame [OF k_compare.prems]) simp_all
qed

lemma run_owned: "ring_run locked d buf c g s \<Longrightarrow> lock_owned s"
proof (induction rule: ring_run.induct)
  case run_start
  show ?case by (simp add: lock_owned_def start_ring_def)
qed (auto intro: owned_p owned_k)

text \<open>The signals of a message go to the consumers one after the other.\<close>

definition signal_ok :: "ring \<Rightarrow> bool" where
  "signal_ok s \<longleftrightarrow> (\<forall>i. ppc s = Signal i \<longrightarrow> i \<le> length (consumers s))"

lemma run_signal: "ring_run locked d buf c g s \<Longrightarrow> signal_ok s"
proof (induction rule: ring_run.induct)
  case run_start
  show ?case by (simp add: signal_ok_def start_ring_def)
next
  case (run_p s t)
  from run_p.hyps(2) show ?case by (cases rule: p_step.cases) (auto simp: signal_ok_def)
next
  case (run_k s i t)
  from run_k.hyps(2) run_k.IH show ?case by (cases rule: k_step.cases) (auto simp: signal_ok_def)
qed

section \<open>Progress of the producer\<close>

definition stage :: "ring \<Rightarrow> nat" where
  "stage s = (case ppc s of Write \<Rightarrow> 2 | Storing k \<Rightarrow> 1 | Signal i \<Rightarrow> 0)"

definition to_do :: "ring \<Rightarrow> nat" where
  "to_do s = (case ppc s of
      Write \<Rightarrow> of_bool (r_lock s)
    | Storing k \<Rightarrow> length (message (p_n s) @ [NUL]) - k
    | Signal i \<Rightarrow> length (consumers s) - i)"

definition closer :: "nat \<Rightarrow> (ring \<times> ring) set" where
  "closer d = measures [\<lambda>s. d - p_n s, stage, to_do]"

definition sent_all :: "nat \<Rightarrow> ring \<Rightarrow> bool" where
  "sent_all d s \<longleftrightarrow> ppc s = Write \<and> p_n s = d"

lemma wf_closer: "wf (closer d)"
  by (simp add: closer_def)

lemma ring_step_p: "p_step locked d buf s t \<Longrightarrow> ring_step locked d buf g s t"
  by (simp add: ring_step_def)

lemma ring_step_k: "k_step locked d buf g i s t \<Longrightarrow> ring_step locked d buf g s t"
  by (auto simp: ring_step_def)

lemma producer_progress:
  assumes run: "ring_run locked d buf c g s" and "0 < d" and "0 < buf" and "d \<le> 10 ^ 10" and "\<not> sent_all d s"
  shows "\<exists>t. ring_step locked d buf g s t \<and> (t, s) \<in> closer d"
proof -
  have shape: "shape_ok d buf c s" by (rule run_shape [OF assms(1-3)])
  show ?thesis
  proof (cases "ppc s")
    case Write
    with shape assms(5) have n: "p_n s < d" by (auto simp: shape_ok_def sent_all_def)
    show ?thesis
    proof (cases "r_lock s")
      case True
      with run_owned [OF run] Write obtain i where "reader s i" by (auto simp: lock_owned_def storing_def)
      then have "k_step locked d buf g i s
          (s\<lparr>r_lock := False, consumers := (consumers s)[i := (consumers s ! i)
            \<lparr>kpc := Copied (upto_nul (r_slots s ! k_ptr (consumers s ! i)) @ [NL])\<rparr>]\<rparr>)" (is "k_step _ _ _ _ _ _ ?t")
        by (intro k_copy) (simp_all add: reader_def)
      moreover have "(?t, s) \<in> closer d" using Write True by (simp add: closer_def stage_def to_do_def)
      ultimately show ?thesis using ring_step_k by blast
    next
      case False
      with p_lock [OF Write n] have "p_step locked d buf s (s\<lparr>ppc := Storing 0, r_lock := locked\<rparr>)" by simp
      moreover have "(s\<lparr>ppc := Storing 0, r_lock := locked\<rparr>, s) \<in> closer d"
        using Write by (simp add: closer_def stage_def)
      ultimately show ?thesis using ring_step_p by blast
    qed
  next
    case (Storing k)
    let ?msg = "message (p_n s) @ [NUL]"
    have le: "k \<le> length ?msg" using run_slots [OF assms(1-4)] Storing by (simp add: slots_ok_def)
    show ?thesis
    proof (cases "k < length ?msg")
      case True
      have "p_step locked d buf s (s\<lparr>ppc := Storing (Suc k),
          r_slots := (r_slots s)[p_ptr s := (r_slots s ! p_ptr s)[k := ?msg ! k]]\<rparr>)" (is "p_step _ _ _ _ ?t")
        by (rule p_store [OF Storing True])
      moreover have "(?t, s) \<in> closer d" using Storing True by (simp add: closer_def stage_def to_do_def)
      ultimately show ?thesis using ring_step_p by blast
    next
      case False
      with le Storing have "p_step locked d buf s (s\<lparr>ppc := Signal 0, r_lock := False\<rparr>)" (is "p_step _ _ _ _ ?t")
        by (intro p_unlock) simp
      moreover have "(?t, s) \<in> closer d" using Storing by (simp add: closer_def stage_def)
      ultimately show ?thesis using ring_step_p by blast
    qed
  next
    case (Signal i)
    have le: "i \<le> length (consumers s)" using run_signal [OF run] Signal by (simp add: signal_ok_def)
    show ?thesis
    proof (cases "i < length (consumers s)")
      case True
      from p_signal [OF Signal True] show ?thesis
        using Signal True by (intro exI conjI) (rule ring_step_p, assumption, simp add: closer_def stage_def to_do_def)
    next
      case False
      with le Signal have step: "p_step locked d buf s
          (s\<lparr>ppc := Write, p_ptr := next_ptr buf (p_n s) (p_ptr s), p_n := Suc (p_n s)\<rparr>)" (is "p_step _ _ _ _ ?t")
        by (intro p_next) simp
      have "p_n s < d" using shape Signal by (simp add: shape_ok_def)
      then have "d - Suc (p_n s) < d - p_n s" by (rule diff_less_mono2 [OF lessI])
      then have "(?t, s) \<in> closer d" by (simp add: closer_def)
      with step show ?thesis using ring_step_p by blast
    qed
  qed
qed

lemma run_ring_step: "ring_run locked d buf c g s \<Longrightarrow> ring_step locked d buf g s t \<Longrightarrow> ring_run locked d buf c g t"
  by (auto simp: ring_step_def intro: run_p run_k)


lemma producer_reaches:
  assumes "0 < d" and "0 < buf" and "d \<le> 10 ^ 10" and "ring_run locked d buf c g s"
  shows "\<exists>t. (ring_step locked d buf g)\<^sup>*\<^sup>* s t \<and> sent_all d t"
  using assms(4)
proof (induction s rule: wf_induct_rule [OF wf_closer [of d]])
  case (1 s)
  show ?case
  proof (cases "sent_all d s")
    case False
    with producer_progress [OF 1(2) assms(1-3)] obtain u where u: "ring_step locked d buf g s u" "(u, s) \<in> closer d" by blast
    with 1(1) [OF u(2) run_ring_step [OF 1(2) u(1)]] show ?thesis by (meson converse_rtranclp_into_rtranclp)
  qed blast
qed

text \<open>A consumer that neither waits nor has ended can take a step, with the lock when it is free.\<close>

lemma k_enabled:
  assumes "i < length (consumers s)" and "kpc (consumers s ! i) \<notin> {Finished, Killed, Pausing}" and "\<not> r_lock s"
  shows "\<exists>t. k_step locked d buf g i s t"
proof (cases "kpc (consumers s ! i)")
  case Starting
  from k_install [OF assms(1) this] show ?thesis by blast
next
  case Ready
  from k_pause [OF assms(1) this] show ?thesis by blast
next
  case Awake
  from k_lock [OF assms(1) this] assms(3) show ?thesis by blast
next
  case Reading
  from k_copy [OF assms(1) this] show ?thesis by blast
next
  case (Copied split)
  from k_compare [OF assms(1) this] show ?thesis by blast
qed (use assms(2) in simp_all)

section \<open>Properties\<close>

text \<open>
  C38: No deadlock: in a state that a run of either program reaches and from which no step is possible, the
  producer has sent all its messages, nobody holds the lock, and each consumer has ended, or waits for a
  signal and has none pending.
\<close>

theorem no_deadlock:
  assumes "ring_run locked data_num buf consumer g s" and "0 < data_num" and "0 < buf" and "data_num \<le> 10 ^ 10"
    and "\<nexists>t. ring_step locked data_num buf g s t"
  shows "ppc s = Write \<and> p_n s = data_num \<and> \<not> r_lock s \<and>
    (\<forall>i < consumer. kpc (consumers s ! i) \<in> {Finished, Killed, Pausing} \<and> pending (consumers s ! i) = None)"
proof -
  have sent: "sent_all data_num s" using producer_progress [OF assms(1-4)] assms(5) by blast
  have len: "length (consumers s) = consumer" using run_shape [OF assms(1-3)] by (simp add: shape_ok_def)
  have no_k: "\<not> k_step locked data_num buf g i s t" for i t using assms(5) ring_step_k by blast
  have free: "\<not> r_lock s"
  proof
    assume "r_lock s"
    with run_owned [OF assms(1)] sent obtain i where "reader s i" by (auto simp: lock_owned_def storing_def sent_all_def)
    then show False using no_k k_copy unfolding reader_def by blast
  qed
  have "kpc (consumers s ! i) \<in> {Finished, Killed, Pausing} \<and> pending (consumers s ! i) = None" if "i < consumer" for i
  proof
    have i: "i < length (consumers s)" using that len by simp
    show "pending (consumers s ! i) = None"
    proof (cases "pending (consumers s ! i)")
      case (Some v)
      from k_deliver [OF i this] no_k show ?thesis by blast
    qed
    show "kpc (consumers s ! i) \<in> {Finished, Killed, Pausing}"
      using k_enabled [OF i, of locked data_num buf g] no_k free by blast
  qed
  with sent free show ?thesis by (simp add: sent_all_def)
qed

text \<open>
  Whatever has happened, the producer can still send all its messages, with the lock or without: nobody
  ever keeps the lock for good.
\<close>

theorem producer_completes:
  assumes "ring_run locked data_num buf consumer g s" and "0 < data_num" and "0 < buf" and "data_num \<le> 10 ^ 10"
  shows "\<exists>t. (ring_step locked data_num buf g)\<^sup>*\<^sup>* s t \<and> ppc t = Write \<and> p_n t = data_num"
  using producer_reaches [OF assms(2-4,1)] by (simp add: sent_all_def)


lemma merged_stops: "\<not> ring_step True 2 1 0 (merged cnt sl) t"
  by (auto simp: ring_step_def merged_def elim!: p_step.cases k_step.cases)

theorem no_deadlock_witness:
  "\<exists>cnt sl. \<not> r_lock (merged cnt sl) \<and> kpc (consumers (merged cnt sl) ! 0) = Pausing \<and>
     ring_run True 2 1 1 0 (merged cnt sl)"
proof -
  obtain cnt sl where run: "ring_run True 2 1 1 0 (merged cnt sl)" using merged_run by blast
  from no_deadlock [OF run] merged_stops have "\<not> r_lock (merged cnt sl)" by auto
  then show ?thesis using run by (auto simp: merged_def)
qed

theorem producer_completes_witness:
  "\<exists>t. (ring_step True 3 2 0)\<^sup>*\<^sup>* (start_ring 2 4) t \<and> ppc t = Write \<and> p_n t = 3"
  using producer_completes [OF run_start [of True 3 2 4 0]] by simp

end
