(* ===== verification/RingEnd.thy ===== *)
theory RingEnd
  imports RingFail RingLive RingMain
begin

text \<open>
  The whole of \<open>main\<close> of the two ring programs of \<open>src/SP_HW10\<close>: behind its messages the producer waits for
  its consumers one after the other (\<open>waitpid\<close>), then reads the counter, prints the report and removes the
  shared memory.  Consumers go on while it waits, with all the failures of \<open>RingFail\<close>.

  The lemmas show that the report tells the final count of consumers that have all ended, is never a
  division by zero, and does not come when a consumer has missed a signal.
\<close>

section \<open>The end of the producer\<close>

record ring_main =
  run_of :: full_ring
  waited :: nat
  reported :: "string res option"

definition start_main :: "nat \<Rightarrow> nat \<Rightarrow> ring_main" where
  "start_main buf consumer = \<lparr>run_of = start_full buf consumer, waited = 0, reported = None\<rparr>"

definition ended :: "nat \<Rightarrow> full_ring \<Rightarrow> bool" where
  "ended i s \<longleftrightarrow> gone s i \<or> kpc (consumers (base s) ! i) \<in> {Finished, Killed}"

text \<open>The producer is behind its loop: it has forked all consumers and sent all messages.\<close>

definition loop_over :: "nat \<Rightarrow> full_ring \<Rightarrow> bool" where
  "loop_over data_num s \<longleftrightarrow> \<not> stopped s \<and> forked s = length (consumers (base s)) \<and> sent_all data_num (base s)"

definition report_of :: "bool \<Rightarrow> (rat option \<Rightarrow> string) \<Rightarrow> nat \<Rightarrow> nat \<Rightarrow> int \<Rightarrow> string res" where
  "report_of locked show_loss data_num consumer p =
     (if locked then report_enhanced data_num consumer p else report_program show_loss data_num consumer p)"

inductive main_step :: "bool \<Rightarrow> (rat option \<Rightarrow> string) \<Rightarrow> nat \<Rightarrow> nat \<Rightarrow> int \<Rightarrow> ring_main \<Rightarrow> ring_main \<Rightarrow> bool"
  for locked show_loss data_num buf g where
  e_ring: "reported s = None \<Longrightarrow> full_step locked data_num buf g (run_of s) f \<Longrightarrow>
     main_step locked show_loss data_num buf g s (s\<lparr>run_of := f\<rparr>)"
| e_waitpid: "reported s = None \<Longrightarrow> loop_over data_num (run_of s) \<Longrightarrow>
     waited s < length (consumers (base (run_of s))) \<Longrightarrow> ended (waited s) (run_of s) \<Longrightarrow>
     main_step locked show_loss data_num buf g s (s\<lparr>waited := Suc (waited s)\<rparr>)"
| e_report: "reported s = None \<Longrightarrow> loop_over data_num (run_of s) \<Longrightarrow>
     waited s = length (consumers (base (run_of s))) \<Longrightarrow>
     main_step locked show_loss data_num buf g s
       (s\<lparr>reported := Some (report_of locked show_loss data_num (length (consumers (base (run_of s))))
            (sint (r_count (base (run_of s))))),
          run_of := (run_of s)\<lparr>named := False\<rparr>\<rparr>)"

inductive main_run :: "bool \<Rightarrow> (rat option \<Rightarrow> string) \<Rightarrow> nat \<Rightarrow> nat \<Rightarrow> nat \<Rightarrow> int \<Rightarrow> ring_main \<Rightarrow> bool"
  for locked show_loss data_num buf consumer g where
  main_start: "main_run locked show_loss data_num buf consumer g (start_main buf consumer)"
| main_more: "main_run locked show_loss data_num buf consumer g s \<Longrightarrow> main_step locked show_loss data_num buf g s t \<Longrightarrow>
     main_run locked show_loss data_num buf consumer g t"

section \<open>Who has ended\<close>

lemma full_consumers:
  "full_step locked d buf g s t \<Longrightarrow> length (consumers (base t)) = length (consumers (base s))"
  by (cases rule: full_step.cases) (auto elim: p_step.cases k_step.cases)

lemma ended_k:
  assumes "k_step locked d buf g j b b'" and "kpc (consumers b ! i) \<in> {Finished, Killed}"
  shows "kpc (consumers b' ! i) \<in> {Finished, Killed}"
  using assms by (cases rule: k_step.cases) (auto simp: capture_signal_def nth_list_update split: if_splits)

lemma ended_step: "full_step locked d buf g s t \<Longrightarrow> ended i s \<Longrightarrow> ended i t"
proof (induction rule: full_step.induct)
  case (f_produce s b)
  then show ?case using outside_p [of locked d buf "base s" b i] by (auto simp: ended_def)
next
  case (f_consume j s b)
  then show ?case using ended_k [of locked d buf g j "base s" b i] by (auto simp: ended_def)
qed (auto simp: ended_def)

text \<open>What holds of every run: the ring inside is one of \<open>RingFail\<close>, and who has been waited for has ended.\<close>

definition main_ok :: "bool \<Rightarrow> (rat option \<Rightarrow> string) \<Rightarrow> nat \<Rightarrow> nat \<Rightarrow> nat \<Rightarrow> int \<Rightarrow> ring_main \<Rightarrow> bool" where
  "main_ok locked show_loss d buf c g s \<longleftrightarrow>
     (\<exists>f. full_run locked d buf c g f \<and> base (run_of s) = base f \<and> gone (run_of s) = gone f \<and>
        (reported s = None \<longrightarrow> run_of s = f) \<and> (reported s \<noteq> None \<longrightarrow> loop_over d f)) \<and>
     length (consumers (base (run_of s))) = c \<and> waited s \<le> c \<and> (\<forall>i < waited s. ended i (run_of s)) \<and>
     (\<forall>r. reported s = Some r \<longrightarrow> waited s = c \<and> r = report_of locked show_loss d c (sint (r_count (base (run_of s)))))"

lemma main_ok_step:
  assumes "main_step locked show_loss d buf g s t" and "main_ok locked show_loss d buf c g s"
  shows "main_ok locked show_loss d buf c g t"
  using assms(1)
proof cases
  case (e_ring f)
  then have "full_run locked d buf c g f"
    using assms(2) by (auto simp: main_ok_def intro: full_more)
  with e_ring assms(2) show ?thesis
    by (auto simp: main_ok_def full_consumers dest: ended_step)
next
  case e_waitpid
  then show ?thesis using assms(2) by (auto simp: main_ok_def less_Suc_eq)
next
  case e_report
  then show ?thesis using assms(2) by (auto simp: main_ok_def ended_def)
qed

lemma main_ok_run: "main_run locked show_loss d buf c g s \<Longrightarrow> main_ok locked show_loss d buf c g s"
proof (induction rule: main_run.induct)
  case main_start
  have "full_run locked d buf c g (start_full buf c)" by (rule full_start)
  then show ?case by (auto simp: main_ok_def start_main_def start_full_def start_ring_def)
qed (auto intro: main_ok_step)

text \<open>Without messages nobody is woken.\<close>

lemma no_messages:
  assumes "full_run locked 0 buf c g s"
  shows "ppc (base s) = Write \<and> p_n (base s) = 0 \<and>
    (\<forall>i < length (consumers (base s)). \<not> gone s i \<and> kpc (consumers (base s) ! i) \<in> {Starting, Ready, Pausing} \<and>
       pending (consumers (base s) ! i) = None)"
  using assms
proof (induction rule: full_run.induct)
  case full_start
  then show ?case by (simp add: start_full_def start_ring_def start_consumer_def)
next
  case (full_more s t)
  from full_more.hyps(2) full_more.IH show ?case
  proof (cases rule: full_step.cases)
    case (f_produce b)
    then show ?thesis using full_more.IH by (auto elim: p_step.cases)
  next
    case (f_consume i b)
    from this(4) full_more.IH f_consume(1) show ?thesis
      by (cases rule: k_step.cases) (auto simp: nth_list_update)
  qed auto
qed

section \<open>Properties\<close>

lemma report_defined:
  assumes "0 < d" and "0 < c"
  shows "if int (d * c) \<le> INT_MAX then \<exists>out. report_of locked show_loss d c p = Inr out
    else report_of locked show_loss d c p = Inl Arithmetic"
  using assms
  by (simp add: report_of_def report_enhanced_def report_program_def loss_enhanced_def int_result_def INT_MIN_def
      del: of_nat_mult)

text \<open>
  C26: what the producer reports: all consumers have ended and the report is made of the final count; without
  messages, where the enhanced program would divide by zero, there is no report.  When the number of messages
  times that of consumers is an \<open>int\<close>, the count is at most this product and the arithmetic of the report is
  defined; when it is not, both programs multiply out of range.
\<close>
theorem report_is_final:
  assumes "main_run locked show_loss data_num buf consumer g s" and "reported s = Some r"
    and "0 < consumer" and "0 < buf"
  shows "0 < data_num \<and> (\<forall>i < consumer. ended i (run_of s)) \<and>
    r = report_of locked show_loss data_num consumer (sint (r_count (base (run_of s)))) \<and>
    (if int (data_num * consumer) \<le> INT_MAX
     then 0 \<le> sint (r_count (base (run_of s))) \<and> sint (r_count (base (run_of s))) \<le> int (data_num * consumer) \<and>
       (\<exists>out. r = Inr out)
     else r = Inl Arithmetic)"
proof -
  obtain f where f: "full_run locked data_num buf consumer g f" "base (run_of s) = base f" "gone (run_of s) = gone f"
    using main_ok_run [OF assms(1)] by (auto simp: main_ok_def)
  have ok: "length (consumers (base f)) = consumer" "\<forall>i < consumer. ended i (run_of s)"
      "r = report_of locked show_loss data_num consumer (sint (r_count (base f)))"
    using main_ok_run [OF assms(1)] assms(2) f by (auto simp: main_ok_def)
  have pos: "0 < data_num"
  proof (rule ccontr)
    assume "\<not> 0 < data_num"
    with no_messages [of locked buf consumer g f] f(1) ok(1) assms(3)
    have "\<not> ended 0 (run_of s)" by (auto simp: ended_def f(2,3))
    with ok(2) assms(3) show False by blast
  qed
  have count: "0 \<le> sint (r_count (base f)) \<and> sint (r_count (base f)) \<le> int (data_num * consumer)"
    if "int (data_num * consumer) \<le> INT_MAX"
  proof -
    from counter_bound [OF full_base [OF f(1)] pos assms(4) that] obtain n where
      n: "n \<le> data_num * consumer" "sint (r_count (base f)) = int n" by blast
    have "int n \<le> int (data_num * consumer)" using n(1) by (simp only: of_nat_le_iff)
    with n(2) show ?thesis by simp
  qed
  show ?thesis
  proof (cases "int (data_num * consumer) \<le> INT_MAX")
    case True
    with pos ok(2,3) report_defined [OF pos assms(3), of locked show_loss "sint (r_count (base f))"] count [OF True]
    show ?thesis by (simp add: f(2) del: of_nat_mult)
  next
    case False
    with pos ok(2,3) report_defined [OF pos assms(3), of locked show_loss "sint (r_count (base f))"]
    show ?thesis by (simp add: f(2) del: of_nat_mult)
  qed
qed

lemma stuck_full:
  assumes "full_step locked d buf g s t" and "stuck d i (base s)" and "\<not> gone s i"
  shows "stuck d i (base t) \<and> \<not> gone t i"
  using assms(1)
proof (cases rule: full_step.cases)
  case (f_produce b)
  then show ?thesis using stuck_step [OF assms(2) ring_step_p] assms(3) by auto
next
  case (f_consume j b)
  then show ?thesis using stuck_step [OF assms(2) ring_step_k] assms(3) by auto
qed (use assms(2,3) in \<open>auto simp: stuck_def\<close>)

definition held_up :: "nat \<Rightarrow> nat \<Rightarrow> ring_main \<Rightarrow> bool" where
  "held_up d i s \<longleftrightarrow> stuck d i (base (run_of s)) \<and> \<not> gone (run_of s) i \<and> reported s = None \<and> waited s \<le> i"

lemma held_up_step:
  assumes "main_step locked show_loss d buf g s t" and "held_up d i s"
  shows "held_up d i t"
  using assms(1)
proof cases
  case (e_ring f)
  then show ?thesis using stuck_full [of locked d buf g "run_of s" f i] assms(2) by (simp add: held_up_def)
next
  case e_waitpid
  then have "waited s \<noteq> i" using assms(2) by (auto simp: held_up_def ended_def stuck_def)
  then show ?thesis using e_waitpid assms(2) by (simp add: held_up_def)
next
  case e_report
  then show ?thesis using assms(2) by (auto simp: held_up_def stuck_def)
qed

lemma held_up_steps: "(main_step locked show_loss d buf g)\<^sup>*\<^sup>* s t \<Longrightarrow> held_up d i s \<Longrightarrow> held_up d i t"
  by (induction rule: rtranclp_induct) (auto intro: held_up_step)

text \<open>
  C27: when a consumer has missed a signal, waits, and none is pending when everything has been sent, the
  producer waits for it for ever: there is never a report.
\<close>
theorem missed_signal_no_report:
  assumes "main_run locked show_loss data_num buf consumer g s" and "stuck data_num i (base (run_of s))"
    and "\<not> gone (run_of s) i" and "(main_step locked show_loss data_num buf g)\<^sup>*\<^sup>* s t"
  shows "reported t = None"
proof -
  note ok = main_ok_run [OF assms(1), unfolded main_ok_def]
  have not_ended: "\<not> ended i (run_of s)" using assms(2,3) by (simp add: ended_def stuck_def)
  then have "waited s \<le> i" using ok by (meson not_le)
  moreover have "i < length (consumers (base (run_of s)))" using assms(2) by (simp add: stuck_def)
  ultimately have "held_up data_num i s" using ok assms(2,3) by (cases "reported s") (auto simp: held_up_def)
  from held_up_steps [OF assms(4) this] show ?thesis by (simp add: held_up_def)
qed

lemma full_main:
  "full_run locked d buf c g f \<Longrightarrow> main_run locked show_loss d buf c g \<lparr>run_of = f, waited = 0, reported = None\<rparr>"
proof (induction rule: full_run.induct)
  case full_start
  show ?case using main_start by (simp add: start_main_def)
next
  case (full_more s t)
  from main_more [OF full_more.IH e_ring] full_more.hyps(2) show ?case by simp
qed

text \<open>The run of \<open>RingFail\<close> in which one of two consumers comes too late ends with a report.\<close>
lemma report_is_final_witness:
  "\<exists>s out. main_run True (\<lambda>_. []) 1 1 2 0 s \<and> reported s = Some (Inr out) \<and> ended 1 (run_of s) \<and>
    sint (r_count (base (run_of s))) \<le> 2"
proof -
  obtain sl cnt out where run: "full_run True 1 1 2 0
     \<lparr>base = two (Signal 2) 0 sl False cnt Finished None 1 Awake None, forked = 2, stopped = False, gone = (\<lambda>_. False),
      attached = (\<lambda>_. False)(0 := True), named = False, said = [Printed (Consumer 0) out]\<rparr>"
    using shut_out_run by blast
  let ?f = "\<lambda>go ss. \<lparr>base = two Write 1 sl False cnt Finished None 1 Awake None, forked = 2, stopped = False, gone = go,
      attached = (\<lambda>_. False)(0 := True), named = False, said = ss\<rparr>"
  let ?go = "(\<lambda>_. False)(1 := True)"
  from full_more [OF run f_produce [OF _ _ p_next]]
  have "full_run True 1 1 2 0 (?f (\<lambda>_. False) [Printed (Consumer 0) out])" by (simp add: two_def next_ptr_def)
  from full_more [OF this f_attach_fails [where i = 1 and m = "''shm_open''"]]
  have "full_run True 1 1 2 0 (?f ?go [Printed (Consumer 0) out, Complaint (Consumer 1) ''shm_open''])"
    by (simp add: two_def)
  from full_main [OF this, of "\<lambda>_. []"]
  have "main_run True (\<lambda>_. []) 1 1 2 0
    \<lparr>run_of = ?f ?go [Printed (Consumer 0) out, Complaint (Consumer 1) ''shm_open''], waited = 0, reported = None\<rparr>" .
  from main_more [OF this e_waitpid] have "main_run True (\<lambda>_. []) 1 1 2 0
    \<lparr>run_of = ?f ?go [Printed (Consumer 0) out, Complaint (Consumer 1) ''shm_open''], waited = 1, reported = None\<rparr>"
    by (simp add: loop_over_def sent_all_def two_def ended_def)
  from main_more [OF this e_waitpid] have "main_run True (\<lambda>_. []) 1 1 2 0
    \<lparr>run_of = ?f ?go [Printed (Consumer 0) out, Complaint (Consumer 1) ''shm_open''], waited = 2, reported = None\<rparr>"
    by (simp add: loop_over_def sent_all_def two_def ended_def numeral_2_eq_2)
  from main_more [OF this e_report]
  obtain s r where s: "main_run True (\<lambda>_. []) 1 1 2 0 s" "reported s = Some r"
    by (simp add: loop_over_def sent_all_def two_def)
  from report_is_final [OF s] s show ?thesis by (auto simp: INT_MAX_def)
qed

lemma missed_signal_no_report_witness:
  "\<exists>s. main_run False (\<lambda>_. []) 0 1 1 0 s \<and> loop_over 0 (run_of s) \<and> reported s = None"
proof -
  let ?f = "\<lambda>n pc. \<lparr>base = (start_ring 1 1)\<lparr>consumers := [start_consumer\<lparr>kpc := pc\<rparr>]\<rparr>, forked = n, stopped = False,
      gone = (\<lambda>_. False), attached = (\<lambda>_. False), named = True, said = []\<rparr>"
  have "full_run False 0 1 1 0 (?f 0 Starting)"
    using full_start [of False 0 1 1 0] by (simp add: start_full_def start_ring_def start_consumer_def)
  from full_more [OF this f_fork] have "full_run False 0 1 1 0 (?f 1 Starting)" by simp
  from full_more [OF this f_consume [OF _ _ k_install [of 0]]] have "full_run False 0 1 1 0 (?f 1 Ready)"
    by (simp add: prints_def finishes_def)
  from full_more [OF this f_consume [OF _ _ k_pause [of 0]]] have "full_run False 0 1 1 0 (?f 1 Pausing)"
    by (simp add: prints_def finishes_def)
  from full_main [OF this, of "\<lambda>_. []"]
  have run: "main_run False (\<lambda>_. []) 0 1 1 0 \<lparr>run_of = ?f 1 Pausing, waited = 0, reported = None\<rparr>" .
  from missed_signal_no_report [OF run, of 0] run show ?thesis
    by (auto simp: stuck_def start_ring_def start_consumer_def loop_over_def sent_all_def)
qed

end
