(* ===== verification/SigPing.thy ===== *)
theory SigPing
  imports GetNum ErrorFunctions
begin

text \<open>
  The two signal benchmarks of \<open>src/SP_HW7/SP_HW7-1\<close>, \<open>sig_speed_sigsuspend.c\<close> and
  \<open>sig_speed_sigwaitinfo.c\<close>: parent and child send each other SIGUSR1 in turn, which both keep blocked
  but while they wait for it.  The programs differ in the call they wait with; either takes the pending
  signal, so both are the step relation \<open>duel_step\<close>.  The two calls, signals from other processes and a
  \<open>kill\<close> that fails are in \<open>SigSpeed\<close>.

  The locale \<open>clocked\<close> is the contract of a machine that has one run: the state at every time is given
  by a function.
\<close>

section \<open>Set-up\<close>

record sig_calls =
  sa_ok :: bool
  mask_ok :: bool
  fork_ok7 :: bool
  sig_errno :: int

text \<open>How \<open>main\<close> gets to the exchange: a report, a complaint about the number, or the number of signals.\<close>

datatype sig_start = Ends_with "ef_state \<times> ef_end" | Bad_number string int | Plays int

definition sig_main :: "ef_env \<Rightarrow> sig_calls \<Rightarrow> string list \<Rightarrow> ef_state \<Rightarrow> sig_start res" where
  "sig_main env calls argv s =
     (let report = (\<lambda>name. bindE (errExit env name [] (s\<lparr>cur_errno := sig_errno calls\<rparr>)) (\<lambda>r. Inr (Ends_with r)))
      in if length argv \<noteq> 2 \<or> argv ! 1 = ''--help'' then
           bindE (usageErr (''%s num-sigs'' @ [NL]) [AStr (argv ! 0)] s) (\<lambda>r. Inr (Ends_with r))
         else case getInt (Some (argv ! 1)) GN_GT_0 (Some ''num-sigs'') of
           Inl e \<Rightarrow> Inr (Bad_number e 1)
         | Inr numSigs \<Rightarrow>
             if \<not> sa_ok calls then report ''sigaction''
             else if \<not> mask_ok calls then report ''sigprocmask''
             else if \<not> fork_ok7 calls then report ''fork''
             else Inr (Plays numSigs))"

section \<open>The exchange\<close>

datatype player = Kill nat | Wait nat | Over

record duel =
  child :: player
  parent :: player
  child_pending :: bool
  parent_pending :: bool

text \<open>The loops \<open>for (int scnt = 0; scnt < numSigs; scnt++)\<close>: the child starts with \<open>kill\<close>, the parent waits.\<close>

definition child_loop :: "nat \<Rightarrow> nat \<Rightarrow> player" where
  "child_loop n scnt = (if scnt < n then Kill scnt else Over)"

definition parent_loop :: "nat \<Rightarrow> nat \<Rightarrow> player" where
  "parent_loop n scnt = (if scnt < n then Wait scnt else Over)"

definition start_duel :: "nat \<Rightarrow> duel" where
  "start_duel n = \<lparr>child = child_loop n 0, parent = parent_loop n 0, child_pending = False, parent_pending = False\<rparr>"

inductive duel_step :: "nat \<Rightarrow> duel \<Rightarrow> duel \<Rightarrow> bool" for n where
  child_kill: "child s = Kill k \<Longrightarrow> duel_step n s (s\<lparr>parent_pending := True, child := Wait k\<rparr>)"
| child_wait: "child s = Wait k \<Longrightarrow> child_pending s \<Longrightarrow>
     duel_step n s (s\<lparr>child_pending := False, child := child_loop n (Suc k)\<rparr>)"
| parent_wait: "parent s = Wait k \<Longrightarrow> parent_pending s \<Longrightarrow>
     duel_step n s (s\<lparr>parent_pending := False, parent := Kill k\<rparr>)"
| parent_kill: "parent s = Kill k \<Longrightarrow>
     duel_step n s (s\<lparr>child_pending := True, parent := parent_loop n (Suc k)\<rparr>)"

section \<open>Machines with one run\<close>

locale clocked =
  fixes step :: "'s \<Rightarrow> 's \<Rightarrow> bool" and at :: "nat \<Rightarrow> 's" and len :: nat
  assumes advance: "m < len \<Longrightarrow> step (at m) t \<longleftrightarrow> t = at (Suc m)"
    and halt: "\<not> step (at len) t"
begin

lemma runs: "(step ^^ m) (at 0) s \<longleftrightarrow> m \<le> len \<and> s = at m"
proof (induction m arbitrary: s)
  case (Suc m)
  show ?case
  proof
    assume "(step ^^ Suc m) (at 0) s"
    then have "(step ^^ m OO step) (at 0) s" by simp
    then obtain r where "(step ^^ m) (at 0) r" "step r s" by blast
    with Suc have "m \<le> len" "step (at m) s" by auto
    then show "Suc m \<le> len \<and> s = at (Suc m)" using advance halt by (cases "m = len") auto
  next
    assume "Suc m \<le> len \<and> s = at (Suc m)"
    then have "(step ^^ m) (at 0) (at m)" "step (at m) s" using Suc advance by auto
    then have "(step ^^ m OO step) (at 0) s" by blast
    then show "(step ^^ Suc m) (at 0) s" by simp
  qed
qed auto

end

text \<open>The state after \<open>m\<close> steps: four for every round.\<close>

definition duel_at :: "nat \<Rightarrow> nat \<Rightarrow> duel" where
  "duel_at n m =
     (let k = m div 4 in
      if n \<le> k then \<lparr>child = Over, parent = Over, child_pending = False, parent_pending = False\<rparr>
      else if m mod 4 = 0 then \<lparr>child = Kill k, parent = Wait k, child_pending = False, parent_pending = False\<rparr>
      else if m mod 4 = 1 then \<lparr>child = Wait k, parent = Wait k, child_pending = False, parent_pending = True\<rparr>
      else if m mod 4 = 2 then \<lparr>child = Wait k, parent = Kill k, child_pending = False, parent_pending = False\<rparr>
      else \<lparr>child = Wait k, parent = parent_loop n (Suc k), child_pending = True, parent_pending = False\<rparr>)"

lemma duel_at_simps:
  "duel_at n (4 * k) = (if n \<le> k then \<lparr>child = Over, parent = Over, child_pending = False, parent_pending = False\<rparr>
     else \<lparr>child = Kill k, parent = Wait k, child_pending = False, parent_pending = False\<rparr>)"
  "k < n \<Longrightarrow> duel_at n (4 * k + 1) = \<lparr>child = Wait k, parent = Wait k, child_pending = False, parent_pending = True\<rparr>"
  "k < n \<Longrightarrow> duel_at n (4 * k + 2) = \<lparr>child = Wait k, parent = Kill k, child_pending = False, parent_pending = False\<rparr>"
  "k < n \<Longrightarrow> duel_at n (4 * k + 3) =
     \<lparr>child = Wait k, parent = parent_loop n (Suc k), child_pending = True, parent_pending = False\<rparr>"
proof -
  have q: "(4 * k + 1) div 4 = k" "(4 * k + 1) mod 4 = 1" "(4 * k + 2) div 4 = k" "(4 * k + 2) mod 4 = 2"
      "(4 * k + 3) div 4 = k" "(4 * k + 3) mod 4 = 3" for k :: nat by presburger+
  show "k < n \<Longrightarrow> duel_at n (4 * k + 1) = \<lparr>child = Wait k, parent = Wait k, child_pending = False, parent_pending = True\<rparr>"
    "k < n \<Longrightarrow> duel_at n (4 * k + 2) = \<lparr>child = Wait k, parent = Kill k, child_pending = False, parent_pending = False\<rparr>"
    "k < n \<Longrightarrow> duel_at n (4 * k + 3) =
       \<lparr>child = Wait k, parent = parent_loop n (Suc k), child_pending = True, parent_pending = False\<rparr>"
    unfolding duel_at_def Let_def q by simp_all
qed (simp add: duel_at_def Let_def)

inductive_simps duel_step_iff: "duel_step n s t"

lemma quarters:
  fixes m :: nat
  assumes "m < 4 * n"
  obtains k r where "k < n" "r < 4" "m = 4 * k + r"
proof
  show "m div 4 < n" using assms by (simp add: less_mult_imp_div_less mult.commute)
  show "m mod 4 < 4" "m = 4 * (m div 4) + m mod 4" by simp_all
qed

lemma duel_advance: "m < 4 * n \<Longrightarrow> duel_step n (duel_at n m) t \<longleftrightarrow> t = duel_at n (Suc m)"
proof -
  assume "m < 4 * n"
  then obtain k r where k: "k < n" "r < 4" "m = 4 * k + r" by (rule quarters)
  have s: "Suc (4 * k + 3) = 4 * Suc k" "Suc (4 * k) = 4 * k + 1" "Suc (4 * k + 1) = 4 * k + 2"
      "Suc (4 * k + 2) = 4 * k + 3" by simp_all
  from k(2) consider "r = 0" | "r = 1" | "r = 2" | "r = 3" by linarith
  then show ?thesis
  proof cases
    case 1
    then have "Suc m = 4 * k + 1" "duel_at n m = duel_at n (4 * k)" "\<not> n \<le> k" using k by simp_all
    then show ?thesis using k(1) by (simp only: duel_at_simps if_False) (auto simp: duel_step_iff)
  next
    case 2
    then have "Suc m = 4 * k + 2" "duel_at n m = duel_at n (4 * k + 1)" using k by simp_all
    then show ?thesis using k(1) by (simp only: duel_at_simps) (auto simp: duel_step_iff)
  next
    case 3
    then have "Suc m = 4 * k + 3" "duel_at n m = duel_at n (4 * k + 2)" using k by simp_all
    then show ?thesis using k(1) by (simp only: duel_at_simps) (auto simp: duel_step_iff)
  next
    case 4
    then have "Suc m = 4 * Suc k" "duel_at n m = duel_at n (4 * k + 3)" using k by simp_all
    then show ?thesis using k(1)
      by (simp only: duel_at_simps) (auto simp: duel_step_iff parent_loop_def child_loop_def)
  qed
qed

interpretation duel: clocked "duel_step n" "duel_at n" "4 * n" for n
proof
  show "m < 4 * n \<Longrightarrow> duel_step n (duel_at n m) t \<longleftrightarrow> t = duel_at n (Suc m)" for m t by (rule duel_advance)
  show "\<not> duel_step n (duel_at n (4 * n)) t" for t by (simp add: duel_at_simps(1) duel_step_iff)
qed

lemma duel_at_0: "duel_at n 0 = start_duel n"
  using duel_at_simps(1) [of n 0] by (simp add: start_duel_def child_loop_def parent_loop_def)

section \<open>Properties\<close>

text \<open>
  The exchange has exactly one run: for every number of steps up to four for each signal there is one
  state, and there is none after that; the run ends with both loops at their end and no signal pending.
\<close>

theorem duel_runs:
  "(duel_step n ^^ m) (start_duel n) s \<longleftrightarrow> m \<le> 4 * n \<and> s = duel_at n m"
  using duel.runs [where n = n and m = m and s = s] by (simp add: duel_at_0)

lemma sent_awaited:
  assumes "(duel_step n)\<^sup>*\<^sup>* (start_duel n) s"
  shows "(child s = Kill k \<longrightarrow> \<not> parent_pending s \<and> parent s = Wait k) \<and>
    (parent s = Kill k \<longrightarrow> \<not> child_pending s \<and> child s = Wait k)"
proof -
  obtain m where m: "m \<le> 4 * n" "s = duel_at n m"
    using assms duel.runs [where n = n and s = s] by (auto simp: rtranclp_power duel_at_0)
  show ?thesis unfolding m(2) by (auto simp: duel_at_def Let_def parent_loop_def)
qed

text \<open>
  No signal is lost: whenever a process sends one, none is pending at the other, and the other waits or
  is about to wait for it.
\<close>

theorem no_signal_lost:
  assumes "(duel_step n)\<^sup>*\<^sup>* (start_duel n) s"
  shows "(\<forall>k. child s = Kill k \<longrightarrow> \<not> parent_pending s \<and> parent s = Wait k) \<and>
    (\<forall>k. parent s = Kill k \<longrightarrow> \<not> child_pending s \<and> child s = Wait k)"
  using sent_awaited [OF assms] by blast

theorem no_signal_lost_witness:
  "parent (duel_at 5 6) = Kill 1 \<and> \<not> child_pending (duel_at 5 6) \<and> child (duel_at 5 6) = Wait 1"
proof -
  have sent: "parent (duel_at 5 6) = Kill 1" by (simp add: duel_at_def Let_def parent_loop_def)
  have "(duel_step 5 ^^ 6) (start_duel 5) (duel_at 5 6)"
    using duel.runs [where n = 5 and m = 6 and s = "duel_at 5 6"] by (simp add: duel_at_0)
  then have "(duel_step 5)\<^sup>*\<^sup>* (start_duel 5) (duel_at 5 6)" by (rule relpowp_imp_rtranclp)
  from no_signal_lost [OF this] sent show ?thesis by blast
qed

text \<open>
  main plays the exchange for exactly the arguments getInt accepts as positive numbers, when the calls
  that set it up succeed.
\<close>

theorem sig_main_plays:
  "sig_main env calls [prog, arg] s = Inr (Plays n) \<longleftrightarrow>
    arg \<noteq> ''--help'' \<and> getInt (Some arg) GN_GT_0 (Some ''num-sigs'') = Inr n \<and>
    sa_ok calls \<and> mask_ok calls \<and> fork_ok7 calls"
  by (auto simp: sig_main_def Let_def bindE_Inr_iff split: sum.splits)

end
