(* ===== verification/SystemV.thy ===== *)
theory SystemV
  imports CLib
begin

text \<open>
  The System V signal interface of \<open>src/SP_HW7/SP_HW7-2\<close>: \<open>system_v.c\<close>, written over one static
  \<open>struct sigaction\<close>, and its two test programs \<open>example.c\<close> and \<open>main.c\<close>.  The state is that
  structure together with what the kernel keeps of the process: the dispositions and the set of
  blocked signals.

  What System V promises of hold and release is the locale \<open>signal_holder\<close>; the kernel's own block and
  unblock keep it, \<open>my_sighold\<close> and \<open>my_sigrelse\<close> do not (\<open>sigrelse_releases_others\<close>).
\<close>

section \<open>Kernel\<close>

datatype disposition = SIG_DFL | SIG_IGN | SIG_HOLD | SIG_ERR | Handler string

datatype sa_flag = SA_RESETHAND | SA_NODEFER | SA_RESTART

record sigact =
  sa_handler :: disposition
  sa_mask :: "nat set"
  sa_flags :: "sa_flag set"

record process =
  sa :: sigact
  disp :: "nat \<Rightarrow> sigact"
  blocked :: "nat set"

definition SIGINT :: nat where "SIGINT = 2"

definition SIGKILL :: nat where "SIGKILL = 9"

definition SIGSTOP :: nat where "SIGSTOP = 19"

definition valid_signal :: "nat \<Rightarrow> bool" where
  "valid_signal sig \<longleftrightarrow> 1 \<le> sig \<and> sig \<le> 64"

definition sigaddset :: "nat set \<Rightarrow> nat \<Rightarrow> nat set" where
  "sigaddset m sig = (if valid_signal sig then insert sig m else m)"

definition sigdelset :: "nat set \<Rightarrow> nat \<Rightarrow> nat set" where
  "sigdelset m sig = m - {sig}"

definition sigaction :: "nat \<Rightarrow> sigact \<Rightarrow> process \<Rightarrow> int \<times> process" where
  "sigaction sig act p =
     (if valid_signal sig \<and> sig \<noteq> SIGKILL \<and> sig \<noteq> SIGSTOP
      then (0, p\<lparr>disp := (disp p)(sig := act)\<rparr>) else (- 1, p))"

text \<open>SIGKILL and SIGSTOP cannot be blocked, without an error.\<close>

definition sig_block :: "nat set \<Rightarrow> process \<Rightarrow> process" where
  "sig_block m p = p\<lparr>blocked := blocked p \<union> (m - {SIGKILL, SIGSTOP})\<rparr>"

definition sig_unblock :: "nat set \<Rightarrow> process \<Rightarrow> process" where
  "sig_unblock m p = p\<lparr>blocked := blocked p - m\<rparr>"

section \<open>The interface\<close>

definition my_sigignore :: "nat \<Rightarrow> process \<Rightarrow> int \<times> process" where
  "my_sigignore sig p =
     (let p1 = p\<lparr>sa := (sa p)\<lparr>sa_handler := SIG_IGN\<rparr>\<rparr> in sigaction sig (sa p1) p1)"

text \<open>The first two branches end without a value.\<close>

definition my_sigset :: "nat \<Rightarrow> disposition \<Rightarrow> process \<Rightarrow> disposition res \<times> process" where
  "my_sigset sig handler p =
     (if handler = SIG_HOLD then
        (Inl Uninitialised, p\<lparr>sa := (sa p)\<lparr>sa_mask := sigaddset (sa_mask (sa p)) sig\<rparr>\<rparr>)
      else if handler = SIG_IGN then (Inl Uninitialised, snd (my_sigignore sig p))
      else
        (let act = \<lparr>sa_handler = handler, sa_mask = {},
               sa_flags = (if handler = SIG_DFL then {SA_RESETHAND, SA_NODEFER} else {SA_RESTART})\<rparr>;
             (r, p') = sigaction sig act (p\<lparr>sa := act\<rparr>)
         in (Inr (if r < 0 then SIG_ERR else SIG_HOLD), p')))"

definition my_sighold :: "nat \<Rightarrow> process \<Rightarrow> int \<times> process" where
  "my_sighold sig p =
     (let p1 = p\<lparr>sa := (sa p)\<lparr>sa_mask := sigaddset (sa_mask (sa p)) sig\<rparr>\<rparr>
      in (0, sig_block (sa_mask (sa p1)) p1))"

definition my_sigrelse :: "nat \<Rightarrow> process \<Rightarrow> int \<times> process" where
  "my_sigrelse sig p =
     (let p1 = p\<lparr>sa := (sa p)\<lparr>sa_mask := sigdelset (sa_mask (sa p)) sig\<rparr>\<rparr>
      in (0, sig_unblock (sa_mask (sa p1)) p1))"

text \<open>
  \<open>sigsuspend\<close> waits with the mask of the structure and puts the old one back: the state while it waits,
  and the state behind it.
\<close>

definition my_sigpause :: "nat \<Rightarrow> process \<Rightarrow> process \<times> process" where
  "my_sigpause sig p =
     (let p1 = snd (my_sigrelse sig p)
      in (p1\<lparr>blocked := sa_mask (sa p1) - {SIGKILL, SIGSTOP}\<rparr>, p1))"

definition fresh_process :: process where
  "fresh_process = (let a = \<lparr>sa_handler = SIG_DFL, sa_mask = {}, sa_flags = {}\<rparr>
     in \<lparr>sa = a, disp = (\<lambda>_. a), blocked = {}\<rparr>)"

section \<open>The test programs\<close>

text \<open>\<open>example.c\<close>: the state before the sleep, while it waits, and behind.\<close>

definition hold_and_pause :: "process \<Rightarrow> process \<times> process \<times> process" where
  "hold_and_pause p = (let p1 = snd (my_sighold SIGINT p) in (p1, my_sigpause SIGINT p1))"

text \<open>
  \<open>main.c\<close>: the handler with its counter, and the loop on the lines \<open>fgets\<close> returns (\<open>None\<close> at the end
  of the input) and the interrupts between them; what is printed, and the status if the program ends.
\<close>

datatype test_event = Line "string option" | Interrupt

definition sig_interrupt :: "nat \<Rightarrow> nat \<times> string \<times> int option" where
  "sig_interrupt counter =
     (let c = counter + 1 in
      (c, ''SIGINT caught!'' @ [NL] @ (if c = 3 then ''OK 3 SIGINTs, I give up'' @ [NL] else []),
       if c = 3 then Some 3 else None))"

fun test_loop :: "nat \<Rightarrow> test_event list \<Rightarrow> string \<times> int option" where
  "test_loop counter [] = ([], None)"
| "test_loop counter (Interrupt # es) =
     (case sig_interrupt counter of (c, out, end_status) \<Rightarrow>
        (case end_status of
           Some n \<Rightarrow> (out, Some n)
         | None \<Rightarrow> (case test_loop c es of (out', e) \<Rightarrow> (out @ out', e))))"
| "test_loop counter (Line l # es) =
     (let typed = (case l of None \<Rightarrow> [] | Some s \<Rightarrow> if s = [] then [] else ''You typed '' @ s);
          (out', e) = test_loop counter es
      in (typed @ ''Type something: '' @ out', e))"

definition test_main :: "process \<Rightarrow> test_event list \<Rightarrow> process \<times> string \<times> int option" where
  "test_main p es =
     (let p' = snd (my_sigset SIGINT (Handler ''sig_interrupt'') p); (out, e) = test_loop 0 es
      in (p', ''Type something: '' @ out, e))"

section \<open>The contract of hold and release\<close>

definition catchable :: "nat \<Rightarrow> bool" where
  "catchable sig \<longleftrightarrow> valid_signal sig \<and> sig \<noteq> SIGKILL \<and> sig \<noteq> SIGSTOP"

locale signal_holder =
  fixes hold :: "nat \<Rightarrow> 'p \<Rightarrow> 'p" and relse :: "nat \<Rightarrow> 'p \<Rightarrow> 'p" and held :: "'p \<Rightarrow> nat set"
  assumes hold: "catchable sig \<Longrightarrow> held (hold sig p) = insert sig (held p)"
    and relse: "held (relse sig p) = held p - {sig}"
begin

lemma hold_relse: "catchable sig \<Longrightarrow> held (relse sig (hold sig p)) = held p - {sig}"
  by (simp add: hold relse)

lemma hold_relse_other: "catchable sig \<Longrightarrow> t \<noteq> sig \<Longrightarrow> t \<in> held (relse sig (hold sig p)) \<longleftrightarrow> t \<in> held p"
  by (simp add: hold_relse)

end

interpretation kernel: signal_holder "\<lambda>sig. sig_block {sig}" "\<lambda>sig. sig_unblock {sig}" blocked
  by unfold_locales (auto simp: sig_block_def sig_unblock_def catchable_def)

lemma blocked_sigrelse: "blocked (snd (my_sigrelse sig p)) = blocked p - (sa_mask (sa p) - {sig})"
  by (simp add: my_sigrelse_def sig_unblock_def sigdelset_def Let_def)

lemma blocked_sighold:
  "valid_signal sig \<Longrightarrow>
   blocked (snd (my_sighold sig p)) = blocked p \<union> (insert sig (sa_mask (sa p)) - {SIGKILL, SIGSTOP}) \<and>
   sa_mask (sa (snd (my_sighold sig p))) = insert sig (sa_mask (sa p))"
  by (auto simp: my_sighold_def sig_block_def sigaddset_def Let_def)

section \<open>Properties\<close>

text \<open>
  C31: Against the contract, a signal that is held and then released stays blocked, and the release unblocks
  every other signal the structure holds.
\<close>

theorem sigrelse_releases_others:
  assumes "catchable sig"
  shows "blocked (snd (my_sigrelse sig (snd (my_sighold sig p)))) =
    insert sig (blocked p - (sa_mask (sa p) - {sig}))"
  using assms blocked_sighold [of sig p] by (auto simp: blocked_sigrelse catchable_def SIGKILL_def SIGSTOP_def)

theorem sigrelse_releases_others_witness:
  "blocked (snd (my_sigrelse SIGINT (snd (my_sighold SIGINT (snd (my_sighold 15 fresh_process)))))) = {SIGINT}"
  using sigrelse_releases_others [of SIGINT "snd (my_sighold 15 fresh_process)"]
  by (simp add: catchable_def valid_signal_def SIGINT_def SIGKILL_def SIGSTOP_def my_sighold_def
      sig_block_def sigaddset_def fresh_process_def Let_def insert_Diff_if)

text \<open>
  The pause lets its signal in while it waits, and behind it the signal is blocked exactly if it was
  before.
\<close>

theorem sigpause_admits:
  "sig \<notin> blocked (fst (my_sigpause sig p)) \<and>
   (sig \<in> blocked (snd (my_sigpause sig p)) \<longleftrightarrow> sig \<in> blocked p)"
  using blocked_sigrelse [of sig p]
  by (simp add: my_sigpause_def my_sigrelse_def sigdelset_def sig_unblock_def Let_def)

text \<open>
  my_sigset with SIG_HOLD neither blocks the signal nor returns a value, and with a handler it returns
  SIG_HOLD for success, whatever the signal did before.
\<close>

theorem sigset_results:
  "blocked (snd (my_sigset sig h p)) = blocked p \<and>
   fst (my_sigset sig h p) =
     (if h = SIG_HOLD \<or> h = SIG_IGN then Inl Uninitialised
      else if catchable sig then Inr SIG_HOLD else Inr SIG_ERR)"
  by (simp add: my_sigset_def my_sigignore_def sigaction_def catchable_def Let_def)

text \<open>
  The test program ends with status 3 at the third interrupt, whatever lines come between, and never
  without it.
\<close>

definition interrupts :: "test_event list \<Rightarrow> nat" where
  "interrupts es = length (filter (\<lambda>e. e = Interrupt) es)"

lemma test_loop_status:
  "c < 3 \<Longrightarrow> snd (test_loop c es) = (if 3 \<le> c + interrupts es then Some 3 else None)"
proof (induction c es rule: test_loop.induct)
  case (2 c es)
  show ?case
  proof (cases "c = 2")
    case True
    then show ?thesis by (simp add: sig_interrupt_def Let_def interrupts_def)
  next
    case False
    then have "snd (test_loop (Suc c) es) = (if 3 \<le> Suc c + interrupts es then Some 3 else None)"
      using 2 by (simp add: sig_interrupt_def Let_def)
    then show ?thesis using False by (cases "test_loop (Suc c) es") (simp add: sig_interrupt_def Let_def interrupts_def)
  qed
qed (auto simp: interrupts_def Let_def split: prod.split)

theorem third_interrupt_ends:
  "snd (snd (test_main p es)) = (if 3 \<le> interrupts es then Some 3 else None)"
  using test_loop_status [of 0 es] by (cases "test_loop 0 es") (simp add: test_main_def Let_def)

end
