(* ===== verification/SigSpeed.thy ===== *)
theory SigSpeed
  imports SigPing SystemV
begin

text \<open>
  The two programs of \<open>src/SP_HW7/SP_HW7-1\<close> with the call each waits with: \<open>sig_speed_sigsuspend.c\<close> waits under
  an empty mask, where a signal runs its handler or its default action, \<open>sig_speed_sigwaitinfo.c\<close> takes any
  signal of a full set.  Around them are the disturbances \<open>SigPing\<close> leaves out: signals from other processes
  and a \<open>kill\<close> that fails.  A run is a run under a condition on its events, so that the runs without
  disturbances are those of the same relation.

  The lemmas show that undisturbed runs of both programs are the same and refine the exchange of \<open>SigPing\<close>;
  that with signals from others but \<open>SIGUSR1\<close> itself \<open>sigsuspend\<close> keeps the exchange in step as long as both
  processes live; and that \<open>sigwaitinfo\<close> does not, since it takes any signal for that of the partner.

  Signals that are ignored or stop a process by default are not modelled.
\<close>

section \<open>Signals and waiting\<close>

definition TESTSIG :: nat where "TESTSIG = 10"

text \<open>Signals whose default action ends a process.\<close>

definition fatal :: "nat \<Rightarrow> bool" where
  "fatal sig \<longleftrightarrow> valid_signal sig \<and> sig \<notin> {17, 18, 19, 20, 21, 22, 23, 28}"

datatype wait_call = Sigsuspend | Sigwaitinfo

text \<open>The set both programs call \<open>emptyMask\<close>: empty in one, filled in the other.\<close>

definition emptyMask :: "wait_call \<Rightarrow> nat set" where
  "emptyMask call = (case call of Sigsuspend \<Rightarrow> {} | Sigwaitinfo \<Rightarrow> {sig. valid_signal sig})"

text \<open>
  Whether the call comes back with a pending signal.  \<open>sigsuspend\<close> does when the signal is not masked and has
  a handler, \<open>sigwaitinfo\<close> when it is in the set, but for the signals nobody can catch.
\<close>

definition comes_back :: "wait_call \<Rightarrow> nat \<Rightarrow> bool" where
  "comes_back call sig \<longleftrightarrow>
     (case call of
        Sigsuspend \<Rightarrow> sig \<notin> emptyMask call \<and> sig = TESTSIG
      | Sigwaitinfo \<Rightarrow> sig \<in> emptyMask call \<and> sig \<noteq> SIGKILL \<and> sig \<noteq> SIGSTOP)"

section \<open>Processes\<close>

datatype sig_pc = To_kill nat | To_wait nat | In_wait nat | Done | Failed | Dead nat

record speed_proc =
  spc :: sig_pc
  sigs :: "nat set"            \<comment> \<open>the pending signals\<close>

record speed =
  kid :: speed_proc
  dad :: speed_proc

definition alive :: "speed_proc \<Rightarrow> bool" where
  "alive p \<longleftrightarrow> spc p \<noteq> Done \<and> spc p \<noteq> Failed \<and> (\<forall>sig. spc p \<noteq> Dead sig)"

definition in_order :: "speed_proc \<Rightarrow> bool" where
  "in_order p \<longleftrightarrow> spc p \<noteq> Failed \<and> (\<forall>sig. spc p \<noteq> Dead sig)"

definition raised :: "nat \<Rightarrow> speed_proc \<Rightarrow> speed_proc" where
  "raised sig p = (if alive p then p\<lparr>sigs := insert sig (sigs p)\<rparr> else p)"

definition kid_loop :: "nat \<Rightarrow> nat \<Rightarrow> sig_pc" where
  "kid_loop n scnt = (if scnt < n then To_kill scnt else Done)"

definition dad_loop :: "nat \<Rightarrow> nat \<Rightarrow> sig_pc" where
  "dad_loop n scnt = (if scnt < n then To_wait scnt else Done)"

definition start_speed :: "nat \<Rightarrow> speed" where
  "start_speed n = \<lparr>kid = \<lparr>spc = kid_loop n 0, sigs = {}\<rparr>, dad = \<lparr>spc = dad_loop n 0, sigs = {}\<rparr>\<rparr>"

text \<open>
  What a process does by itself: it calls the waiting function, comes back to \<open>next k\<close>, and dies of a signal
  that is neither blocked, as \<open>TESTSIG\<close> is outside the call, nor caught.
\<close>

inductive proc_step :: "wait_call \<Rightarrow> (nat \<Rightarrow> sig_pc) \<Rightarrow> speed_proc \<Rightarrow> speed_proc \<Rightarrow> bool" for call "next" where
  enters: "spc p = To_wait k \<Longrightarrow> proc_step call next p (p\<lparr>spc := In_wait k\<rparr>)"
| returns: "spc p = In_wait k \<Longrightarrow> sig \<in> sigs p \<Longrightarrow> comes_back call sig \<Longrightarrow>
     proc_step call next p (p\<lparr>spc := next k, sigs := sigs p - {sig}\<rparr>)"
| dies_waiting: "spc p = In_wait k \<Longrightarrow> sig \<in> sigs p \<Longrightarrow> \<not> comes_back call sig \<Longrightarrow>
     proc_step call next p (p\<lparr>spc := Dead sig\<rparr>)"
| dies: "spc p = To_kill k \<or> spc p = To_wait k \<Longrightarrow> sig \<in> sigs p \<Longrightarrow> sig \<noteq> TESTSIG \<Longrightarrow>
     proc_step call next p (p\<lparr>spc := Dead sig\<rparr>)"

datatype sig_event = Own | Foreign nat | Kill_fails

text \<open>
  The child sends to \<open>getppid()\<close>, which is no longer the parent when that has ended; the parent sends to a child
  that stays a zombie when it has ended, as nobody waits for it.
\<close>

inductive speed_step :: "wait_call \<Rightarrow> nat \<Rightarrow> sig_event \<Rightarrow> speed \<Rightarrow> speed \<Rightarrow> bool" for call n where
  kid_kills: "spc (kid s) = To_kill k \<Longrightarrow>
     speed_step call n Own s (s\<lparr>kid := (kid s)\<lparr>spc := To_wait k\<rparr>, dad := raised TESTSIG (dad s)\<rparr>)"
| dad_kills: "spc (dad s) = To_kill k \<Longrightarrow>
     speed_step call n Own s (s\<lparr>dad := (dad s)\<lparr>spc := dad_loop n (Suc k)\<rparr>, kid := raised TESTSIG (kid s)\<rparr>)"
| kid_goes: "proc_step call (\<lambda>k. kid_loop n (Suc k)) (kid s) p \<Longrightarrow> speed_step call n Own s (s\<lparr>kid := p\<rparr>)"
| dad_goes: "proc_step call To_kill (dad s) p \<Longrightarrow> speed_step call n Own s (s\<lparr>dad := p\<rparr>)"
| kid_fails: "spc (kid s) = To_kill k \<Longrightarrow> speed_step call n Kill_fails s (s\<lparr>kid := (kid s)\<lparr>spc := Failed\<rparr>\<rparr>)"
| dad_fails: "spc (dad s) = To_kill k \<Longrightarrow> speed_step call n Kill_fails s (s\<lparr>dad := (dad s)\<lparr>spc := Failed\<rparr>\<rparr>)"
| to_kid: "fatal sig \<Longrightarrow> speed_step call n (Foreign sig) s (s\<lparr>kid := raised sig (kid s)\<rparr>)"
| to_dad: "fatal sig \<Longrightarrow> speed_step call n (Foreign sig) s (s\<lparr>dad := raised sig (dad s)\<rparr>)"

text \<open>The runs all of whose events keep a condition.\<close>

inductive speed_run :: "wait_call \<Rightarrow> nat \<Rightarrow> (sig_event \<Rightarrow> bool) \<Rightarrow> speed \<Rightarrow> bool" for call n ok where
  speed_init: "speed_run call n ok (start_speed n)"
| speed_more: "speed_run call n ok s \<Longrightarrow> speed_step call n e s t \<Longrightarrow> ok e \<Longrightarrow> speed_run call n ok t"

definition quiet :: "sig_event \<Rightarrow> bool" where
  "quiet e \<longleftrightarrow> e = Own"

text \<open>Anything but a TESTSIG from somebody else.\<close>

definition no_testsig :: "sig_event \<Rightarrow> bool" where
  "no_testsig e \<longleftrightarrow> e \<noteq> Foreign TESTSIG"

section \<open>The exchange without disturbances\<close>

lemma testsig_comes_back [simp]: "comes_back call TESTSIG"
  by (cases call) (simp_all add: comes_back_def emptyMask_def TESTSIG_def valid_signal_def SIGKILL_def SIGSTOP_def)

definition only_test :: "speed \<Rightarrow> bool" where
  "only_test s \<longleftrightarrow> sigs (kid s) \<subseteq> {TESTSIG} \<and> sigs (dad s) \<subseteq> {TESTSIG}"

lemma proc_call:
  assumes "proc_step call next p q" and "sigs p \<subseteq> {TESTSIG}"
  shows "proc_step call' next p q \<and> sigs q \<subseteq> {TESTSIG} \<and> (in_order p \<longrightarrow> in_order q \<or> (\<exists>k. spc q = next k))"
  using assms(1)
proof cases
  case (returns k sig)
  then have "sig = TESTSIG" using assms(2) by auto
  with returns assms(2) proc_step.returns [of p k sig call' "next"] show ?thesis by auto
qed (use assms(2) in \<open>auto simp: in_order_def intro: proc_step.intros\<close>)

lemma speed_call:
  assumes "speed_step call n Own s t" and "only_test s"
  shows "speed_step call' n Own s t \<and> only_test t"
  using assms(1)
proof cases
  case (kid_kills k)
  with speed_step.kid_kills [of s k call' n] assms(2) show ?thesis by (auto simp: only_test_def raised_def)
next
  case (dad_kills k)
  with speed_step.dad_kills [of s k call' n] assms(2) show ?thesis by (auto simp: only_test_def raised_def)
next
  case (kid_goes p)
  from kid_goes(2) have "proc_step call' (\<lambda>k. kid_loop n (Suc k)) (kid s) p \<and> sigs p \<subseteq> {TESTSIG}"
    using proc_call [of call _ "kid s" p call'] assms(2) by (auto simp: only_test_def)
  with kid_goes assms(2) show ?thesis by (auto simp: only_test_def intro: speed_step.kid_goes)
next
  case (dad_goes p)
  from dad_goes(2) have "proc_step call' To_kill (dad s) p \<and> sigs p \<subseteq> {TESTSIG}"
    using proc_call [of call _ "dad s" p call'] assms(2) by (auto simp: only_test_def)
  with dad_goes assms(2) show ?thesis by (auto simp: only_test_def intro: speed_step.dad_goes)
qed

lemma quiet_call: "speed_run call n quiet s \<Longrightarrow> speed_run call' n quiet s \<and> only_test s"
proof (induction rule: speed_run.induct)
  case speed_init
  show ?case using speed_run.speed_init [of call' n quiet] by (simp add: only_test_def start_speed_def)
next
  case (speed_more s e t)
  then show ?case using speed_call [of call n s t call']
    by (auto simp: quiet_def intro: speed_run.speed_more)
qed

section \<open>In step with the exchange\<close>

fun abs_pc :: "sig_pc \<Rightarrow> player" where
  "abs_pc (To_kill k) = Kill k"
| "abs_pc (To_wait k) = Wait k"
| "abs_pc (In_wait k) = Wait k"
| "abs_pc _ = Over"

definition abs_speed :: "speed \<Rightarrow> duel" where
  "abs_speed s = \<lparr>child = abs_pc (spc (kid s)), parent = abs_pc (spc (dad s)),
     child_pending = (TESTSIG \<in> sigs (kid s)), parent_pending = (TESTSIG \<in> sigs (dad s))\<rparr>"

lemma abs_loops [simp]: "abs_pc (kid_loop n k) = child_loop n k" "abs_pc (dad_loop n k) = parent_loop n k"
  by (simp_all add: kid_loop_def dad_loop_def child_loop_def parent_loop_def)

lemma abs_start: "abs_speed (start_speed n) = start_duel n"
  by (simp add: abs_speed_def start_speed_def start_duel_def)

lemma abs_waits: "abs_pc pc = Wait k \<Longrightarrow> pc = To_wait k \<or> pc = In_wait k"
  by (cases pc) auto

lemma waits_alive: "abs_pc (spc p) = Wait k \<Longrightarrow> alive p"
  by (auto simp: alive_def dest: abs_waits)

text \<open>No waiting process comes back with another signal than \<open>TESTSIG\<close>.\<close>

definition takes_test :: "wait_call \<Rightarrow> speed \<Rightarrow> bool" where
  "takes_test call s \<longleftrightarrow> (\<forall>sig \<in> sigs (kid s) \<union> sigs (dad s). comes_back call sig \<longrightarrow> sig = TESTSIG)"

definition both :: "speed \<Rightarrow> bool" where
  "both s \<longleftrightarrow> in_order (kid s) \<and> in_order (dad s)"

lemma proc_back: "proc_step call next p q \<Longrightarrow> in_order q \<Longrightarrow> in_order p"
  by (cases rule: proc_step.cases) (auto simp: in_order_def)

lemma both_back: "speed_step call n e s t \<Longrightarrow> both t \<Longrightarrow> both s"
proof (induction rule: speed_step.induct)
  case (kid_goes s p)
  then show ?case using proc_back by (auto simp: both_def)
next
  case (dad_goes s p)
  then show ?case using proc_back by (auto simp: both_def)
qed (auto simp: both_def in_order_def raised_def split: if_splits)

lemma step_abs:
  assumes "speed_step call n e s t" and "no_testsig e" and "takes_test call s" and "both t"
    and "(duel_step n)\<^sup>*\<^sup>* (start_duel n) (abs_speed s)"
  shows "abs_speed t = abs_speed s \<or> duel_step n (abs_speed s) (abs_speed t)"
  using assms(1)
proof cases
  case (kid_kills k)
  then have "abs_pc (spc (dad s)) = Wait k"
    using sent_awaited [OF assms(5), of k] by (simp add: abs_speed_def)
  with kid_kills show ?thesis
    by (simp add: abs_speed_def duel_step_iff raised_def waits_alive)
next
  case (dad_kills k)
  then have "abs_pc (spc (kid s)) = Wait k"
    using sent_awaited [OF assms(5), of k] by (simp add: abs_speed_def)
  with dad_kills show ?thesis
    by (simp add: abs_speed_def duel_step_iff raised_def waits_alive)
next
  case (kid_goes p)
  from kid_goes(3) show ?thesis
  proof cases
    case (returns k sig)
    with kid_goes assms(3) show ?thesis by (auto simp: abs_speed_def duel_step_iff takes_test_def)
  qed (use kid_goes assms(4) in \<open>auto simp: abs_speed_def both_def in_order_def\<close>)
next
  case (dad_goes p)
  from dad_goes(3) show ?thesis
  proof cases
    case (returns k sig)
    with dad_goes assms(3) show ?thesis by (auto simp: abs_speed_def duel_step_iff takes_test_def)
  qed (use dad_goes assms(4) in \<open>auto simp: abs_speed_def both_def in_order_def\<close>)
qed (use assms(2,4) in \<open>auto simp: abs_speed_def raised_def no_testsig_def both_def in_order_def\<close>)

lemma run_abs:
  assumes "speed_run call n ok s" and "\<forall>e. ok e \<longrightarrow> no_testsig e"
    and "\<And>s. speed_run call n ok s \<Longrightarrow> takes_test call s"
  shows "both s \<longrightarrow> (duel_step n)\<^sup>*\<^sup>* (start_duel n) (abs_speed s)"
  using assms(1)
proof (induction rule: speed_run.induct)
  case speed_init
  show ?case by (simp add: abs_start)
next
  case (speed_more s e t)
  show ?case
  proof
    assume t: "both t"
    then have s: "(duel_step n)\<^sup>*\<^sup>* (start_duel n) (abs_speed s)"
      using speed_more.IH both_back [OF speed_more.hyps(2)] by blast
    from step_abs [OF speed_more.hyps(2) _ assms(3) [OF speed_more.hyps(1)] t s] speed_more.hyps(3) assms(2) s
    show "(duel_step n)\<^sup>*\<^sup>* (start_duel n) (abs_speed t)" by (metis rtranclp.rtrancl_into_rtrancl)
  qed
qed

lemma suspend_takes: "takes_test Sigsuspend s"
  by (simp add: takes_test_def comes_back_def)

lemma quiet_takes: "speed_run call n quiet s \<Longrightarrow> takes_test call s"
  using quiet_call [of call n s call] by (auto simp: takes_test_def only_test_def)

lemma quiet_both: "speed_run call n quiet s \<Longrightarrow> both s"
proof (induction rule: speed_run.induct)
  case speed_init
  show ?case by (simp add: both_def start_speed_def in_order_def kid_loop_def dad_loop_def)
next
  case (speed_more s e t)
  have test: "only_test s" using quiet_call [OF speed_more.hyps(1)] by blast
  from speed_more.hyps(2) show ?case
  proof cases
    case (kid_goes p)
    have "sigs (kid s) \<subseteq> {TESTSIG}" using test by (simp add: only_test_def)
    with proc_call [OF kid_goes(3), of call] kid_goes speed_more.IH show ?thesis
      by (auto simp: only_test_def both_def in_order_def kid_loop_def split: if_splits)
  next
    case (dad_goes p)
    have "sigs (dad s) \<subseteq> {TESTSIG}" using test by (simp add: only_test_def)
    with proc_call [OF dad_goes(3), of call] dad_goes speed_more.IH show ?thesis
      by (auto simp: only_test_def both_def in_order_def)
  qed (use speed_more in \<open>auto simp: both_def in_order_def raised_def dad_loop_def quiet_def\<close>)
qed


lemma quiet_abs: "speed_run call n quiet s \<Longrightarrow> (duel_step n)\<^sup>*\<^sup>* (start_duel n) (abs_speed s)"
  using run_abs [of call n quiet s] quiet_takes quiet_both by (auto simp: quiet_def no_testsig_def)

section \<open>Progress\<close>

lemma duel_enabled:
  assumes "duel_step n (abs_speed s) d"
  shows "\<exists>t. speed_step call n Own s t"
proof -
  have waits: "\<exists>q. proc_step call next p q" if "abs_pc (spc p) = Wait k" "TESTSIG \<in> sigs p" for p k "next"
    using abs_waits [OF that(1)] that(2) proc_step.enters proc_step.returns testsig_comes_back by metis
  have kills: "abs_pc pc = Kill k \<Longrightarrow> pc = To_kill k" for pc k by (cases pc) auto
  from assms show ?thesis
  proof cases
    case (child_kill k)
    then show ?thesis using kills kid_kills by (simp add: abs_speed_def) blast
  next
    case (child_wait k)
    then show ?thesis using waits kid_goes by (simp add: abs_speed_def) blast
  next
    case (parent_wait k)
    then show ?thesis using waits dad_goes by (simp add: abs_speed_def) blast
  next
    case (parent_kill k)
    then show ?thesis using kills dad_kills by (simp add: abs_speed_def) blast
  qed
qed

text \<open>The steps that are left to a process: three for each round.\<close>

fun kid_left :: "nat \<Rightarrow> sig_pc \<Rightarrow> nat" where
  "kid_left n (To_kill k) = 3 * (n - k)"
| "kid_left n (To_wait k) = 3 * (n - k) - 1"
| "kid_left n (In_wait k) = 3 * (n - k) - 2"
| "kid_left n _ = 0"

fun dad_left :: "nat \<Rightarrow> sig_pc \<Rightarrow> nat" where
  "dad_left n (To_wait k) = 3 * (n - k)"
| "dad_left n (In_wait k) = 3 * (n - k) - 1"
| "dad_left n (To_kill k) = 3 * (n - k) - 2"
| "dad_left n _ = 0"

definition in_rounds :: "nat \<Rightarrow> speed_proc \<Rightarrow> bool" where
  "in_rounds n p \<longleftrightarrow> (\<forall>k. spc p = To_kill k \<or> spc p = To_wait k \<or> spc p = In_wait k \<longrightarrow> k < n)"

definition speed_left :: "nat \<Rightarrow> speed \<Rightarrow> nat" where
  "speed_left n s = kid_left n (spc (kid s)) + dad_left n (spc (dad s))"

lemma raised_spc [simp]: "spc (raised sig p) = spc p"
  by (simp add: raised_def)

lemma child_turn_less:
  "proc_step call (\<lambda>k. kid_loop n (Suc k)) p q \<Longrightarrow> in_rounds n p \<Longrightarrow>
    in_rounds n q \<and> kid_left n (spc q) < kid_left n (spc p)"
  by (cases rule: proc_step.cases) (auto simp: in_rounds_def kid_loop_def split: if_splits)

lemma father_turn_less:
  "proc_step call To_kill p q \<Longrightarrow> in_rounds n p \<Longrightarrow> in_rounds n q \<and> dad_left n (spc q) < dad_left n (spc p)"
  by (cases rule: proc_step.cases) (auto simp: in_rounds_def)

lemma speed_less:
  assumes "speed_step call n Own s t" and "in_rounds n (kid s)" and "in_rounds n (dad s)"
  shows "in_rounds n (kid t) \<and> in_rounds n (dad t) \<and> speed_left n t < speed_left n s"
  using assms(1)
proof cases
  case (kid_goes p)
  then show ?thesis using child_turn_less [OF kid_goes(2) assms(2)] assms(3) by (simp add: speed_left_def)
next
  case (dad_goes p)
  then show ?thesis using father_turn_less [OF dad_goes(2) assms(3)] assms(2) by (simp add: speed_left_def)
qed (use assms(2,3) in \<open>auto simp: in_rounds_def speed_left_def dad_loop_def\<close>)

lemma quiet_rounds: "speed_run call n quiet s \<Longrightarrow> in_rounds n (kid s) \<and> in_rounds n (dad s)"
proof (induction rule: speed_run.induct)
  case speed_init
  show ?case by (simp add: in_rounds_def start_speed_def kid_loop_def dad_loop_def)
next
  case (speed_more s e t)
  then show ?case using speed_less by (auto simp: quiet_def)
qed

lemma quiet_over:
  assumes "speed_run call n quiet s" and "\<nexists>t. speed_step call n Own s t"
  shows "spc (kid s) = Done \<and> spc (dad s) = Done"
proof -
  obtain m where m: "m \<le> 4 * n" "abs_speed s = duel_at n m"
    using quiet_abs [OF assms(1)] duel.runs [where n = n and s = "abs_speed s"]
    by (auto simp: rtranclp_power duel_at_0)
  have "m = 4 * n"
    using duel_advance [of m n "duel_at n (Suc m)"] duel_enabled [of n s _ call] assms(2) m by fastforce
  then have "abs_pc (spc (kid s)) = Over \<and> abs_pc (spc (dad s)) = Over"
    using m(2) duel_at_simps(1) [of n n] by (auto simp: abs_speed_def)
  with quiet_both [OF assms(1)] show ?thesis
    by (cases "spc (kid s)"; cases "spc (dad s)") (auto simp: both_def in_order_def)
qed


section \<open>Properties\<close>

text \<open>
  C40: without disturbances the two programs have the same runs.
\<close>
theorem speed_programs_agree:
  "speed_run Sigsuspend n quiet s \<longleftrightarrow> speed_run Sigwaitinfo n quiet s"
  using quiet_call by blast

text \<open>Their runs refine the exchange of \<open>SigPing\<close>.\<close>
theorem quiet_refines_duel:
  assumes "speed_run call n quiet s"
  shows "(duel_step n)\<^sup>*\<^sup>* (start_duel n) (abs_speed s)"
  by (rule quiet_abs [OF assms])

lemma quiet_reaches:
  "speed_run call n quiet s \<Longrightarrow> \<exists>t. (speed_step call n Own)\<^sup>*\<^sup>* s t \<and> spc (kid t) = Done \<and> spc (dad t) = Done"
proof (induction "speed_left n s" arbitrary: s rule: less_induct)
  case less
  show ?case
  proof (cases "\<exists>t. speed_step call n Own s t")
    case True
    then obtain t where t: "speed_step call n Own s t" by blast
    have run: "speed_run call n quiet t" using less.prems t by (auto simp: quiet_def intro: speed_more)
    have "speed_left n t < speed_left n s" using speed_less [OF t] quiet_rounds [OF less.prems] by blast
    from less.hyps [OF this run] t show ?thesis by (meson converse_rtranclp_into_rtranclp)
  next
    case False
    with quiet_over [OF less.prems] show ?thesis by blast
  qed
qed

text \<open>
  C29: without disturbances every run of either program ends, in the end of both loops: no state goes on for
  ever, each can go on to the end, and where it cannot go on it is the end.
\<close>
theorem quiet_ends:
  assumes "speed_run call n quiet s"
  shows "speed_left n s \<le> 6 * n \<and> (\<forall>t. speed_step call n Own s t \<longrightarrow> speed_left n t < speed_left n s) \<and>
    (\<exists>t. (speed_step call n Own)\<^sup>*\<^sup>* s t \<and> spc (kid t) = Done \<and> spc (dad t) = Done) \<and>
    ((\<nexists>t. speed_step call n Own s t) \<longrightarrow> spc (kid s) = Done \<and> spc (dad s) = Done)"
proof -
  have "kid_left n pc \<le> 3 * n \<and> dad_left n pc \<le> 3 * n" for pc by (cases pc) auto
  then have "speed_left n s \<le> 6 * n"
    using add_mono [of "kid_left n (spc (kid s))" "3 * n" "dad_left n (spc (dad s))" "3 * n"]
    by (simp add: speed_left_def)
  with speed_less [of call n s] quiet_rounds [OF assms] quiet_reaches [OF assms] quiet_over [OF assms]
  show ?thesis by blast
qed

lemma quiet_ends_witness:
  "\<exists>t. (speed_step Sigwaitinfo 5 Own)\<^sup>*\<^sup>* (start_speed 5) t \<and> spc (kid t) = Done \<and> spc (dad t) = Done"
  using quiet_ends [OF speed_init [of Sigwaitinfo 5 quiet]] by blast

text \<open>
  C35: as long as no other process sends \<open>SIGUSR1\<close>, with any other signals from other processes whose default
  action ends a process, and with failing calls of \<open>kill\<close>, the program that waits with \<open>sigsuspend\<close> stays in
  step: while both processes have not died or failed, their state is one of the undisturbed exchange, and
  whoever is about to send a signal finds the other waiting for it.
\<close>
theorem sigsuspend_in_step:
  assumes "speed_run Sigsuspend n no_testsig s" and "both s"
  shows "(duel_step n)\<^sup>*\<^sup>* (start_duel n) (abs_speed s) \<and>
    (\<forall>k. spc (kid s) = To_kill k \<longrightarrow> spc (dad s) = To_wait k \<or> spc (dad s) = In_wait k) \<and>
    (\<forall>k. spc (dad s) = To_kill k \<longrightarrow> spc (kid s) = To_wait k \<or> spc (kid s) = In_wait k)"
proof -
  have duel: "(duel_step n)\<^sup>*\<^sup>* (start_duel n) (abs_speed s)"
    using run_abs [OF assms(1)] assms(2) suspend_takes by blast
  then show ?thesis using sent_awaited [OF duel] abs_waits by (auto simp: abs_speed_def)
qed

text \<open>
  One \<open>SIGUSR1\<close> from outside is enough to bring it out of step: the parent takes it for the signal of the child
  and is about to send its own, while the child has not sent anything and waits for nothing.
\<close>
theorem foreign_testsig_breaks_step:
  "\<exists>s. speed_run Sigsuspend (Suc n) (\<lambda>e. e = Own \<or> e = Foreign TESTSIG) s \<and> both s \<and>
    spc (dad s) = To_kill 0 \<and> spc (kid s) = To_kill 0"
proof -
  let ?ok = "\<lambda>e. e = Own \<or> e = Foreign TESTSIG"
  let ?s = "\<lambda>pc ss. \<lparr>kid = \<lparr>spc = To_kill 0, sigs = {}\<rparr>, dad = \<lparr>spc = pc, sigs = ss\<rparr>\<rparr>"
  have fatal: "fatal TESTSIG" by (simp add: fatal_def valid_signal_def TESTSIG_def)
  have "speed_run Sigsuspend (Suc n) ?ok (?s (To_wait 0) {})"
    using speed_init [of Sigsuspend "Suc n" ?ok] by (simp add: start_speed_def kid_loop_def dad_loop_def)
  from speed_more [OF this dad_goes [OF enters [of _ 0]]]
  have "speed_run Sigsuspend (Suc n) ?ok (?s (In_wait 0) {})" by simp
  from speed_more [OF this to_dad [OF fatal]]
  have "speed_run Sigsuspend (Suc n) ?ok (?s (In_wait 0) {TESTSIG})" by (simp add: raised_def alive_def)
  from speed_more [OF this dad_goes [OF returns [of _ 0 TESTSIG]]]
  have "speed_run Sigsuspend (Suc n) ?ok (?s (To_kill 0) {})" by simp
  then show ?thesis by (intro exI [of _ "?s (To_kill 0) {}"]) (simp add: both_def in_order_def)
qed

text \<open>The parent after \<open>k\<close> rounds with signals of others, while the child has not run at all.\<close>

definition alone :: "nat \<Rightarrow> nat \<Rightarrow> speed" where
  "alone n k = \<lparr>kid = \<lparr>spc = To_kill 0, sigs = (if k = 0 then {} else {TESTSIG})\<rparr>,
     dad = \<lparr>spc = dad_loop n k, sigs = {}\<rparr>\<rparr>"

lemma alone_run: "k \<le> n \<Longrightarrow> 0 < n \<Longrightarrow> speed_run Sigwaitinfo n no_testsig (alone n k)"
proof (induction k)
  case 0
  then show ?case using speed_init [of Sigwaitinfo n no_testsig]
    by (simp add: alone_def start_speed_def kid_loop_def)
next
  case (Suc k)
  let ?d = "\<lambda>pc ss. (alone n k)\<lparr>dad := \<lparr>spc = pc, sigs = ss\<rparr>\<rparr>"
  have ok: "no_testsig Own" "no_testsig (Foreign SIGINT)"
    by (simp_all add: no_testsig_def SIGINT_def TESTSIG_def)
  have caught: "comes_back Sigwaitinfo SIGINT" "fatal SIGINT"
    by (simp_all add: comes_back_def emptyMask_def fatal_def valid_signal_def SIGINT_def SIGKILL_def SIGSTOP_def)
  have "speed_run Sigwaitinfo n no_testsig (?d (To_wait k) {})"
    using Suc by (simp add: alone_def dad_loop_def)
  from speed_more [OF this dad_goes [OF enters [of _ k]] ok(1)]
  have "speed_run Sigwaitinfo n no_testsig (?d (In_wait k) {})" by simp
  from speed_more [OF this to_dad [OF caught(2)] ok(2)]
  have "speed_run Sigwaitinfo n no_testsig (?d (In_wait k) {SIGINT})" by (simp add: raised_def alive_def)
  from speed_more [OF this dad_goes [OF returns [of _ k SIGINT]] ok(1)] caught(1)
  have "speed_run Sigwaitinfo n no_testsig (?d (To_kill k) {})" by simp
  from speed_more [OF this dad_kills [of _ k] ok(1)]
  show ?case by (cases k) (simp_all add: alone_def raised_def alive_def)
qed

text \<open>
  the program that waits with \<open>sigwaitinfo\<close> takes any signal for that of its partner: with signals of
  other processes the parent comes to the end of its loop while the child has not sent a single one.
\<close>
theorem sigwaitinfo_counts_any:
  "\<exists>s. speed_run Sigwaitinfo (Suc n) no_testsig s \<and> both s \<and> spc (dad s) = Done \<and> spc (kid s) = To_kill 0"
proof -
  have "both (alone (Suc n) (Suc n)) \<and> spc (dad (alone (Suc n) (Suc n))) = Done \<and>
      spc (kid (alone (Suc n) (Suc n))) = To_kill 0"
    by (simp add: alone_def both_def in_order_def dad_loop_def)
  with alone_run [of "Suc n" "Suc n"] show ?thesis by blast
qed

text \<open>A signal from outside while the parent waits: it is in step until it dies of it.\<close>

lemma sigsuspend_in_step_witness:
  "\<exists>s. speed_run Sigsuspend 3 no_testsig s \<and> sigs (dad s) = {SIGINT} \<and> spc (kid s) = To_kill 0 \<and>
    spc (dad s) = To_wait 0"
proof -
  let ?s = "(start_speed 3)\<lparr>dad := raised SIGINT (dad (start_speed 3))\<rparr>"
  have "speed_step Sigsuspend 3 (Foreign SIGINT) (start_speed 3) ?s"
    by (rule to_dad) (simp add: fatal_def valid_signal_def SIGINT_def)
  with speed_init have run: "speed_run Sigsuspend 3 no_testsig ?s"
    by (rule speed_more) (simp add: no_testsig_def SIGINT_def TESTSIG_def)
  have s: "spc (kid ?s) = To_kill 0" "sigs (dad ?s) = {SIGINT}" "both ?s" "spc (dad ?s) \<noteq> In_wait 0"
    by (simp_all add: start_speed_def kid_loop_def dad_loop_def raised_def alive_def both_def in_order_def)
  from sigsuspend_in_step [OF run s(3)] run s show ?thesis by blast
qed

end
