(* ===== verification/FileNotify.thy ===== *)
theory FileNotify
  imports CLib
begin

text \<open>
  The directory watcher \<open>src/SP_HW6/file_notify.c\<close>.  The kernel packs the events of a read one behind the
  other, each as long as its name needs; the program walks the buffer in steps of the longest event.  The
  buffer is kept at its bytes (32-bit little-endian fields), so what the walk finds follows from the
  layout.

  Parameters: \<open>walk k\<close>, the watch descriptors the \<open>k\<close>-th call of \<open>nftw\<close> gets for the files it visits
  (\<open>None\<close> when it fails, a negative descriptor when a watch cannot be added), and the bytes of every
  read.
\<close>

unbundle bit_operations_syntax

section \<open>Layout\<close>

fun le_bytes :: "nat \<Rightarrow> nat \<Rightarrow> char list" where
  "le_bytes 0 n = []"
| "le_bytes (Suc k) n = char_of n # le_bytes k (n div 256)"

fun of_le :: "char list \<Rightarrow> nat" where
  "of_le [] = 0"
| "of_le (c # cs) = of_char c + 256 * of_le cs"

lemma length_le_bytes [simp]: "length (le_bytes k n) = k"
  by (induction k arbitrary: n) auto

lemma of_le_bytes: "of_le (le_bytes k n) = n mod 256 ^ k"
proof (induction k arbitrary: n)
  case (Suc k)
  have "n mod (256 * 256 ^ k) = 256 * (n div 256 mod 256 ^ k) + n mod 256" by (rule mod_mult2_eq)
  then show ?case using Suc by simp
qed simp

definition EVENT_SIZE :: nat where "EVENT_SIZE = 16"

definition NAME_MAX :: nat where "NAME_MAX = 255"

definition BUF_LEN :: nat where "BUF_LEN = 10 * (EVENT_SIZE + NAME_MAX + 1)"

text \<open>An event of the kernel, and its bytes: the name with terminators up to a multiple of 16.\<close>

record inotify_event =
  ev_wd :: "32 word"
  ev_mask :: "32 word"
  ev_cookie :: "32 word"
  ev_name :: string

definition ev_len :: "inotify_event \<Rightarrow> nat" where
  "ev_len e = (if ev_name e = [] then 0 else 16 * (length (ev_name e) div 16 + 1))"

definition encode :: "inotify_event \<Rightarrow> char list" where
  "encode e = le_bytes 4 (unat (ev_wd e)) @ le_bytes 4 (unat (ev_mask e)) @
     le_bytes 4 (unat (ev_cookie e)) @ le_bytes 4 (ev_len e) @ pad (ev_len e) (ev_name e)"

section \<open>The program\<close>

text \<open>The names of the bits in the order they are tested, and whether the bit starts a new walk.\<close>

definition mask_names :: "(nat \<times> string \<times> bool) list" where
  "mask_names =
     [(0x1, ''ACCESS '', False), (0x4, ''ATTRIB '', False), (0x10, ''CLOSE_NOWRITE '', False),
      (0x8, ''CLOSE_WRITE '', False), (0x100, ''CREATE '' @ [NL], True), (0x200, ''DELETE '' @ [NL], True),
      (0x400, ''DELETE_SELF '', False), (0x8000, ''IGNORED '', False), (0x40000000, ''ISDIR '', False),
      (0x2, ''MODIFY '', False), (0x800, ''MOVE_SELF '', False), (0x40, ''MOVED_FROM '' @ [NL], True),
      (0x80, ''MOVED_TO '' @ [NL], True), (0x20, ''OPEN '', False), (0x4000, ''Q_OVERFLOW '', False),
      (0x2000, ''UNMOUNT '', False)]"

text \<open>A walk prints a line for each watch; it ends the program when a watch or \<open>nftw\<close> itself fails.\<close>

fun display_file_info :: "int list \<Rightarrow> string \<times> bool" where
  "display_file_info [] = ([], True)"
| "display_file_info (wd # wds) =
     (if wd < 0 then ([], False)
      else (case display_file_info wds of (out, ok) \<Rightarrow> (''Watching wd:'' @ dec_int wd @ [NL] @ out, ok)))"

definition rescan :: "(nat \<Rightarrow> int list option) \<Rightarrow> nat \<Rightarrow> string \<times> bool" where
  "rescan walk k = (case walk k of None \<Rightarrow> ([], False) | Some wds \<Rightarrow> display_file_info wds)"

text \<open>What is printed, the number of walks made, and whether the program goes on.\<close>

fun show_mask :: "(nat \<Rightarrow> int list option) \<Rightarrow> nat \<Rightarrow> 32 word \<Rightarrow> (nat \<times> string \<times> bool) list \<Rightarrow>
    string \<times> nat \<times> bool" where
  "show_mask walk k m [] = ([], k, True)"
| "show_mask walk k m ((b, name, scans) # bs) =
     (if m AND word_of_nat b = 0 then show_mask walk k m bs
      else if \<not> scans then (case show_mask walk k m bs of (out, k', ok) \<Rightarrow> (name @ out, k', ok))
      else (case rescan walk k of (lines, ok1) \<Rightarrow>
        if \<not> ok1 then (name @ lines, Suc k, False)
        else (case show_mask walk (Suc k) m bs of (out, k', ok) \<Rightarrow> (name @ lines @ out, k', ok))))"

definition show_event :: "(nat \<Rightarrow> int list option) \<Rightarrow> nat \<Rightarrow> 32 word \<Rightarrow> 32 word \<Rightarrow> 32 word \<Rightarrow> string \<Rightarrow>
    string \<times> nat \<times> bool" where
  "show_event walk k wd bits cookie name =
     (case show_mask walk k bits mask_names of (out, k', ok) \<Rightarrow>
        (''wd = '' @ dec_int (sint wd) @ ''  '' @
         (if cookie = 0 then [] else ''cookie = '' @ dec_int (sint cookie) @ ''  '') @
         ''name = '' @ name @ [NL] @ ''mask: '' @ out @ (if ok then [NL] else []), k', ok))"

definition field :: "char list \<Rightarrow> nat \<Rightarrow> 32 word" where
  "field b i = word_of_nat (of_le (take 4 (drop i b)))"

text \<open>\<open>display_all_event\<close> at an address in the buffer.\<close>

definition display_all_event :: "(nat \<Rightarrow> int list option) \<Rightarrow> nat \<Rightarrow> char list \<Rightarrow> nat \<Rightarrow>
    (string \<times> nat \<times> bool) res" where
  "display_all_event walk k buf off =
     (if 0 <s field buf off \<and> 0 < field buf (off + 12) then
        bindE (cstr (drop (off + 16) buf)) (\<lambda>name.
        Inr (show_event walk k (field buf off) (field buf (off + 4)) (field buf (off + 8)) name))
      else Inr ([], k, True))"

text \<open>The walk over the buffer, on the addresses it visits.\<close>

fun display_at :: "(nat \<Rightarrow> int list option) \<Rightarrow> nat \<Rightarrow> char list \<Rightarrow> nat list \<Rightarrow> (string \<times> nat \<times> bool) res" where
  "display_at walk k buf [] = Inr ([], k, True)"
| "display_at walk k buf (off # offs) =
     bindE (display_all_event walk k buf off) (\<lambda>(out, k', ok).
     if \<not> ok then Inr (out, k', False)
     else bindE (display_at walk k' buf offs) (\<lambda>(out', k'', ok'). Inr (out @ out', k'', ok')))"

definition addresses :: "nat list" where
  "addresses = map (\<lambda>i. i * (EVENT_SIZE + NAME_MAX + 1)) [0..<10]"

text \<open>
  The loop of \<open>main\<close>: the bytes of each read; nothing, or an error, ends the program.  The buffer is
  cleared after every round.
\<close>

fun notify_loop :: "(nat \<Rightarrow> int list option) \<Rightarrow> nat \<Rightarrow> char list list \<Rightarrow> (string \<times> int option) res" where
  "notify_loop walk k [] = Inr ([], None)"
| "notify_loop walk k (b # bs) =
     (if b = [] then Inr ([], Some 1)
      else
        bindE (display_at walk k (pad BUF_LEN (take BUF_LEN b)) addresses) (\<lambda>(out, k', ok).
        if \<not> ok then Inr (out, Some 1)
        else bindE (notify_loop walk k' bs) (\<lambda>(out', e). Inr (out @ out', e))))"

definition notify_main :: "(nat \<Rightarrow> int list option) \<Rightarrow> char list list \<Rightarrow> (string \<times> int option) res" where
  "notify_main walk bs =
     (case rescan walk 0 of (lines, ok) \<Rightarrow>
        if \<not> ok then Inr (lines, Some 1)
        else bindE (notify_loop walk 1 bs) (\<lambda>(out, e). Inr (lines @ out, e)))"

section \<open>Lemmas\<close>

definition kernel_event :: "inotify_event \<Rightarrow> bool" where
  "kernel_event e \<longleftrightarrow> 0 <s ev_wd e \<and> ev_name e \<noteq> [] \<and> nul_free (ev_name e) \<and> length (ev_name e) \<le> NAME_MAX"

lemma ev_len_bounds:
  assumes "kernel_event e"
  shows "length (ev_name e) < ev_len e \<and> ev_len e \<le> 256 \<and> 0 < ev_len e"
proof -
  have "length (ev_name e) mod 16 < 16" "length (ev_name e) = 16 * (length (ev_name e) div 16) + length (ev_name e) mod 16"
    by simp_all
  moreover have "length (ev_name e) div 16 \<le> 15"
    using assms div_le_mono [of "length (ev_name e)" 255 16] by (simp add: kernel_event_def NAME_MAX_def)
  ultimately show ?thesis using assms by (simp add: ev_len_def kernel_event_def)
qed

lemma length_encode: "kernel_event e \<Longrightarrow> length (encode e) = 16 + ev_len e"
  using ev_len_bounds [of e] by (simp add: encode_def)

lemma field_le: "w < 2 ^ 32 \<Longrightarrow> length pre = i \<Longrightarrow> field (pre @ le_bytes 4 w @ r) i = word_of_nat w"
  by (simp add: field_def of_le_bytes)

lemma encode_fields:
  assumes "kernel_event e"
  shows "field (encode e @ r) 0 = ev_wd e" and "field (encode e @ r) 4 = ev_mask e"
    and "field (encode e @ r) 8 = ev_cookie e" and "field (encode e @ r) 12 = word_of_nat (ev_len e)"
    and "cstr (drop 16 (encode e @ r)) = Inr (ev_name e)"
proof -
  let ?wd = "le_bytes 4 (unat (ev_wd e))" and ?mask = "le_bytes 4 (unat (ev_mask e))"
    and ?cookie = "le_bytes 4 (unat (ev_cookie e))" and ?len = "le_bytes 4 (ev_len e)"
    and ?name = "pad (ev_len e) (ev_name e)"
  have u: "unat w < 2 ^ 32" for w :: "32 word" using unsigned_less [of w] by simp
  have l: "ev_len e < 2 ^ 32" using ev_len_bounds [OF assms] by simp
  show "field (encode e @ r) 0 = ev_wd e"
    using field_le [OF u, of "[]" 0 "ev_wd e"] by (simp add: encode_def)
  show "field (encode e @ r) 4 = ev_mask e"
    using field_le [OF u, of ?wd 4 "ev_mask e"] by (simp add: encode_def)
  show "field (encode e @ r) 8 = ev_cookie e"
    using field_le [OF u, of "?wd @ ?mask" 8 "ev_cookie e"] by (simp add: encode_def)
  show "field (encode e @ r) 12 = word_of_nat (ev_len e)"
    using field_le [OF l, of "?wd @ ?mask @ ?cookie" 12] by (simp add: encode_def)
  have "?name = ev_name e @ NUL # replicate (ev_len e - Suc (length (ev_name e))) NUL"
    using ev_len_bounds [OF assms] by (intro pad_nul_split) simp
  then have "drop 16 (encode e @ r) = ev_name e @ NUL # (replicate (ev_len e - Suc (length (ev_name e))) NUL @ r)"
    by (simp add: encode_def)
  then show "cstr (drop 16 (encode e @ r)) = Inr (ev_name e)"
    using assms by (simp add: kernel_event_def)
qed

lemma display_encoded:
  assumes "kernel_event e"
  shows "display_all_event walk k (encode e @ r) 0 =
    Inr (show_event walk k (ev_wd e) (ev_mask e) (ev_cookie e) (ev_name e))"
proof -
  have "(0 :: 32 word) < word_of_nat (ev_len e)"
    using ev_len_bounds [OF assms] by (simp add: word_less_nat_alt unat_of_nat take_bit_eq_mod)
  then show ?thesis
    using encode_fields [OF assms, of r] assms by (simp add: display_all_event_def kernel_event_def)
qed

lemma display_zeros:
  assumes "drop off buf = zeros n" and "4 \<le> n"
  shows "display_all_event walk k buf off = Inr ([], k, True)"
proof -
  have "take 4 (zeros n) = [NUL, NUL, NUL, NUL]"
    using assms(2) by (simp add: zeros_def numeral_eq_Suc take_replicate min_def)
  then have "field buf off = 0" by (simp add: field_def assms(1))
  then show ?thesis by (simp add: display_all_event_def)
qed

lemma display_rest:
  "\<forall>off \<in> set offs. \<exists>n \<ge> 4. drop off buf = zeros n \<Longrightarrow> display_at walk k buf offs = Inr ([], k, True)"
proof (induction offs)
  case (Cons off offs)
  then obtain n where "4 \<le> n" "drop off buf = zeros n" by auto
  then show ?case using Cons by (simp add: display_zeros)
qed simp

section \<open>Properties\<close>

lemma first_event_only:
  assumes "kernel_event e" and "length (encode e @ later) \<le> 272"
  shows "display_at walk k (pad BUF_LEN (take BUF_LEN (encode e @ later))) addresses =
    (case show_event walk k (ev_wd e) (ev_mask e) (ev_cookie e) (ev_name e) of (out, k', ok) \<Rightarrow> Inr (out, k', ok))"
proof -
  let ?r = "encode e @ later"
  let ?buf = "encode e @ (later @ zeros (2720 - length ?r))"
  have buf: "pad BUF_LEN (take BUF_LEN ?r) = ?buf"
    using assms(2) by (simp add: BUF_LEN_def EVENT_SIZE_def NAME_MAX_def pad_def zeros_def)
  have first: "addresses = 0 # map (\<lambda>i. i * 272) [1..<10]"
    by (simp add: addresses_def EVENT_SIZE_def NAME_MAX_def upt_rec)
  have rest: "\<forall>off \<in> set (map (\<lambda>i. i * 272) [1..<10]). \<exists>n \<ge> 4. drop off ?buf = zeros n"
  proof
    fix off :: nat
    assume "off \<in> set (map (\<lambda>i. i * 272) [1..<10])"
    then obtain i :: nat where i: "off = i * 272" "1 \<le> i" "i < 10" by auto
    then have off: "length ?r \<le> off" "off \<le> 2448" using assms(2) by auto
    have "drop off (?r @ zeros (2720 - length ?r)) = zeros (2720 - off)"
      using off by (simp add: zeros_def)
    then have "drop off ?buf = zeros (2720 - off)" by simp
    then show "\<exists>n \<ge> 4. drop off ?buf = zeros n" using off(2) by (intro exI [of _ "2720 - off"]) simp
  qed
  show ?thesis
    unfolding buf first
    using display_encoded [OF assms(1), of walk k "later @ zeros (2720 - length ?r)"] display_rest [OF rest]
    by (simp split: prod.split)
qed

text \<open>
  A read whose events take at most 272 bytes together shows the first of them, as the kernel encoded it,
  and none of the others: the walk steps over them.
\<close>

theorem only_first_event_shown:
  assumes "kernel_event e" and "length (encode e @ concat (map encode es)) \<le> 272"
    and "show_event walk k (ev_wd e) (ev_mask e) (ev_cookie e) (ev_name e) = (out, k', True)"
  shows "notify_loop walk k ((encode e @ concat (map encode es)) # bs) =
    bindE (notify_loop walk k' bs) (\<lambda>(out', s). Inr (out @ out', s))"
proof -
  have "encode e \<noteq> []" using length_encode [OF assms(1)] by auto
  then show ?thesis using first_event_only [OF assms(1,2), of walk k] assms(3) by simp
qed

definition opened :: inotify_event where
  "opened = \<lparr>ev_wd = 1, ev_mask = 0x20, ev_cookie = 0, ev_name = ''a.txt''\<rparr>"

definition closed :: inotify_event where
  "closed = \<lparr>ev_wd = 1, ev_mask = 0x10, ev_cookie = 0, ev_name = ''a.txt''\<rparr>"

theorem only_first_event_shown_witness:
  "notify_loop (\<lambda>_. Some []) 0 [encode opened @ concat (map encode [closed])] =
    Inr (''wd = 1  name = a.txt'' @ [NL] @ ''mask: OPEN '' @ [NL], None)"
proof -
  have k: "kernel_event opened" "kernel_event closed"
    by (simp_all add: kernel_event_def opened_def closed_def NAME_MAX_def word_sless_alt)
  have "length (encode opened @ concat (map encode [closed])) \<le> 272"
    using length_encode [OF k(1)] length_encode [OF k(2)] by (simp add: ev_len_def opened_def closed_def)
  moreover have "show_event (\<lambda>_. Some []) 0 (ev_wd opened) (ev_mask opened) (ev_cookie opened) (ev_name opened) =
      (''wd = 1  name = a.txt'' @ [NL] @ ''mask: OPEN '' @ [NL], 0, True)"
    by (simp add: show_event_def opened_def mask_names_def dec_int_def dec_nat.simps [of "Suc 0"] digit_def
        char_of_def bit_0)
  ultimately show ?thesis using only_first_event_shown [OF k(1), of "[closed]" "\<lambda>_. Some []" 0 _ _ "[]"] by simp
qed

text \<open>
  Without a walk among its bits, an event makes no walk: the names of exactly its bits are printed, in
  the order of the tests.
\<close>

theorem plain_bits_named:
  assumes "\<forall>(b, name, scans) \<in> set mask_names. scans \<longrightarrow> m AND word_of_nat b = 0"
  shows "show_mask walk k m mask_names =
    (concat (map (\<lambda>(b, name, scans). name) (filter (\<lambda>(b, name, scans). m AND word_of_nat b \<noteq> 0) mask_names)), k, True)"
proof -
  have "show_mask walk k m bs =
      (concat (map (\<lambda>(b, name, scans). name) (filter (\<lambda>(b, name, scans). m AND word_of_nat b \<noteq> 0) bs)), k, True)"
    if "\<forall>(b, name, scans) \<in> set bs. scans \<longrightarrow> m AND word_of_nat b = 0" for bs
    using that by (induction bs) auto
  then show ?thesis using assms by blast
qed

theorem plain_bits_named_witness:
  "show_mask walk 0 0x40000021 mask_names = (''ACCESS ISDIR OPEN '', 0, True)"
  using plain_bits_named [of "0x40000021" walk 0] by (simp add: mask_names_def)

end
