(* ===== verification/ProcList.thy ===== *)
theory ProcList
  imports CLib
begin

text \<open>
  The process listings of \<open>src/SP_HW3\<close> that read \<open>/proc\<close>: \<open>hw3_part1.c\<close> (the processes of a user) and
  \<open>hw3_part3.c\<close> (the open files of every process).  The text of a \<open>status\<close> file and the walk over its lines
  are shared with the process tree of \<open>ProcTree\<close>.

  The file system is an argument: the names in \<open>/proc\<close>, the text behind the path of a \<open>status\<close> file, the
  names in a directory of descriptors and the target of a link; \<open>None\<close> stands for a call that fails.
  \<open>avail\<close> is how many files the process may still open.
\<close>

section \<open>Lines of a status file\<close>

abbreviation TAB :: char where "TAB \<equiv> CHR 0x09"

definition blanks :: string where "blanks = [CHR '' '', TAB, NL]"

text \<open>\<open>strcpy(buf, strtok(NULL, " \t\n"))\<close>\<close>

definition word_into :: "char list \<Rightarrow> string \<Rightarrow> char list res" where
  "word_into buf r = (case fst (strtok blanks r) of None \<Rightarrow> Inl NullDeref | Some w \<Rightarrow> strcpy buf w)"

text \<open>\<open>path\<close>: an array of 100 characters that begins as \<open>/proc/\<close>.\<close>

definition proc_path :: "string \<Rightarrow> string \<Rightarrow> char list res" where
  "proc_path d_name file = bindE (strcat (pad 100 ''/proc/'') d_name) (\<lambda>path. strcat path file)"

section \<open>The processes of a user\<close>

text \<open>
  The loop over the lines of one file: what is printed, and whether the file has been closed.
\<close>

function scan_user :: "32 word \<Rightarrow> char list \<Rightarrow> char list \<Rightarrow> stream \<Rightarrow> (string \<times> bool) res" where
  "scan_user pw_uid p_name pid f =
     (case getline f of
        (None, f') \<Rightarrow> Inr ([], False)
      | (Some buf, f') \<Rightarrow>
          (case strtok blanks (upto_nul buf) of
             (None, r) \<Rightarrow> Inl NullDeref
           | (Some key, r) \<Rightarrow>
               bindE (if key = ''Name:'' then word_into p_name r else Inr p_name) (\<lambda>p_name.
               bindE (if key = ''Pid:'' then word_into pid r else Inr pid) (\<lambda>pid.
               if key \<noteq> ''Uid:'' then scan_user pw_uid p_name pid f'
               else
                 (case fst (strtok blanks r) of
                    None \<Rightarrow> Inl NullDeref
                  | Some uid \<Rightarrow>
                      if word_of_int (atoi uid) = pw_uid then
                        bindE (cstr p_name) (\<lambda>n. bindE (cstr pid) (\<lambda>i.
                        bindE (scan_user pw_uid p_name pid f') (\<lambda>(out, closed).
                        Inr (''Name: '' @ n @ ''  Pid: '' @ i @ NL # out, closed))))
                      else Inr ([], True))))))"
  by pat_completeness auto

termination
  by (relation "measure (\<lambda>(_, _, _, f). length (stream.rest f))") (auto dest: getline_shorter [OF sym])

declare scan_user.simps [simp del]

fun list_user :: "(string \<Rightarrow> string option) \<Rightarrow> 32 word \<Rightarrow> nat \<Rightarrow> string list \<Rightarrow> string res" where
  "list_user files pw_uid avail [] = Inr []"
| "list_user files pw_uid avail (d # ds) =
     (if atoi d = 0 then list_user files pw_uid avail ds
      else
        bindE (proc_path d ''/status'') (\<lambda>b. bindE (cstr b) (\<lambda>path.
        case (if avail = 0 then None else files path) of
          None \<Rightarrow> Inr []
        | Some content \<Rightarrow>
            bindE (scan_user pw_uid (zeros 100) (zeros 50) (fopen_stream content)) (\<lambda>(out, closed).
            bindE (list_user files pw_uid (if closed then avail else avail - 1) ds) (\<lambda>out'.
            Inr (out @ out'))))))"

definition part1_main ::
    "(string \<Rightarrow> 32 word option) \<Rightarrow> string list option \<Rightarrow> (string \<Rightarrow> string option) \<Rightarrow> nat \<Rightarrow> string list \<Rightarrow> (int \<times> string) res" where
  "part1_main getpwnam dir files avail argv =
     (if length argv < 2 then Inl NullDeref
      else
        (case getpwnam (argv ! 1) of
           None \<Rightarrow> Inr (- 1, [])
         | Some u \<Rightarrow>
             (case dir of
                None \<Rightarrow> Inl NullDeref
              | Some ds \<Rightarrow> bindE (list_user files u avail ds) (\<lambda>out. Inr (0, out)))))"

section \<open>The open files of every process\<close>

text \<open>
  The loop over the descriptors of one process; the flag says that \<open>readlink\<close> has failed, after which the
  program returns.
\<close>

fun list_links :: "(string \<Rightarrow> string option) \<Rightarrow> char list \<Rightarrow> char list \<Rightarrow> string list \<Rightarrow> (string \<times> bool) res" where
  "list_links readlink path1 path [] = Inr ([], False)"
| "list_links readlink path1 path (d # ds) =
     bindE (cstr path1) (\<lambda>start.
     if atoi d = 0 then bindE (strcpy path start) (\<lambda>path. list_links readlink path1 path ds)
     else
       bindE (strcat path d) (\<lambda>path. bindE (cstr path) (\<lambda>link.
       case readlink link of
         None \<Rightarrow> Inr ([], True)
       | Some target \<Rightarrow>
           bindE (cstr (take 200 target @ zeros (200 - length target))) (\<lambda>buf.
           bindE (strcpy path start) (\<lambda>path.
           bindE (list_links readlink path1 path ds) (\<lambda>(out, failed).
           Inr (CHR '' '' # buf @ NL # out, failed)))))))"

fun list_files ::
    "(string \<Rightarrow> string list option) \<Rightarrow> (string \<Rightarrow> string option) \<Rightarrow> string list \<Rightarrow> string res" where
  "list_files opendir readlink [] = Inr []"
| "list_files opendir readlink (d # ds) =
     (if atoi d = 0 then list_files opendir readlink ds
      else
        bindE (proc_path d ''/fd'') (\<lambda>path. bindE (cstr path) (\<lambda>name.
        bindE (strcat path ''/'') (\<lambda>path. bindE (cstr path) (\<lambda>start.
        bindE (strcpy (zeros 100) start) (\<lambda>path1.
        case opendir name of
          None \<Rightarrow> Inl NullDeref
        | Some fds \<Rightarrow>
            bindE (list_links readlink path1 path fds) (\<lambda>(out, failed).
            bindE (if failed then Inr [] else list_files opendir readlink ds) (\<lambda>out'.
            Inr (''pid '' @ dec_int (atoi d) @ '':'' @ NL # out @ out')))))))))"

definition part3_main ::
    "string list option \<Rightarrow> (string \<Rightarrow> string list option) \<Rightarrow> (string \<Rightarrow> string option) \<Rightarrow> (int \<times> string) res" where
  "part3_main dir opendir readlink =
     (case dir of
        None \<Rightarrow> Inl NullDeref
      | Some ds \<Rightarrow> bindE (list_files opendir readlink ds) (\<lambda>out. Inr (0, out)))"

section \<open>The text of a status file\<close>

text \<open>A line: a key, a tabulator, the first word of the value and what follows the word.\<close>

record status_entry =
  e_key :: string
  e_word :: string
  e_tail :: string

definition entry_line :: "status_entry \<Rightarrow> string" where
  "entry_line e = e_key e @ TAB # e_word e @ e_tail e @ [NL]"

definition status_text :: "status_entry list \<Rightarrow> string" where
  "status_text es = concat (map entry_line es)"

definition no_blank :: "string \<Rightarrow> bool" where
  "no_blank s \<longleftrightarrow> (\<forall>c \<in> set s. c \<notin> set blanks \<and> c \<noteq> NUL)"

definition read_keys :: "string list" where
  "read_keys = [''Name:'', ''Pid:'', ''PPid:'', ''Uid:'']"

definition wf_entry :: "status_entry \<Rightarrow> bool" where
  "wf_entry e \<longleftrightarrow> e_key e \<noteq> [] \<and> no_blank (e_key e) \<and> no_blank (e_word e) \<and>
     NL \<notin> set (e_tail e) \<and> nul_free (e_tail e) \<and> (e_tail e = [] \<or> hd (e_tail e) \<in> set blanks) \<and>
     (e_key e \<in> set read_keys \<longrightarrow> e_word e \<noteq> [])"

lemma blanks_set [simp]: "set blanks = {CHR '' '', TAB, NL}"
  by (auto simp: blanks_def)

lemma no_blankD:
  assumes "no_blank s"
  shows "NL \<notin> set s" and "nul_free s" and "\<forall>c \<in> set s. c \<notin> set blanks"
  using assms unfolding no_blank_def nul_free_def blanks_def by auto

lemma wf_entryD:
  assumes "wf_entry e"
  shows "no_blank (e_key e)" and "no_blank (e_word e)" and "e_key e \<noteq> []"
    and "NL \<notin> set (e_tail e)" and "nul_free (e_tail e)"
    and "e_tail e @ [NL] = [] \<or> hd (e_tail e @ [NL]) \<in> set blanks"
  using assms by (simp_all add: wf_entry_def) (cases "e_tail e"; simp)

lemma entry_getline:
  assumes "wf_entry e"
  shows "getline \<lparr>rest = entry_line e @ r, ateof = a\<rparr> = (Some (entry_line e), \<lparr>rest = r, ateof = a\<rparr>)"
proof -
  have "NL \<notin> set (e_key e @ TAB # e_word e @ e_tail e)"
    using wf_entryD [OF assms] by (simp add: no_blankD)
  from getline_line [OF this, of "\<lparr>rest = entry_line e @ r, ateof = a\<rparr>" r] show ?thesis
    by (simp add: entry_line_def)
qed

lemma entry_key:
  assumes "wf_entry e"
  shows "strtok blanks (upto_nul (entry_line e)) = (Some (e_key e), e_word e @ e_tail e @ [NL])"
proof -
  have "nul_free (entry_line e)" using wf_entryD [OF assms] by (simp add: entry_line_def no_blankD)
  then have "upto_nul (entry_line e) = e_key e @ TAB # e_word e @ e_tail e @ [NL]"
    by (simp add: upto_nul_ident) (simp add: entry_line_def)
  moreover have "strtok blanks (e_key e @ TAB # e_word e @ e_tail e @ [NL]) = (Some (e_key e), e_word e @ e_tail e @ [NL])"
    using wf_entryD [OF assms] no_blankD(3) by (subst strtok_word) simp_all
  ultimately show ?thesis by simp
qed

lemma entry_word:
  assumes "wf_entry e" and "e_key e \<in> set read_keys"
  shows "fst (strtok blanks (e_word e @ e_tail e @ [NL])) = Some (e_word e)"
proof -
  have "e_word e \<noteq> []" using assms by (simp add: wf_entry_def)
  then show ?thesis
    using strtok_word [OF _ no_blankD(3) wf_entryD(6), OF _ wf_entryD(2)] assms(1) by simp
qed

lemma status_text_simps [simp]:
  "status_text [] = []" "status_text (e # es) = entry_line e @ status_text es"
  by (simp_all add: status_text_def)

lemma getline_no_status: "getline \<lparr>rest = [], ateof = a\<rparr> = (None, \<lparr>rest = [], ateof = True\<rparr>)"
  by (simp add: getline_def)

lemma proc_path_ok:
  assumes "nul_free d" and "nul_free file" and "length d + length file < 94"
  shows "proc_path d file = Inr (pad 100 (''/proc/'' @ d @ file))"
proof -
  have cat: "strcat (pad 100 s) t = Inr (pad 100 (s @ t))" if "nul_free s" "length s + length t < 100" for s t
    using that by (simp add: strcat_def cstr_pad strcpy_def pad_nul_split)
  show ?thesis using assms by (simp add: proc_path_def cat)
qed

text \<open>The loop over the entries, with strings in place of buffers.\<close>

fun user_entries :: "32 word \<Rightarrow> string \<Rightarrow> string \<Rightarrow> status_entry list \<Rightarrow> string \<times> bool" where
  "user_entries u n i [] = ([], False)"
| "user_entries u n i (e # es) =
     (let n = (if e_key e = ''Name:'' then e_word e else n); i = (if e_key e = ''Pid:'' then e_word e else i)
      in if e_key e \<noteq> ''Uid:'' then user_entries u n i es
         else if word_of_int (atoi (e_word e)) = u then
           (let (out, closed) = user_entries u n i es in (''Name: '' @ n @ ''  Pid: '' @ i @ NL # out, closed))
         else ([], True))"

lemma word_into_entry:
  assumes "wf_entry e" and "e_key e \<in> set read_keys" and "length (e_word e) < length buf"
  shows "\<exists>buf'. word_into buf (e_word e @ e_tail e @ [NL]) = Inr buf' \<and> length buf' = length buf \<and> cstr buf' = Inr (e_word e)"
  using assms(3) no_blankD(2) [OF wf_entryD(2) [OF assms(1)]]
  by (auto simp: word_into_def entry_word [OF assms(1,2)] strcpy_ok)

lemma scan_user_entries:
  assumes "\<forall>e \<in> set es. wf_entry e \<and> length (e_word e) < 50"
    and "length nb = 100" "cstr nb = Inr n" "length ib = 50" "cstr ib = Inr i"
  shows "scan_user u nb ib \<lparr>rest = status_text es, ateof = a\<rparr> = Inr (user_entries u n i es)"
  using assms
proof (induction es arbitrary: nb n ib i)
  case Nil
  show ?case by (subst scan_user.simps) (simp add: getline_no_status)
next
  case (Cons e es)
  then have wf: "wf_entry e" and len: "length (e_word e) < 50" by simp_all
  obtain nb' where nb': "(if e_key e = ''Name:'' then word_into nb (e_word e @ e_tail e @ [NL]) else Inr nb) = Inr nb'"
    "length nb' = 100" "cstr nb' = Inr (if e_key e = ''Name:'' then e_word e else n)"
    using word_into_entry [OF wf, of nb] len Cons.prems by (cases "e_key e = ''Name:''") (auto simp: read_keys_def)
  obtain ib' where ib': "(if e_key e = ''Pid:'' then word_into ib (e_word e @ e_tail e @ [NL]) else Inr ib) = Inr ib'"
    "length ib' = 50" "cstr ib' = Inr (if e_key e = ''Pid:'' then e_word e else i)"
    using word_into_entry [OF wf, of ib] len Cons.prems by (cases "e_key e = ''Pid:''") (auto simp: read_keys_def)
  have uid: "fst (strtok blanks (e_word e @ e_tail e @ [NL])) = Some (e_word e)" if "e_key e = ''Uid:''"
    using entry_word [OF wf] that by (simp add: read_keys_def)
  have IH: "scan_user u nb' ib' \<lparr>rest = status_text es, ateof = a\<rparr> = Inr (user_entries u
      (if e_key e = ''Name:'' then e_word e else n) (if e_key e = ''Pid:'' then e_word e else i) es)"
    using Cons.prems nb' ib' by (intro Cons.IH) auto
  show ?case
    by (subst scan_user.simps)
      (simp add: entry_getline [OF wf] entry_key [OF wf] nb'(1) ib'(1) nb'(3) ib'(3) IH uid Let_def split: prod.split)
qed

text \<open>
  A process and its status file as Linux writes it: the name first, \<open>Pid\<close> and \<open>PPid\<close> before \<open>Uid\<close>, other
  entries between and behind them.
\<close>

record process =
  pr_name :: string
  pr_title :: string  \<comment> \<open>what follows the first word of the name\<close>
  pr_pid :: nat
  pr_ppid :: nat
  pr_uid :: "32 word"
  pr_uids :: string  \<comment> \<open>the effective and saved user behind the real one\<close>
  pr_state :: "status_entry list"
  pr_more :: "status_entry list"
  pr_end :: "status_entry list"

definition status_entries :: "process \<Rightarrow> status_entry list" where
  "status_entries p =
     \<lparr>e_key = ''Name:'', e_word = pr_name p, e_tail = pr_title p\<rparr> # pr_state p @
     \<lparr>e_key = ''Pid:'', e_word = dec_nat (pr_pid p), e_tail = []\<rparr> #
     \<lparr>e_key = ''PPid:'', e_word = dec_nat (pr_ppid p), e_tail = []\<rparr> # pr_more p @
     \<lparr>e_key = ''Uid:'', e_word = dec_nat (unat (pr_uid p)), e_tail = pr_uids p\<rparr> # pr_end p"

definition other_entries :: "status_entry list \<Rightarrow> bool" where
  "other_entries es \<longleftrightarrow> (\<forall>e \<in> set es. wf_entry e \<and> length (e_word e) < 50 \<and> e_key e \<notin> set read_keys)"

definition wf_process :: "process \<Rightarrow> bool" where
  "wf_process p \<longleftrightarrow> pr_name p \<noteq> [] \<and> no_blank (pr_name p) \<and> length (pr_name p) < 50 \<and>
     wf_entry \<lparr>e_key = ''Name:'', e_word = pr_name p, e_tail = pr_title p\<rparr> \<and>
     wf_entry \<lparr>e_key = ''Uid:'', e_word = dec_nat (unat (pr_uid p)), e_tail = pr_uids p\<rparr> \<and>
     int (pr_pid p) \<le> INT_MAX \<and> int (pr_ppid p) \<le> INT_MAX \<and>
     other_entries (pr_state p) \<and> other_entries (pr_more p) \<and> other_entries (pr_end p)"

definition user_line :: "process \<Rightarrow> string" where
  "user_line p = ''Name: '' @ pr_name p @ ''  Pid: '' @ dec_nat (pr_pid p) @ [NL]"

lemma user_entries_other:
  "other_entries es \<Longrightarrow> user_entries u n i (es @ es') = user_entries u n i es'"
  by (induction es) (auto simp: other_entries_def read_keys_def Let_def)

lemma atoi_uid: "(word_of_int (atoi (dec_nat (unat u))) :: 32 word) = u"
proof -
  have "uint u < 2 ^ LENGTH(32)" by (rule unsigned_less)
  then have "uint u < 4294967296" by simp
  then have "strtol (dec_nat (unat u) @ []) 10 = (int (unat u), [], False)"
    by (subst strtol_decimal [OF decimal_dec_nat]) (simp_all add: num_of_dec_nat LONG_MAX_def)
  then show ?thesis by (simp add: atoi_def to_int32_def)
qed

lemma user_entries_process:
  assumes "wf_process p"
  shows "user_entries u n i (status_entries p) = (if pr_uid p = u then (user_line p, False) else ([], True))"
  using assms user_entries_other [of "pr_end p" u _ _ "[]"]
  by (simp add: wf_process_def status_entries_def Let_def user_entries_other atoi_uid user_line_def split: prod.split)

lemma no_blank_dec_nat [simp]: "no_blank (dec_nat n)"
proof -
  have "c \<noteq> CHR '' '' \<and> c \<noteq> TAB \<and> c \<noteq> NL \<and> c \<noteq> NUL" if "c \<in> set (dec_nat n)" for c
  proof -
    have "\<exists>k < 10. c = digit k" using decimal_dec_nat [of n] that by (simp add: decimal_def)
    then obtain k where "k < 10" "c = digit k" by blast
    then show ?thesis by simp
  qed
  then show ?thesis by (auto simp: no_blank_def)
qed

lemma length_dec_nat_int: "int n \<le> INT_MAX \<Longrightarrow> length (dec_nat n) \<le> 10"
  by (rule length_dec_nat_le) (simp_all add: INT_MAX_def)

lemma length_dec_nat_word: "length (dec_nat (unat (u :: 32 word))) \<le> 10"
proof -
  have "unat u < 2 ^ LENGTH(32)" by (rule unsigned_less)
  then show ?thesis by (intro length_dec_nat_le) simp_all
qed

lemma status_entries_wf:
  assumes "wf_process p" and "e \<in> set (status_entries p)"
  shows "wf_entry e \<and> length (e_word e) < 50"
proof -
  have "no_blank ''Pid:''" "no_blank ''PPid:''" by (simp_all add: no_blank_def)
  then have number: "wf_entry \<lparr>e_key = k, e_word = dec_nat n, e_tail = []\<rparr>" if "k \<in> {''Pid:'', ''PPid:''}" for k n
    using that by (auto simp: wf_entry_def)
  show ?thesis
    using assms length_dec_nat_int [of "pr_pid p"] length_dec_nat_int [of "pr_ppid p"] length_dec_nat_word [of "pr_uid p"]
    by (auto simp: wf_process_def status_entries_def other_entries_def number)
qed

lemma scan_user_process:
  assumes "wf_process p"
  shows "scan_user u (zeros 100) (zeros 50) (fopen_stream (status_text (status_entries p))) =
    Inr (if pr_uid p = u then (user_line p, False) else ([], True))"
  unfolding fopen_stream_def
  by (subst scan_user_entries [where n = "[]" and i = "[]"])
    (simp_all add: status_entries_wf [OF assms] user_entries_process [OF assms] cstr_zeros)

lemma status_path_bind:
  assumes "nul_free d" and "length d \<le> 86"
  shows "bindE (proc_path d ''/status'') (\<lambda>b. bindE (cstr b) f) = f (''/proc/'' @ d @ ''/status'')"
proof -
  have "proc_path d ''/status'' = Inr (pad 100 (''/proc/'' @ d @ ''/status''))"
    using assms by (intro proc_path_ok) simp_all
  moreover have "cstr (pad 100 (''/proc/'' @ d @ ''/status'')) = Inr (''/proc/'' @ d @ ''/status'')"
    using assms by (intro cstr_pad) simp_all
  ultimately show ?thesis by simp
qed

text \<open>What \<open>/proc\<close> shows: every name that is a number has the status file of its process.\<close>

definition proc_shows :: "(string \<Rightarrow> process) \<Rightarrow> (string \<Rightarrow> string option) \<Rightarrow> string \<Rightarrow> bool" where
  "proc_shows proc files d \<longleftrightarrow> nul_free d \<and> length d \<le> 86 \<and> wf_process (proc d) \<and>
     files (''/proc/'' @ d @ ''/status'') = Some (status_text (status_entries (proc d)))"

lemma list_user_processes:
  assumes "\<forall>d \<in> set (filter (\<lambda>d. atoi d \<noteq> 0) ds). proc_shows proc files d"
  shows "list_user files u avail ds =
    Inr (concat (map user_line (take avail (filter (\<lambda>p. pr_uid p = u) (map proc (filter (\<lambda>d. atoi d \<noteq> 0) ds))))))"
  using assms
proof (induction ds arbitrary: avail)
  case (Cons d ds)
  show ?case
  proof (cases "atoi d = 0")
    case True
    with Cons show ?thesis by simp
  next
    case False
    with Cons.prems have d: "nul_free d" "length d \<le> 86" "wf_process (proc d)"
      "files (''/proc/'' @ d @ ''/status'') = Some (status_text (status_entries (proc d)))"
      by (simp_all add: proc_shows_def)
    with False Cons show ?thesis
      by (cases avail) (auto simp: status_path_bind scan_user_process)
  qed
qed simp

text \<open>
  hw3_part1 prints a line for every process of the user whose name is given, in the order of \<open>/proc\<close>,
  but no more lines than files can be opened: the file of a process that is listed stays open, and the
  listing ends without a message when no file can be opened any more.
\<close>

theorem user_processes:
  assumes "getpwnam user = Some u"
    and "\<forall>d \<in> set (filter (\<lambda>d. atoi d \<noteq> 0) ds). proc_shows proc files d"
  shows "part1_main getpwnam (Some ds) files avail [prog, user] =
    Inr (0, concat (map user_line (take avail (filter (\<lambda>p. pr_uid p = u) (map proc (filter (\<lambda>d. atoi d \<noteq> 0) ds))))))"
  using assms list_user_processes [OF assms(2)] by (simp add: part1_main_def)

definition shell_process :: "nat \<Rightarrow> nat \<Rightarrow> process" where
  "shell_process n u = \<lparr>pr_name = ''sh'', pr_title = [], pr_pid = n, pr_ppid = 1, pr_uid = of_nat u, pr_uids = TAB # ''0'',
     pr_state = [], pr_more = [], pr_end = []\<rparr>"

lemma wf_shell_process: "int n \<le> INT_MAX \<Longrightarrow> wf_process (shell_process n u)"
  by (simp add: wf_process_def shell_process_def wf_entry_def other_entries_def INT_MAX_def)
    (simp add: no_blank_def)

theorem user_processes_witness:
  "part1_main (\<lambda>s. if s = ''sam'' then Some 7 else None) (Some [''.'', ''4'', ''5'', ''6''])
     (\<lambda>path. if path = ''/proc/5/status'' then Some (status_text (status_entries (shell_process 5 8)))
       else Some (status_text (status_entries (shell_process 4 7)))) 1 [''hw3'', ''sam''] =
   Inr (0, ''Name: sh  Pid: 4'' @ [NL])"
proof -
  have n: "atoi ''4'' = 4" "atoi ''5'' = 5" "atoi ''6'' = 6" "atoi ''.'' = 0" by code_simp+
  have d4: "dec_nat 4 = ''4''" by code_simp
  show ?thesis
    using user_processes [where user = "''sam''" and u = 7 and getpwnam = "\<lambda>s. if s = ''sam'' then Some 7 else None"
        and ds = "[''.'', ''4'', ''5'', ''6'']" and prog = "''hw3''" and avail = 1
        and proc = "\<lambda>d. if d = ''5'' then shell_process 5 8 else shell_process 4 7"
        and files = "\<lambda>path. if path = ''/proc/5/status'' then Some (status_text (status_entries (shell_process 5 8)))
          else Some (status_text (status_entries (shell_process 4 7)))"]
    by (simp add: n d4 proc_shows_def wf_shell_process INT_MAX_def) (simp add: shell_process_def user_line_def d4)
qed

section \<open>The files listed\<close>

text \<open>A directory of descriptors whose links can be read: \<open>target\<close> gives what a link stands for.\<close>

definition links_shown :: "(string \<Rightarrow> string option) \<Rightarrow> (string \<Rightarrow> string) \<Rightarrow> string \<Rightarrow> string list \<Rightarrow> bool" where
  "links_shown readlink target start fds \<longleftrightarrow>
     (\<forall>f \<in> set fds. nul_free f \<and> length start + length f < 100 \<and> readlink (start @ f) = Some (target (start @ f)) \<and>
        nul_free (target (start @ f)) \<and> length (target (start @ f)) < 200)"

definition link_line :: "(string \<Rightarrow> string) \<Rightarrow> string \<Rightarrow> string \<Rightarrow> string" where
  "link_line target start f = CHR '' '' # target (start @ f) @ [NL]"

lemma strcat_cstr: "cstr b = Inr s \<Longrightarrow> strcat b t = strcpy b (s @ t)"
  by (simp add: strcat_def)

lemma strcpy_holds:
  assumes "nul_free s" and "length s < length b"
  obtains b' where "strcpy b s = Inr b'" "length b' = length b" "cstr b' = Inr s"
  using assms by (simp add: strcpy_ok)

lemma list_links_shown:
  assumes "links_shown readlink target start fds" and "nul_free start" and "length start < 100"
    and "cstr path1 = Inr start" and "length path = 100" and "cstr path = Inr start"
  shows "list_links readlink path1 path fds =
    Inr (concat (map (link_line target start) (filter (\<lambda>f. atoi f \<noteq> 0) fds)), False)"
  using assms
proof (induction fds arbitrary: path)
  case (Cons f fds)
  then have f: "nul_free f" "length start + length f < 100" "readlink (start @ f) = Some (target (start @ f))"
    "nul_free (target (start @ f))" "length (target (start @ f)) < 200"
    and shown: "links_shown readlink target start fds"
    by (simp_all add: links_shown_def)
  have IH: "list_links readlink path1 b fds = Inr (concat (map (link_line target start) (filter (\<lambda>f. atoi f \<noteq> 0) fds)), False)"
    if "length b = 100" "cstr b = Inr start" for b
    using Cons that shown by blast
  obtain p' where p': "strcpy path start = Inr p'" "length p' = 100" "cstr p' = Inr start"
    using Cons.prems strcpy_holds [of start path] by auto
  obtain q where q: "strcat path f = Inr q" "length q = 100" "cstr q = Inr (start @ f)"
    using Cons.prems f strcpy_holds [of "start @ f" path] by (auto simp: strcat_cstr)
  obtain r where r: "strcpy q start = Inr r" "length r = 100" "cstr r = Inr start"
    using Cons.prems q(2) strcpy_holds [of start q] by auto
  have "take 200 (target (start @ f)) @ zeros (200 - length (target (start @ f))) = pad 200 (target (start @ f))"
    using f(5) by (simp add: pad_def zeros_def)
  with f have buf: "cstr (take 200 (target (start @ f)) @ zeros (200 - length (target (start @ f)))) = Inr (target (start @ f))"
    by (simp add: cstr_pad)
  show ?case
    using Cons.prems(4) f(3) by (simp add: p' q r buf IH) (simp add: link_line_def)
qed simp

definition fd_shown ::
    "(string \<Rightarrow> string list option) \<Rightarrow> (string \<Rightarrow> string option) \<Rightarrow> (string \<Rightarrow> string list) \<Rightarrow> (string \<Rightarrow> string) \<Rightarrow> string \<Rightarrow> bool" where
  "fd_shown opendir readlink fds target d \<longleftrightarrow>
     nul_free d \<and> length d < 80 \<and> opendir (''/proc/'' @ d @ ''/fd'') = Some (fds d) \<and>
     links_shown readlink target (''/proc/'' @ d @ ''/fd/'') (fds d)"

definition files_block :: "(string \<Rightarrow> string list) \<Rightarrow> (string \<Rightarrow> string) \<Rightarrow> string \<Rightarrow> string" where
  "files_block fds target d = ''pid '' @ dec_int (atoi d) @ '':'' @ NL #
     concat (map (link_line target (''/proc/'' @ d @ ''/fd/'')) (filter (\<lambda>f. atoi f \<noteq> 0) (fds d)))"

lemma list_files_shown:
  assumes "\<forall>d \<in> set (filter (\<lambda>d. atoi d \<noteq> 0) ds). fd_shown opendir readlink fds target d"
  shows "list_files opendir readlink ds =
    Inr (concat (map (files_block fds target) (filter (\<lambda>d. atoi d \<noteq> 0) ds)))"
  using assms
proof (induction ds)
  case (Cons d ds)
  show ?case
  proof (cases "atoi d = 0")
    case True
    with Cons show ?thesis by simp
  next
    case False
    let ?start = "''/proc/'' @ d @ ''/fd/''"
    from False Cons.prems have d: "nul_free d" "length d < 80" "opendir (''/proc/'' @ d @ ''/fd'') = Some (fds d)"
      "links_shown readlink target ?start (fds d)"
      by (simp_all add: fd_shown_def)
    have path: "proc_path d ''/fd'' = Inr (pad 100 (''/proc/'' @ d @ ''/fd''))"
      using d(1,2) by (intro proc_path_ok) simp_all
    have name: "cstr (pad 100 (''/proc/'' @ d @ ''/fd'')) = Inr (''/proc/'' @ d @ ''/fd'')"
      using d(1,2) by (intro cstr_pad) simp_all
    have start: "nul_free ?start" "length ?start < 100" using d(1,2) by simp_all
    have len: "length (pad 100 (''/proc/'' @ d @ ''/fd'')) = 100" using d(2) by (intro length_pad) simp
    obtain b where b: "strcpy (pad 100 (''/proc/'' @ d @ ''/fd'')) ?start = Inr b" "length b = 100" "cstr b = Inr ?start"
      using strcpy_holds [OF start(1), of "pad 100 (''/proc/'' @ d @ ''/fd'')"] start(2) unfolding len by blast
    have cat: "strcat (pad 100 (''/proc/'' @ d @ ''/fd'')) ''/'' = Inr b"
      using b(1) strcat_cstr [OF name, of "''/''"] by simp
    obtain c where c: "strcpy (zeros 100) ?start = Inr c" "cstr c = Inr ?start"
      using strcpy_holds [OF start(1), of "zeros 100"] start(2) unfolding length_zeros by blast
    have "list_links readlink c b (fds d) =
        Inr (concat (map (link_line target ?start) (filter (\<lambda>f. atoi f \<noteq> 0) (fds d))), False)"
      using start b c by (intro list_links_shown [OF d(4)])
    moreover have "list_files opendir readlink ds = Inr (concat (map (files_block fds target) (filter (\<lambda>d. atoi d \<noteq> 0) ds)))"
      using Cons by simp
    ultimately have "list_files opendir readlink (d # ds) = Inr ((''pid '' @ dec_int (atoi d) @ '':'' @ NL #
        concat (map (link_line target ?start) (filter (\<lambda>f. atoi f \<noteq> 0) (fds d)))) @
        concat (map (files_block fds target) (filter (\<lambda>d. atoi d \<noteq> 0) ds)))"
      using False name cat b(3) c d(3) by (simp add: path)
    then show ?thesis using False by (simp add: files_block_def [of _ _ d])
  qed
qed simp

text \<open>
  hw3_part3 prints the number of every process and the targets of its links, in the order of the
  directories; descriptor 0, whose name converts to zero, is never among them.
\<close>

theorem open_files:
  assumes "\<forall>d \<in> set (filter (\<lambda>d. atoi d \<noteq> 0) ds). fd_shown opendir readlink fds target d"
  shows "part3_main (Some ds) opendir readlink =
    Inr (0, concat (map (files_block fds target) (filter (\<lambda>d. atoi d \<noteq> 0) ds)))"
  by (simp add: part3_main_def list_files_shown [OF assms])

theorem open_files_witness:
  "part3_main (Some [''.'', ''4'']) (\<lambda>p. if p = ''/proc/4/fd'' then Some [''.'', ''0'', ''1''] else None)
     (\<lambda>p. Some ''/dev/null'') = Inr (0, ''pid 4:'' @ NL # '' /dev/null'' @ [NL])"
proof -
  have n: "atoi ''4'' = 4" "atoi ''1'' = 1" "atoi ''0'' = 0" "atoi ''.'' = 0" "dec_int 4 = ''4''" by code_simp+
  have "part3_main (Some [''.'', ''4'']) (\<lambda>p. if p = ''/proc/4/fd'' then Some [''.'', ''0'', ''1''] else None)
      (\<lambda>p. Some ''/dev/null'') =
    Inr (0, concat (map (files_block (\<lambda>_. [''.'', ''0'', ''1'']) (\<lambda>_. ''/dev/null'')) (filter (\<lambda>d. atoi d \<noteq> 0) [''.'', ''4''])))"
    by (rule open_files) (simp add: n fd_shown_def links_shown_def)
  then show ?thesis by (simp add: n files_block_def link_line_def)
qed

text \<open>A target of 200 bytes or more leaves the buffer without a terminator.\<close>

theorem long_target_unterminated:
  assumes "cstr path1 = Inr start" and "atoi f \<noteq> 0" and "strcat path f = Inr path'" and "cstr path' = Inr link"
    and "readlink link = Some target" and "nul_free target" and "200 \<le> length target"
  shows "list_links readlink path1 path (f # fds) = Inl OutOfBounds"
proof -
  have "NUL \<notin> set (take 200 target)" using assms(6) by (auto simp: nul_free_def dest: in_set_takeD)
  with assms show ?thesis by (simp add: cstr_def [of "take 200 target"] zeros_def)
qed

theorem long_target_unterminated_witness:
  "list_links (\<lambda>p. Some (replicate 200 CHR ''x'')) (pad 100 ''/proc/4/fd/'') (pad 100 ''/proc/4/fd/'') [''1''] = Inl OutOfBounds"
proof (rule long_target_unterminated)
  show "cstr (pad 100 ''/proc/4/fd/'') = Inr ''/proc/4/fd/''" by (rule cstr_pad) simp_all
  then show "strcat (pad 100 ''/proc/4/fd/'') ''1'' = Inr (''/proc/4/fd/1'' @ NUL # drop 13 (pad 100 ''/proc/4/fd/''))"
    by (simp add: strcat_cstr strcpy_ok eval_nat_numeral)
  show "cstr (''/proc/4/fd/1'' @ NUL # drop 13 (pad 100 ''/proc/4/fd/'')) = Inr ''/proc/4/fd/1''"
    by (rule cstr_append_nul) simp
  show "atoi ''1'' \<noteq> 0" by code_simp
  show "nul_free (replicate 200 CHR ''x'')" by (simp add: nul_free_def)
qed simp_all

end
