(* ===== verification/ProcTree.thy ===== *)
theory ProcTree
  imports ProcList
begin

text \<open>
  The process tree \<open>src/SP_HW3/hw3_part2.c\<close>: an array of nodes filled from \<open>/proc\<close>, linked by child and
  sibling pointers, and walked by the recursive \<open>traversal\<close>.

  A pointer into the array is an index (\<open>None\<close> the null pointer); the array has one more node than have
  been filled, and reading that node is \<open>Uninitialised\<close>.  The walk along siblings and \<open>traversal\<close> follow
  pointers and take fuel; \<open>None\<close> is running out of it, and the theorems give an amount that is enough.
  \<open>malloc\<close> and \<open>realloc\<close> are taken to succeed.

  The lemmas read the linked array as a forest: \<open>chain\<close> relates a pointer to the list of siblings behind
  it, \<open>reps\<close> to the list of trees, and \<open>outline\<close> is the walk over trees.
\<close>

section \<open>Running out of fuel\<close>

type_synonym 'a run = "'a res option"

fun bindR :: "'a run \<Rightarrow> ('a \<Rightarrow> 'b run) \<Rightarrow> 'b run" where
  "bindR None f = None"
| "bindR (Some (Inl e)) f = Some (Inl e)"
| "bindR (Some (Inr x)) f = f x"

abbreviation ok :: "'a \<Rightarrow> 'a run" where "ok x \<equiv> Some (Inr x)"

section \<open>The nodes\<close>

record node =
  n_pid :: int
  n_ppid :: "int option"  \<comment> \<open>\<open>None\<close>: not set\<close>
  n_space :: nat
  n_name :: "string option"  \<comment> \<open>\<open>None\<close>: not set\<close>
  n_child :: "nat option"
  n_father :: "nat option"
  n_sibling :: "nat option"

definition node_at :: "node list \<Rightarrow> nat \<Rightarrow> node res" where
  "node_at pn i = (if i < length pn then Inr (pn ! i) else if i = length pn then Inl Uninitialised else Inl OutOfBounds)"

definition new_node :: "int \<Rightarrow> node" where
  "new_node pid = \<lparr>n_pid = pid, n_ppid = None, n_space = 1, n_name = None, n_child = None, n_father = None, n_sibling = None\<rparr>"

text \<open>The loop over the lines of a status file.\<close>

function scan_node :: "node \<Rightarrow> stream \<Rightarrow> node res" where
  "scan_node x f =
     (case getline f of
        (None, f') \<Rightarrow> Inr x
      | (Some buf, f') \<Rightarrow>
          (case strtok blanks (upto_nul buf) of
             (None, r) \<Rightarrow> Inl NullDeref
           | (Some key, r) \<Rightarrow>
               if key = ''Name:'' then
                 (case fst (strtok blanks r) of
                    None \<Rightarrow> Inl NullDeref
                  | Some w \<Rightarrow> if length w < 100 then scan_node (x\<lparr>n_name := Some w\<rparr>) f' else Inl OutOfBounds)
               else if key = ''PPid:'' then
                 (case fst (strtok blanks r) of
                    None \<Rightarrow> Inl NullDeref
                  | Some w \<Rightarrow> Inr (x\<lparr>n_ppid := Some (atoi w)\<rparr>))
               else scan_node x f'))"
  by pat_completeness auto

termination
  by (relation "measure (\<lambda>(_, f). length (stream.rest f))") (auto dest: getline_shorter [OF sym])

declare scan_node.simps [simp del]

text \<open>The loop over \<open>/proc\<close>; \<open>None\<close>: a status file could not be opened, which ends the program.\<close>

fun read_nodes :: "(string \<Rightarrow> string option) \<Rightarrow> node list \<Rightarrow> string list \<Rightarrow> node list option res" where
  "read_nodes files pn [] = Inr (Some pn)"
| "read_nodes files pn (d # ds) =
     (if atoi d = 0 then read_nodes files pn ds
      else
        bindE (proc_path d ''/status'') (\<lambda>b. bindE (cstr b) (\<lambda>path.
        case files path of
          None \<Rightarrow> Inr None
        | Some content \<Rightarrow>
            bindE (scan_node (new_node (atoi d)) (fopen_stream content)) (\<lambda>x.
            read_nodes files (pn @ [x]) ds))))"

section \<open>Linking\<close>

text \<open>The inner loop: the last node before \<open>k\<close> with the process number.\<close>

fun find_father :: "node list \<Rightarrow> int \<Rightarrow> nat \<Rightarrow> nat option res" where
  "find_father pn pp 0 = Inr None"
| "find_father pn pp (Suc k) =
     bindE (load pn k) (\<lambda>x. if pp = n_pid x then Inr (Some k) else find_father pn pp k)"

fun last_sibling :: "nat \<Rightarrow> node list \<Rightarrow> nat \<Rightarrow> nat run" where
  "last_sibling 0 pn p = None"
| "last_sibling (Suc n) pn p =
     bindR (Some (load pn p)) (\<lambda>x.
     case n_sibling x of None \<Rightarrow> ok p | Some q \<Rightarrow> last_sibling n pn q)"

definition adopt :: "nat \<Rightarrow> node list \<Rightarrow> nat \<Rightarrow> nat \<Rightarrow> node list run" where
  "adopt fuel pn j k =
     (let pn = pn[j := (pn ! j)\<lparr>n_father := Some k\<rparr>] in
      bindR (Some (load pn k)) (\<lambda>x.
      case n_child x of
        None \<Rightarrow> ok (pn[k := x\<lparr>n_child := Some j\<rparr>])
      | Some c \<Rightarrow>
          bindR (last_sibling fuel pn c) (\<lambda>l.
          bindR (Some (load pn l)) (\<lambda>y. ok (pn[l := y\<lparr>n_sibling := Some j\<rparr>])))))"

definition link_node :: "nat \<Rightarrow> node list \<Rightarrow> nat \<Rightarrow> node list run" where
  "link_node fuel pn j =
     bindR (Some (load pn j)) (\<lambda>x.
     case n_ppid x of
       None \<Rightarrow> if j = 0 then ok pn else Some (Inl Uninitialised)
     | Some pp \<Rightarrow>
         bindR (Some (find_father pn pp j)) (\<lambda>k.
         case k of None \<Rightarrow> ok pn | Some k \<Rightarrow> adopt fuel pn j k))"

text \<open>The outer loop, from the last node to the first.\<close>

fun link_all :: "nat \<Rightarrow> node list \<Rightarrow> nat \<Rightarrow> node list run" where
  "link_all fuel pn 0 = ok pn"
| "link_all fuel pn (Suc j) = bindR (link_node fuel pn j) (\<lambda>pn. link_all fuel pn j)"

section \<open>The walk\<close>

definition dashes :: "nat \<Rightarrow> string" where
  "dashes n = concat (replicate n ''--'')"

definition set_space :: "node list \<Rightarrow> nat \<Rightarrow> nat \<Rightarrow> node list" where
  "set_space pn i s = pn[i := (pn ! i)\<lparr>n_space := s\<rparr>]"

fun traversal :: "nat \<Rightarrow> node list \<Rightarrow> nat \<Rightarrow> nat \<Rightarrow> (string \<times> node list \<times> nat) run" where
  "traversal 0 pn count p = None"
| "traversal (Suc n) pn count p =
     bindR (Some (node_at pn p)) (\<lambda>x.
     case n_name x of
       None \<Rightarrow> Some (Inl Uninitialised)
     | Some name \<Rightarrow>
         let line = dashes (n_space x) @ name @ [NL] in
         bindR (case n_child x of
                  None \<Rightarrow> ok ([], pn, count)
                | Some c \<Rightarrow>
                    bindR (Some (node_at pn c)) (\<lambda>_.
                    traversal n (set_space pn c (Suc count)) (Suc count) c)) (\<lambda>(below, pn, count).
         bindR (Some (node_at pn p)) (\<lambda>x.
         case n_sibling x of
           None \<Rightarrow> ok (line @ below, pn, count)
         | Some q \<Rightarrow>
             bindR (Some (node_at pn q)) (\<lambda>y.
             let count = (if n_pid y = 2 then 1 else count) in
             bindR (traversal n (set_space pn q count) count q) (\<lambda>(behind, pn, count).
             ok (line @ below @ behind, pn, count))))))"

definition part2_main :: "nat \<Rightarrow> string list option \<Rightarrow> (string \<Rightarrow> string option) \<Rightarrow> (int \<times> string) run" where
  "part2_main fuel dir files =
     (case dir of
        None \<Rightarrow> Some (Inl NullDeref)
      | Some ds \<Rightarrow>
          bindR (Some (read_nodes files [] ds)) (\<lambda>r.
          case r of
            None \<Rightarrow> ok (0, [])
          | Some pn \<Rightarrow>
              bindR (link_all fuel pn (length pn)) (\<lambda>pn.
              let pn = (if pn = [] then [] else pn[0 := (pn ! 0)\<lparr>n_sibling := Some 1\<rparr>]) in
              bindR (traversal fuel pn 1 0) (\<lambda>(out, _).
              ok (0, ''init'' @ NL # out)))))"

section \<open>Siblings as lists\<close>

lemma update_same: "g y = g (pn ! l) \<Longrightarrow> g (pn[l := y] ! i) = g (pn ! i)"
  by (cases "i = l \<and> l < length pn") (auto simp: nth_list_update_neq list_update_beyond)

text \<open>\<open>chain pn p js\<close>: the nodes reached from the pointer \<open>p\<close> along the sibling pointers are \<open>js\<close>.\<close>

primrec chain :: "node list \<Rightarrow> nat option \<Rightarrow> nat list \<Rightarrow> bool" where
  "chain pn p [] \<longleftrightarrow> p = None"
| "chain pn p (j # js) \<longleftrightarrow> p = Some j \<and> j < length pn \<and> chain pn (n_sibling (pn ! j)) js"

lemma chain_frame: "l \<notin> set js \<Longrightarrow> chain (pn[l := y]) p js \<longleftrightarrow> chain pn p js"
  by (induction js arbitrary: p) auto

lemma chain_same_sibling: "n_sibling y = n_sibling (pn ! l) \<Longrightarrow> chain (pn[l := y]) p js \<longleftrightarrow> chain pn p js"
  by (induction js arbitrary: p) (simp_all add: update_same)

lemma chain_snoc_None: "chain pn p (js @ [j]) \<Longrightarrow> n_sibling (pn ! j) = None"
  by (induction js arbitrary: p) auto

lemma chain_attach:
  assumes "chain pn p js" and "js \<noteq> []" and "distinct js" and "m < length pn" and "m \<notin> set js"
    and "n_sibling (pn ! m) = None" and "n_sibling y = Some m"
  shows "chain (pn[last js := y]) p (js @ [m])"
  using assms
proof (induction js arbitrary: p)
  case (Cons j js)
  show ?case
  proof (cases "js = []")
    case True
    with Cons.prems show ?thesis by (auto simp: nth_list_update)
  next
    case False
    with Cons have "chain (pn[last js := y]) (n_sibling (pn ! j)) (js @ [m])" by simp
    moreover have "last js \<noteq> j" using False Cons.prems(3) by auto
    ultimately show ?thesis using False Cons.prems by simp
  qed
qed simp

lemma chain_last:
  assumes "chain pn (Some c) js" and "length js \<le> fuel"
  shows "last_sibling fuel pn c = ok (last js)"
  using assms
proof (induction js arbitrary: c fuel)
  case (Cons j js)
  then obtain n where n: "fuel = Suc n" "length js \<le> n" by (cases fuel) auto
  show ?case
  proof (cases js)
    case Nil
    with Cons.prems n show ?thesis by (simp add: load_def)
  next
    case (Cons j' js')
    with Cons.prems Cons.IH [of j' n] n show ?thesis by (simp add: load_def)
  qed
qed simp

section \<open>Fathers and children\<close>

text \<open>The father of a process: the last node before it that has its parent's number.\<close>

fun nearest :: "node list \<Rightarrow> int \<Rightarrow> nat \<Rightarrow> nat option" where
  "nearest pn pp 0 = None"
| "nearest pn pp (Suc k) = (if pp = n_pid (pn ! k) then Some k else nearest pn pp k)"

definition dad :: "node list \<Rightarrow> nat \<Rightarrow> nat option" where
  "dad pn j = nearest pn (the (n_ppid (pn ! j))) j"

text \<open>The children of \<open>k\<close> among the nodes from \<open>m\<close> on, in the order of the sibling pointers.\<close>

definition kids :: "node list \<Rightarrow> nat \<Rightarrow> nat \<Rightarrow> nat list" where
  "kids pn m k = rev (filter (\<lambda>j. dad pn j = Some k) [m..<length pn])"

lemma find_father_nearest: "k \<le> length pn \<Longrightarrow> find_father pn pp k = Inr (nearest pn pp k)"
  by (induction k) (auto simp: load_def)

lemma nearest_less: "nearest pn pp j = Some k \<Longrightarrow> k < j \<and> n_pid (pn ! k) = pp"
  by (induction j) (auto split: if_splits)

lemma dad_less: "dad pn j = Some k \<Longrightarrow> k < j"
  unfolding dad_def by (auto dest: nearest_less)

lemma kids_step:
  "m < length pn \<Longrightarrow> kids pn m k = kids pn (Suc m) k @ (if dad pn m = Some k then [m] else [])"
  by (simp add: kids_def upt_conv_Cons)

lemma kids_set [simp]: "set (kids pn m k) = {j. m \<le> j \<and> j < length pn \<and> dad pn j = Some k}"
  by (auto simp: kids_def)

lemma kids_distinct [simp]: "distinct (kids pn m k)"
  by (simp add: kids_def)

lemma length_kids: "length (kids pn m k) \<le> length pn"
  unfolding kids_def length_rev by (rule order_trans [OF length_filter_le]) simp

text \<open>
  The array after the nodes from \<open>m\<close> on have been linked: \<open>fixed\<close> holds what linking leaves alone.
\<close>

definition fixed :: "node \<Rightarrow> int \<times> int option \<times> nat \<times> string option" where
  "fixed x = (n_pid x, n_ppid x, n_space x, n_name x)"

definition linked :: "node list \<Rightarrow> nat \<Rightarrow> node list \<Rightarrow> bool" where
  "linked pn0 m pn \<longleftrightarrow> map fixed pn = map fixed pn0 \<and>
     (\<forall>k < length pn0. chain pn (n_child (pn ! k)) (kids pn0 m k)) \<and>
     (\<forall>j < length pn0. j < m \<or> dad pn0 j = None \<longrightarrow> n_sibling (pn ! j) = None)"

lemma fixed_nth: "map fixed pn = map fixed pn0 \<Longrightarrow> j < length pn0 \<Longrightarrow> fixed (pn ! j) = fixed (pn0 ! j)"
  by (metis length_map nth_map)

lemma nearest_fixed:
  assumes "map fixed pn = map fixed pn0" and "j \<le> length pn0"
  shows "nearest pn pp j = nearest pn0 pp j"
  using assms(2) by (induction j) (use fixed_nth [OF assms(1)] in \<open>auto simp: fixed_def\<close>)

lemma fixed_update:
  "map fixed pn = map fixed pn0 \<Longrightarrow> j < length pn \<Longrightarrow> fixed y = fixed (pn ! j) \<Longrightarrow> map fixed (pn[j := y]) = map fixed pn0"
  by (metis list_update_id map_update nth_map)

lemma linked_adopt:
  assumes inv: "linked pn0 (Suc m) pn" and m: "m < length pn0" and dad: "dad pn0 m = Some k"
    and fuel: "length pn0 \<le> fuel"
  shows "\<exists>pn'. adopt fuel pn m k = ok pn' \<and> linked pn0 m pn'"
proof -
  have len: "length pn = length pn0" using inv by (metis linked_def length_map)
  have km: "k < m" using dad by (rule dad_less)
  let ?p1 = "pn[m := (pn ! m)\<lparr>n_father := Some k\<rparr>]"
  have fix1: "map fixed ?p1 = map fixed pn0"
    using inv m len by (intro fixed_update) (auto simp: linked_def fixed_def)
  have ch1: "chain ?p1 p js \<longleftrightarrow> chain pn p js" for p js by (rule chain_same_sibling) simp
  have p1k: "?p1 ! k = pn ! k" and p1m: "n_child (?p1 ! i) = n_child (pn ! i)" "n_sibling (?p1 ! i) = n_sibling (pn ! i)" for i
    using km by (simp_all add: update_same [where g = n_child] update_same [where g = n_sibling])
  have sibm: "n_sibling (pn ! m) = None" using inv m by (simp add: linked_def)
  have chains: "chain pn (n_child (pn ! i)) (kids pn0 (Suc m) i)" if "i < length pn0" for i
    using inv that by (simp add: linked_def)
  show ?thesis
  proof (cases "n_child (pn ! k)")
    case None
    have "kids pn0 (Suc m) k = []" using chains [of k] km m None by (cases "kids pn0 (Suc m) k") auto
    let ?p2 = "?p1[k := (?p1 ! k)\<lparr>n_child := Some m\<rparr>]"
    have ch2: "chain ?p2 p js \<longleftrightarrow> chain pn p js" for p js by (subst chain_same_sibling) (auto simp: ch1)
    have "linked pn0 m ?p2"
      unfolding linked_def
    proof (intro conjI allI impI)
      show "map fixed ?p2 = map fixed pn0" by (rule fixed_update [OF fix1]) (use km m len in \<open>simp_all add: fixed_def\<close>)
      show "chain ?p2 (n_child (?p2 ! i)) (kids pn0 m i)" if "i < length pn0" for i
      proof (cases "i = k")
        case True
        then show ?thesis
          using \<open>kids pn0 (Suc m) k = []\<close> km m len sibm dad by (simp add: kids_step ch2)
      next
        case False
        then show ?thesis using that chains [of i] m dad p1m(1) by (simp add: kids_step ch2)
      qed
      show "n_sibling (?p2 ! j) = None" if "j < length pn0" "j < m \<or> dad pn0 j = None" for j
      proof -
        have "n_sibling (?p2 ! j) = n_sibling (pn ! j)" by (simp add: update_same [where g = n_sibling])
        then show ?thesis using inv that by (auto simp: linked_def)
      qed
    qed
    moreover have "adopt fuel pn m k = ok ?p2"
      using None km m len p1k by (simp add: adopt_def Let_def load_def)
    ultimately show ?thesis by blast
  next
    case (Some c)
    let ?js = "kids pn0 (Suc m) k"
    have chk: "chain pn (Some c) ?js" using chains [of k] km m Some by simp
    then have ne: "?js \<noteq> []" by auto
    let ?l = "last ?js"
    have "?l \<in> set ?js" using ne by (rule last_in_set)
    then have l: "Suc m \<le> ?l" "?l < length pn0" "dad pn0 ?l = Some k" by simp_all
    let ?p2 = "?p1[?l := (?p1 ! ?l)\<lparr>n_sibling := Some m\<rparr>]"
    have walk: "last_sibling fuel ?p1 c = ok ?l"
      using chk length_kids [of pn0 "Suc m" k] fuel by (intro chain_last) (auto simp: ch1)
    have ch2: "chain ?p2 p js \<longleftrightarrow> chain pn p js" if "?l \<notin> set js" for p js
      using that by (simp add: chain_frame ch1)
    have "linked pn0 m ?p2"
      unfolding linked_def
    proof (intro conjI allI impI)
      show "map fixed ?p2 = map fixed pn0" by (rule fixed_update [OF fix1]) (use l m len in \<open>simp_all add: fixed_def\<close>)
      have child: "n_child (?p2 ! i) = n_child (pn ! i)" for i by (simp add: update_same [where g = n_child])
      show "chain ?p2 (n_child (?p2 ! i)) (kids pn0 m i)" if "i < length pn0" for i
      proof (cases "i = k")
        case True
        have "chain ?p2 (Some c) (?js @ [m])"
          using chk ne m len sibm by (intro chain_attach) (auto simp: ch1)
        then show ?thesis unfolding child True using m dad Some by (simp add: kids_step)
      next
        case False
        then have "?l \<notin> set (kids pn0 (Suc m) i)" using l by simp
        from ch2 [OF this] show ?thesis unfolding child using False that chains [of i] m dad by (simp add: kids_step)
      qed
      show "n_sibling (?p2 ! j) = None" if "j < length pn0" "j < m \<or> dad pn0 j = None" for j
      proof -
        have "j \<noteq> ?l" using that l by auto
        then have "n_sibling (?p2 ! j) = n_sibling (pn ! j)" by (simp add: update_same [where g = n_sibling])
        then show ?thesis using inv that by (auto simp: linked_def)
      qed
    qed
    moreover have "adopt fuel pn m k = ok ?p2"
      using Some km l m len p1k walk by (simp add: adopt_def Let_def load_def)
    ultimately show ?thesis by blast
  qed
qed

lemma linked_skip: "linked pn0 (Suc m) pn \<Longrightarrow> m < length pn0 \<Longrightarrow> dad pn0 m = None \<Longrightarrow> linked pn0 m pn"
  by (simp add: linked_def kids_step)

lemma linked_node:
  assumes inv: "linked pn0 (Suc m) pn" and m: "m < length pn0" and fuel: "length pn0 \<le> fuel"
    and pp: "n_ppid (pn0 ! m) \<noteq> None"
  shows "\<exists>pn'. link_node fuel pn m = ok pn' \<and> linked pn0 m pn'"
proof -
  have fix0: "map fixed pn = map fixed pn0" using inv by (simp add: linked_def)
  then have len: "length pn = length pn0" by (metis length_map)
  obtain q where q: "n_ppid (pn ! m) = Some q" "n_ppid (pn0 ! m) = Some q"
    using pp fixed_nth [OF fix0 m] by (auto simp: fixed_def)
  have father: "find_father pn q m = Inr (dad pn0 m)"
    using m len q by (simp add: find_father_nearest dad_def nearest_fixed [OF fix0])
  show ?thesis
  proof (cases "dad pn0 m")
    case None
    with inv m q len father show ?thesis by (simp add: link_node_def load_def linked_skip)
  next
    case (Some k)
    with linked_adopt [OF inv m Some fuel] m q len father show ?thesis by (simp add: link_node_def load_def)
  qed
qed

lemma linked_all:
  assumes "linked pn0 m pn" and "m \<le> length pn0" and "length pn0 \<le> fuel" and "\<forall>x \<in> set pn0. n_ppid x \<noteq> None"
  shows "\<exists>pn'. link_all fuel pn m = ok pn' \<and> linked pn0 0 pn'"
  using assms
proof (induction m arbitrary: pn)
  case (Suc m)
  then obtain pn' where "link_node fuel pn m = ok pn'" "linked pn0 m pn'"
    using linked_node [of pn0 m pn fuel] by auto
  with Suc show ?case by simp
qed simp

section \<open>Trees\<close>

datatype ptree = P nat "ptree list"

text \<open>The tree of a node's descendants.\<close>

function tree_at :: "node list \<Rightarrow> nat \<Rightarrow> ptree" where
  "tree_at pn j = P j (map (tree_at pn) (kids pn 0 j))"
  by pat_completeness auto

termination
  by (relation "measure (\<lambda>(pn, j). length pn - j)") (auto dest: dad_less)

declare tree_at.simps [simp del]

fun tree_count :: "ptree list \<Rightarrow> nat" where
  "tree_count [] = 0"
| "tree_count (P j us # ts) = Suc (tree_count us + tree_count ts)"

text \<open>\<open>reps pn p ts\<close>: the pointer \<open>p\<close> stands for the trees \<open>ts\<close>.\<close>

fun reps :: "node list \<Rightarrow> nat option \<Rightarrow> ptree list \<Rightarrow> bool" where
  "reps pn p [] \<longleftrightarrow> p = None"
| "reps pn p (P j us # ts) \<longleftrightarrow> p = Some j \<and> j < length pn \<and> n_name (pn ! j) \<noteq> None \<and>
     reps pn (n_child (pn ! j)) us \<and> reps pn (n_sibling (pn ! j)) ts"

lemma chain_reps:
  assumes "chain pn p js" and "\<forall>j \<in> set js. n_name (pn ! j) \<noteq> None \<and> reps pn (n_child (pn ! j)) (map (tree_at pn0) (kids pn0 0 j))"
  shows "reps pn p (map (tree_at pn0) js)"
  using assms by (induction js arbitrary: p) (simp_all, simp add: tree_at.simps)

lemma kids_reps:
  assumes "\<forall>k < length pn0. chain pn (n_child (pn ! k)) (kids pn0 0 k)" and "\<forall>k < length pn0. n_name (pn ! k) \<noteq> None"
    and "j < length pn0"
  shows "reps pn (n_child (pn ! j)) (map (tree_at pn0) (kids pn0 0 j))"
  using assms(3)
proof (induction "length pn0 - j" arbitrary: j rule: less_induct)
  case less
  show ?case
  proof (rule chain_reps)
    show "chain pn (n_child (pn ! j)) (kids pn0 0 j)" using assms(1) less.prems by blast
    show "\<forall>i \<in> set (kids pn0 0 j). n_name (pn ! i) \<noteq> None \<and> reps pn (n_child (pn ! i)) (map (tree_at pn0) (kids pn0 0 i))"
    proof
      fix i assume "i \<in> set (kids pn0 0 j)"
      then have i: "i < length pn0" "j < i" using dad_less by auto
      with less.hyps [of i] assms(2) show
        "n_name (pn ! i) \<noteq> None \<and> reps pn (n_child (pn ! i)) (map (tree_at pn0) (kids pn0 0 i))" by simp
    qed
  qed
qed

section \<open>The walk over trees\<close>

text \<open>
  What the walk prints: for every node its indentation and its index; \<open>c\<close> is the counter, and \<open>two\<close> says
  which node is process 2.
\<close>

fun outline :: "(nat \<Rightarrow> bool) \<Rightarrow> nat \<Rightarrow> ptree list \<Rightarrow> (nat \<times> nat) list \<times> nat" where
  "outline two c [] = ([], c)"
| "outline two c (P j us # ts) =
     (let (below, c1) = (if us = [] then ([], c) else outline two (Suc c) us);
          c2 = (case ts of [] \<Rightarrow> c1 | P q _ # _ \<Rightarrow> if two q then 1 else c1);
          (behind, c3) = outline two c2 ts
      in ((c, j) # below @ behind, c3))"

definition tree_line :: "(nat \<Rightarrow> string) \<Rightarrow> nat \<times> nat \<Rightarrow> string" where
  "tree_line name l = dashes (fst l) @ name (snd l) @ [NL]"

text \<open>Arrays that differ in the \<open>space\<close> fields only, which is what the walk changes.\<close>

definition still :: "node list \<Rightarrow> node list \<Rightarrow> bool" where
  "still pn pn' \<longleftrightarrow> length pn' = length pn \<and> (\<forall>j. n_pid (pn' ! j) = n_pid (pn ! j) \<and> n_name (pn' ! j) = n_name (pn ! j) \<and>
     n_child (pn' ! j) = n_child (pn ! j) \<and> n_sibling (pn' ! j) = n_sibling (pn ! j))"

lemma still_refl [simp]: "still pn pn"
  by (simp add: still_def)

lemma still_trans: "still pn pn' \<Longrightarrow> still pn' pn'' \<Longrightarrow> still pn pn''"
  by (simp add: still_def)

lemma still_space: "still pn (set_space pn i s)"
  by (simp add: still_def set_space_def update_same [where g = n_pid] update_same [where g = n_name]
      update_same [where g = n_child] update_same [where g = n_sibling])

lemma reps_still: "reps pn p ts \<Longrightarrow> still pn pn' \<Longrightarrow> reps pn' p ts"
  by (induction pn p ts rule: reps.induct) (simp_all add: still_def)

lemma node_at_in [simp]: "i < length pn \<Longrightarrow> node_at pn i = Inr (pn ! i)"
  by (simp add: node_at_def)

lemma space_set [simp]: "i < length pn \<Longrightarrow> n_space (set_space pn i s ! i) = s"
  by (simp add: set_space_def)

definition twos :: "node list \<Rightarrow> nat \<Rightarrow> bool" where
  "twos pn j \<longleftrightarrow> n_pid (pn ! j) = 2"

definition names :: "node list \<Rightarrow> nat \<Rightarrow> string" where
  "names pn j = the (n_name (pn ! j))"

lemma still_twos: "still pn pn' \<Longrightarrow> twos pn' = twos pn" and still_names: "still pn pn' \<Longrightarrow> names pn' = names pn"
  by (auto simp: still_def twos_def names_def fun_eq_iff)

definition tree_lines :: "node list \<Rightarrow> (nat \<times> nat) list \<Rightarrow> string" where
  "tree_lines pn ls = concat (map (tree_line (names pn)) ls)"

lemma tree_lines_simps [simp]:
  "tree_lines pn [] = []" "tree_lines pn (l # ls) = tree_line (names pn) l @ tree_lines pn ls"
  "tree_lines pn (ls @ ls') = tree_lines pn ls @ tree_lines pn ls'"
  by (simp_all add: tree_lines_def)

lemma traversal_reps:
  assumes "reps pn (Some p) ts" and "n_space (pn ! p) = c" and "tree_count ts \<le> fuel"
    and "outline (twos pn) c ts = (ls, c')"
  shows "\<exists>pn'. traversal fuel pn c p = ok (tree_lines pn ls, pn', c') \<and> still pn pn'"
  using assms
proof (induction ts arbitrary: pn p c ls c' fuel rule: tree_count.induct)
  case (2 j us ts)
  then obtain n where n: "fuel = Suc n" "tree_count us \<le> n" "tree_count ts \<le> n" by (cases fuel) auto
  from 2 have j: "p = j" "j < length pn" "n_name (pn ! j) = Some (names pn j)"
    and us: "reps pn (n_child (pn ! j)) us" and ts: "reps pn (n_sibling (pn ! j)) ts"
    by (auto simp: names_def)
  let ?first = "case n_child (pn ! j) of None \<Rightarrow> ok ([], pn, c)
    | Some i \<Rightarrow> bindR (Some (node_at pn i)) (\<lambda>_. traversal n (set_space pn i (Suc c)) (Suc c) i)"
  obtain below c1 where below: "(if us = [] then ([], c) else outline (twos pn) (Suc c) us) = (below, c1)" by fastforce
  have "\<exists>pn1. ?first = ok (tree_lines pn below, pn1, c1) \<and> still pn pn1"
  proof (cases us)
    case Nil
    with us below show ?thesis by auto
  next
    case (Cons u us')
    obtain i where i: "n_child (pn ! j) = Some i" "i < length pn" using us Cons by (cases u) auto
    let ?q = "set_space pn i (Suc c)"
    have s: "still pn ?q" by (rule still_space)
    have "\<exists>pn1. traversal n ?q (Suc c) i = ok (tree_lines ?q below, pn1, c1) \<and> still ?q pn1"
      using us i below Cons n(2) reps_still [OF _ s]
      by (intro "2.IH"(1)) (simp_all add: still_twos [OF s])
    with i s still_trans show ?thesis by (force simp: tree_lines_def still_names [OF s])
  qed
  then obtain pn1 where first: "?first = ok (tree_lines pn below, pn1, c1)" and s1: "still pn pn1" by blast
  have j1: "j < length pn1" "n_sibling (pn1 ! j) = n_sibling (pn ! j)" using s1 j by (simp_all add: still_def)
  let ?line = "dashes (n_space (pn ! j)) @ names pn j @ [NL]"
  let ?c2 = "case ts of [] \<Rightarrow> c1 | P q _ # _ \<Rightarrow> if twos pn q then 1 else c1"
  obtain behind c3 where behind: "outline (twos pn) ?c2 ts = (behind, c3)" by fastforce
  have ls: "ls = (c, j) # below @ behind" "c' = c3"
    using "2.prems"(4) below behind by (simp_all add: Let_def)
  have line: "?line = tree_line (names pn) (c, j)" using "2.prems"(2) j by (simp add: tree_line_def)
  show ?case
  proof (cases ts)
    case Nil
    then have "n_sibling (pn1 ! j) = None" using ts j1 by simp
    then show ?thesis
      using Nil behind first j j1 s1 ls line n(1) by (simp add: Let_def)
  next
    case (Cons u ts')
    obtain q where q: "n_sibling (pn1 ! j) = Some q" "q < length pn" "?c2 = (if twos pn q then 1 else c1)"
      using ts Cons j1 by (cases u) auto
    have q1: "q < length pn1" "n_pid (pn1 ! q) = n_pid (pn ! q)" using q s1 by (simp_all add: still_def)
    let ?c = "if twos pn q then 1 else c1"
    let ?q = "set_space pn1 q ?c"
    have s: "still pn ?q" using s1 still_space still_trans by blast
    have "\<exists>pn2. traversal n ?q ?c q = ok (tree_lines ?q behind, pn2, c3) \<and> still ?q pn2"
      using ts Cons n(3) reps_still [OF ts s] q j1 q1 behind
      by (intro "2.IH"(2)) (simp_all add: still_twos [OF s])
    then obtain pn2 where "traversal n ?q ?c q = ok (tree_lines pn behind, pn2, c3)" "still ?q pn2"
      by (auto simp: tree_lines_def still_names [OF s])
    moreover from this s have "still pn pn2" using still_trans by blast
    ultimately show ?thesis
      using first j j1(1) q(1) q1 ls line n(1) by (simp add: Let_def twos_def)
  qed
qed simp

section \<open>The program\<close>

lemma nth_beyond: "length xs = length ys \<Longrightarrow> length xs \<le> j \<Longrightarrow> xs ! j = ys ! j"
proof (induction xs ys arbitrary: j rule: list_induct2)
  case (Cons x xs y ys)
  then show ?case by (cases j) auto
qed simp

lemma fixed_all: "map fixed pn = map fixed pn0 \<Longrightarrow> fixed (pn ! j) = fixed (pn0 ! j)"
  using fixed_nth [of pn pn0 j] nth_beyond [of pn pn0 j] by (metis length_map not_le)

definition node_of :: "(string \<Rightarrow> process) \<Rightarrow> string \<Rightarrow> node" where
  "node_of proc d = (new_node (atoi d))\<lparr>n_name := Some (pr_name (proc d)), n_ppid := Some (int (pr_ppid (proc d)))\<rparr>"

lemma node_of_simps [simp]:
  "n_pid (node_of proc d) = atoi d" "n_ppid (node_of proc d) = Some (int (pr_ppid (proc d)))"
  "n_name (node_of proc d) = Some (pr_name (proc d))" "n_child (node_of proc d) = None"
  "n_sibling (node_of proc d) = None" "n_space (node_of proc d) = 1"
  by (simp_all add: node_of_def new_node_def)

lemma scan_node_name:
  assumes "wf_entry e" and "e_key e = ''Name:''" and "length (e_word e) < 100"
  shows "scan_node x \<lparr>rest = entry_line e @ r, ateof = a\<rparr> = scan_node (x\<lparr>n_name := Some (e_word e)\<rparr>) \<lparr>rest = r, ateof = a\<rparr>"
  using entry_word [OF assms(1)] assms(2,3)
  by (subst scan_node.simps) (simp add: entry_getline [OF assms(1)] entry_key [OF assms(1)] read_keys_def)

lemma scan_node_parent:
  assumes "wf_entry e" and "e_key e = ''PPid:''"
  shows "scan_node x \<lparr>rest = entry_line e @ r, ateof = a\<rparr> = Inr (x\<lparr>n_ppid := Some (atoi (e_word e))\<rparr>)"
  using entry_word [OF assms(1)] assms(2)
  by (subst scan_node.simps) (simp add: entry_getline [OF assms(1)] entry_key [OF assms(1)] read_keys_def)

lemma scan_node_skip:
  assumes "wf_entry e" and "e_key e \<notin> {''Name:'', ''PPid:''}"
  shows "scan_node x \<lparr>rest = entry_line e @ r, ateof = a\<rparr> = scan_node x \<lparr>rest = r, ateof = a\<rparr>"
  using assms(2)
  by (subst scan_node.simps) (simp add: entry_getline [OF assms(1)] entry_key [OF assms(1)])

lemma scan_node_others:
  "other_entries es \<Longrightarrow> scan_node x \<lparr>rest = status_text es @ r, ateof = a\<rparr> = scan_node x \<lparr>rest = r, ateof = a\<rparr>"
  by (induction es) (simp_all add: other_entries_def scan_node_skip read_keys_def)

lemma status_text_append: "status_text (es @ es') = status_text es @ status_text es'"
  by (simp add: status_text_def)

lemma scan_node_process:
  assumes "wf_process p"
  shows "scan_node x (fopen_stream (status_text (status_entries p))) =
    Inr (x\<lparr>n_name := Some (pr_name p), n_ppid := Some (int (pr_ppid p))\<rparr>)"
proof -
  let ?pid = "\<lparr>e_key = ''Pid:'', e_word = dec_nat (pr_pid p), e_tail = []\<rparr>"
  let ?ppid = "\<lparr>e_key = ''PPid:'', e_word = dec_nat (pr_ppid p), e_tail = []\<rparr>"
  have wf: "wf_entry ?pid" "wf_entry ?ppid"
    using status_entries_wf [OF assms] by (simp_all add: status_entries_def)
  have "atoi (dec_nat (pr_ppid p) @ []) = int (pr_ppid p)"
    using assms by (intro atoi_dec_nat) (simp_all add: wf_process_def)
  then show ?thesis
    using assms wf unfolding fopen_stream_def status_entries_def
    by (simp add: scan_node_name status_text_append wf_process_def scan_node_others scan_node_skip scan_node_parent)
qed

lemma read_nodes_shown:
  assumes "\<forall>d \<in> set (filter (\<lambda>d. atoi d \<noteq> 0) ds). proc_shows proc files d"
  shows "read_nodes files pn ds = Inr (Some (pn @ map (node_of proc) (filter (\<lambda>d. atoi d \<noteq> 0) ds)))"
  using assms
proof (induction ds arbitrary: pn)
  case (Cons d ds)
  show ?case
  proof (cases "atoi d = 0")
    case True
    with Cons show ?thesis by simp
  next
    case False
    with Cons.prems have d: "nul_free d" "length d \<le> 86" "wf_process (proc d)"
      "files (''/proc/'' @ d @ ''/status'') = Some (status_text (status_entries (proc d)))"
      by (simp_all add: proc_shows_def)
    with False Cons show ?thesis by (simp add: status_path_bind scan_node_process) (simp add: node_of_def)
  qed
qed simp

text \<open>The array when the walk begins: the node of the first process has the second as its sibling.\<close>

lemma linked_walk:
  assumes inv: "linked pn0 0 pn" and n: "2 \<le> length pn0" and named: "\<forall>k < length pn0. n_name (pn0 ! k) \<noteq> None"
    and space: "n_space (pn0 ! 0) = 1" and fuel: "tree_count [tree_at pn0 0, tree_at pn0 1] \<le> fuel"
  shows "\<exists>pn'. traversal fuel (pn[0 := (pn ! 0)\<lparr>n_sibling := Some 1\<rparr>]) 1 0 =
    ok (tree_lines pn0 (fst (outline (twos pn0) 1 [tree_at pn0 0, tree_at pn0 1])), pn',
        snd (outline (twos pn0) 1 [tree_at pn0 0, tree_at pn0 1]))"
proof -
  let ?pn = "pn[0 := (pn ! 0)\<lparr>n_sibling := Some 1\<rparr>]"
  have fix0: "map fixed pn = map fixed pn0" using inv by (simp add: linked_def)
  then have len: "length pn = length pn0" by (metis length_map)
  have same: "n_pid (?pn ! j) = n_pid (pn0 ! j)" "n_name (?pn ! j) = n_name (pn0 ! j)" "n_space (?pn ! j) = n_space (pn0 ! j)"
    "n_child (?pn ! j) = n_child (pn ! j)" for j
    using fixed_all [OF fix0, of j]
    by (simp_all add: fixed_def update_same [where g = n_pid] update_same [where g = n_name]
        update_same [where g = n_space] update_same [where g = n_child])
  have chains: "chain ?pn (n_child (?pn ! k)) (kids pn0 0 k)" if "k < length pn0" for k
  proof -
    have "0 \<notin> set (kids pn0 0 k)" using dad_less [of pn0 0] by auto
    then show ?thesis using inv that same(4) [of k] by (simp add: linked_def chain_frame)
  qed
  have below: "reps ?pn (n_child (?pn ! j)) (map (tree_at pn0) (kids pn0 0 j))" if "j < length pn0" for j
    using chains named same(2) that by (intro kids_reps) auto
  have "n_sibling (pn ! 1) = None"
  proof (cases "dad pn0 1")
    case None
    with inv n show ?thesis by (simp add: linked_def)
  next
    case (Some k)
    then have k: "dad pn0 1 = Some 0" "dad pn0 0 = None" using dad_less [of pn0 1 k] by (auto simp: dad_def)
    have "kids pn0 0 0 = kids pn0 2 0 @ [1]"
    proof -
      have "0 < length pn0" "1 < length pn0" using n by linarith+
      from kids_step [OF this(1), of 0] kids_step [OF this(2), of 0] k show ?thesis by (simp add: numeral_2_eq_2)
    qed
    moreover have "0 < length pn0" using n by linarith
    ultimately have "chain pn (n_child (pn ! 0)) (kids pn0 2 0 @ [1])" using inv by (metis linked_def)
    then show ?thesis by (rule chain_snoc_None)
  qed
  then have sib: "n_sibling (?pn ! 1) = None" by simp
  have l: "0 < length pn0" "1 < length pn0" using n by linarith+
  then have sib0: "n_sibling (?pn ! 0) = Some 1" using len by simp
  have "reps ?pn (Some 1) [tree_at pn0 1]"
    unfolding tree_at.simps [of pn0 1] using below [OF l(2)] l len named same(2) [of 1] sib by simp
  then have "reps ?pn (Some 0) [tree_at pn0 0, tree_at pn0 1]"
    unfolding tree_at.simps [of pn0 0] using below [OF l(1)] l len named same(2) [of 0] sib0 by simp
  moreover have "twos ?pn = twos pn0" "names ?pn = names pn0"
    unfolding fun_eq_iff twos_def names_def same by simp_all
  then have "twos ?pn = twos pn0" "tree_lines ?pn ls = tree_lines pn0 ls" for ls
    unfolding tree_lines_def by metis+
  ultimately show ?thesis
    using traversal_reps [of ?pn 0 "[tree_at pn0 0, tree_at pn0 1]" 1 fuel] space fuel same(3) [of 0]
    by (metis prod.collapse)
qed

definition nodes_of :: "(string \<Rightarrow> process) \<Rightarrow> string list \<Rightarrow> node list" where
  "nodes_of proc ds = map (node_of proc) (filter (\<lambda>d. atoi d \<noteq> 0) ds)"

text \<open>What the walk starts from: the descendants of the first process, and those of the second.\<close>

definition roots :: "node list \<Rightarrow> ptree list" where
  "roots pn = [tree_at pn 0, tree_at pn 1]"

lemma linked_start:
  assumes "\<forall>x \<in> set pn. n_child x = None \<and> n_sibling x = None"
  shows "linked pn (length pn) pn"
  using assms by (simp add: linked_def kids_def)

text \<open>A walk that starts with fewer than two nodes reads a node that has never been filled.\<close>

lemma walk_unset:
  assumes "linked pn0 0 pn" and "length pn0 < 2" and "\<forall>k < length pn0. n_name (pn0 ! k) \<noteq> None" and "2 \<le> fuel"
  shows "traversal fuel (if pn = [] then [] else pn[0 := (pn ! 0)\<lparr>n_sibling := Some 1\<rparr>]) 1 0 = Some (Inl Uninitialised)"
proof -
  obtain n where n: "fuel = Suc n" using assms(4) by (cases fuel) auto
  have fixed: "map fixed pn = map fixed pn0" using assms(1) by (simp add: linked_def)
  then have len: "length pn = length pn0" by (metis length_map)
  show ?thesis
  proof (cases pn)
    case Nil
    then show ?thesis by (simp add: n node_at_def)
  next
    case (Cons x xs)
    then have one: "length pn0 = Suc 0" "pn = [x]" using len assms(2) Cons by (cases xs; simp)+
    have "n_name x \<noteq> None" using fixed_all [OF fixed, of 0] assms(3) one by (simp add: fixed_def)
    moreover have "kids pn0 0 0 = []" using dad_less [of pn0 0 0] by (auto simp: kids_def one(1))
    then have "n_child x = None" using assms(1) one by (simp add: linked_def)
    ultimately show ?thesis by (auto simp: n one(2) node_at_def)
  qed
qed

lemma tree_printed:
  assumes "\<forall>d \<in> set (filter (\<lambda>d. atoi d \<noteq> 0) ds). proc_shows proc files d"
    and "length (nodes_of proc ds) + tree_count (roots (nodes_of proc ds)) \<le> fuel"
  shows "part2_main fuel (Some ds) files =
    (if 2 \<le> length (nodes_of proc ds)
     then ok (0, ''init'' @ NL # tree_lines (nodes_of proc ds)
             (fst (outline (twos (nodes_of proc ds)) 1 (roots (nodes_of proc ds)))))
     else Some (Inl Uninitialised))"
proof -
  let ?pn = "nodes_of proc ds"
  have read: "read_nodes files [] ds = Inr (Some ?pn)"
    using read_nodes_shown [OF assms(1), of "[]"] by (simp add: nodes_of_def)
  have fresh: "\<forall>x \<in> set ?pn. n_child x = None \<and> n_sibling x = None \<and> n_ppid x \<noteq> None \<and> n_name x \<noteq> None \<and> n_space x = 1"
    by (auto simp: nodes_of_def)
  obtain pn where pn: "link_all fuel ?pn (length ?pn) = ok pn" "linked ?pn 0 pn"
    using linked_all [of ?pn "length ?pn" ?pn fuel] linked_start fresh assms(2) by auto
  have named: "\<forall>k < length ?pn. n_name (?pn ! k) \<noteq> None"
  proof -
    have "?pn ! k \<in> set ?pn" if "k < length ?pn" for k using that by simp
    with fresh show ?thesis by blast
  qed
  show ?thesis
  proof (cases "2 \<le> length ?pn")
    case False
    have "2 \<le> fuel" using assms(2) by (simp add: roots_def tree_at.simps [of ?pn])
    with walk_unset [OF pn(2) _ named] False read pn(1) show ?thesis by (auto simp: part2_main_def Let_def)
  next
  case two: True
  have ne: "pn \<noteq> []" using pn(2) two by (auto simp: linked_def)
  have "\<exists>pn'. traversal fuel (pn[0 := (pn ! 0)\<lparr>n_sibling := Some 1\<rparr>]) 1 0 =
      ok (tree_lines ?pn (fst (outline (twos ?pn) 1 (roots ?pn))), pn', snd (outline (twos ?pn) 1 (roots ?pn)))"
    unfolding roots_def
  proof (rule linked_walk [OF pn(2) two named])
    have "?pn ! 0 \<in> set ?pn" using two by (intro nth_mem) linarith
    with fresh show "n_space (?pn ! 0) = 1" by blast
    show "tree_count [tree_at ?pn 0, tree_at ?pn 1] \<le> fuel" using assms(2) by (simp add: roots_def)
  qed
  with read pn(1) ne two show ?thesis by (auto simp: part2_main_def Let_def)
  qed
qed

text \<open>
  C11: The program links the nodes of the processes that \<open>/proc\<close> shows, ends, and prints the descendants of the
  first process and those of the second, as \<open>outline\<close> orders and indents them; when there are fewer than two
  processes, as for a program alone in a container, it reads a node it has never filled.  The status files can
  be opened and have the kernel's form: the name, its first word of fewer than 50 bytes, before the parent.
\<close>

theorem process_tree:
  assumes "\<forall>d \<in> set (filter (\<lambda>d. atoi d \<noteq> 0) ds). proc_shows proc files d"
    and "length (nodes_of proc ds) + tree_count (roots (nodes_of proc ds)) \<le> fuel"
  shows "part2_main fuel (Some ds) files =
    (if 2 \<le> length (nodes_of proc ds)
     then ok (0, ''init'' @ NL # tree_lines (nodes_of proc ds)
             (fst (outline (twos (nodes_of proc ds)) 1 (roots (nodes_of proc ds)))))
     else Some (Inl Uninitialised))"
  by (rule tree_printed [OF assms])

section \<open>The indentation\<close>

text \<open>The nodes in the order of the walk, with their depth and whether they have children.\<close>

fun preorder :: "nat \<Rightarrow> ptree list \<Rightarrow> (nat \<times> nat \<times> bool) list" where
  "preorder d [] = []"
| "preorder d (P j us # ts) = (j, d, us \<noteq> []) # preorder (Suc d) us @ preorder d ts"

text \<open>Every line is indented by a counter that goes up behind every node with children.\<close>

fun counted :: "nat \<Rightarrow> (nat \<times> nat \<times> bool) list \<Rightarrow> (nat \<times> nat) list" where
  "counted c [] = []"
| "counted c ((j, d, inner) # xs) = (c, j) # counted (if inner then Suc c else c) xs"

definition inner_count :: "(nat \<times> nat \<times> bool) list \<Rightarrow> nat" where
  "inner_count xs = length (filter (\<lambda>(j, d, inner). inner) xs)"

lemma inner_count_simps [simp]:
  "inner_count [] = 0" "inner_count ((j, d, inner) # xs) = (if inner then Suc (inner_count xs) else inner_count xs)"
  "inner_count (xs @ ys) = inner_count xs + inner_count ys"
  by (simp_all add: inner_count_def)

lemma counted_append: "counted c (xs @ ys) = counted c xs @ counted (c + inner_count xs) ys"
  by (induction c xs rule: counted.induct) auto

lemma outline_counted:
  assumes "\<forall>l \<in> set (preorder d ts). \<not> two (fst l)"
  shows "outline two c ts = (counted c (preorder d ts), c + inner_count (preorder d ts))"
  using assms
proof (induction two c ts arbitrary: d rule: outline.induct)
  case (2 two c j us ts)
  obtain below c1 where below: "(if us = [] then ([], c) else outline two (Suc c) us) = (below, c1)" by fastforce
  have b: "below = counted (if us = [] then c else Suc c) (preorder (Suc d) us)"
    "c1 = (if us = [] then c else Suc c) + inner_count (preorder (Suc d) us)"
    using below "2.IH"(1) [of "Suc d"] "2.prems" by (auto split: if_splits)
  have c2: "(case ts of [] \<Rightarrow> c1 | P q _ # _ \<Rightarrow> if two q then 1 else c1) = c1"
    using "2.prems" by (cases ts rule: tree_count.cases) auto
  have "outline two c1 ts = (counted c1 (preorder d ts), c1 + inner_count (preorder d ts))"
    using "2.IH"(2) [OF below [symmetric] refl refl, of d] "2.prems" c2 by auto
  then have "outline two c (P j us # ts) = ((c, j) # below @ counted c1 (preorder d ts), c1 + inner_count (preorder d ts))"
    by (simp only: outline.simps Let_def below c2 prod.case)
  with b show ?case by (cases "us = []") (simp_all add: counted_append)
qed simp


lemma tree_dads:
  assumes "l \<in> set (preorder d [tree_at pn j])"
  shows "fst l = j \<or> fst l < length pn \<and> dad pn (fst l) \<noteq> None"
  using assms
proof (induction "length pn - j" arbitrary: j d rule: less_induct)
  case less
  have kids: "\<exists>i \<in> set js. l \<in> set (preorder e [tree_at pn i])" if "l \<in> set (preorder e (map (tree_at pn) js))" for e js
    using that by (induction js) (auto simp: tree_at.simps)
  consider "fst l = j" | i where "i \<in> set (kids pn 0 j)" "l \<in> set (preorder (Suc d) [tree_at pn i])"
    using less.prems by (auto simp: tree_at.simps [of pn j] simp del: kids_set dest!: kids)
  then show ?case
  proof cases
    case 2
    then have "length pn - i < length pn - j" using dad_less [of pn i j] by (simp add: diff_less_mono2)
    from less.hyps [OF this 2(2)] 2(1) show ?thesis by auto
  qed simp
qed

lemma outline_root:
  assumes "dad pn 1 = None" and "\<forall>i < length pn. n_pid (pn ! i) = 2 \<longrightarrow> i = 1"
  shows "fst (outline (twos pn) 1 [tree_at pn j]) = counted 1 (preorder d [tree_at pn j])"
proof -
  let ?us = "map (tree_at pn) (kids pn 0 j)"
  have "\<not> twos pn (fst l)" if "l \<in> set (preorder (Suc d) ?us)" for l
  proof -
    have "\<exists>i e. i \<in> set js \<and> l \<in> set (preorder e [tree_at pn i])" if "l \<in> set (preorder e (map (tree_at pn) js))" for e js
      using that by (induction js) (auto simp: tree_at.simps)
    from this [OF that] obtain i e where "i \<in> set (kids pn 0 j)" "l \<in> set (preorder e [tree_at pn i])" by blast
    then have "fst l < length pn \<and> dad pn (fst l) \<noteq> None" using tree_dads [of l e pn i] by auto
    with assms show ?thesis by (auto simp: twos_def)
  qed
  then have "outline (twos pn) 2 ?us = (counted 2 (preorder (Suc d) ?us), 2 + inner_count (preorder (Suc d) ?us))"
    by (intro outline_counted) blast
  then show ?thesis by (simp add: tree_at.simps [of pn j] Let_def numeral_2_eq_2 split: prod.split)
qed

lemma outline_two:
  "two q \<Longrightarrow> fst (outline two c [P j us, P q vs]) = fst (outline two c [P j us]) @ fst (outline two 1 [P q vs])"
  by (simp add: Let_def split: prod.split)

text \<open>Siblings of which only the last has children, in every generation.\<close>

fun only_last :: "ptree list \<Rightarrow> bool" where
  "only_last [] \<longleftrightarrow> True"
| "only_last (P j us # ts) \<longleftrightarrow> (us \<noteq> [] \<longrightarrow> ts = []) \<and> only_last us \<and> only_last ts"

definition depths :: "(nat \<times> nat \<times> bool) list \<Rightarrow> nat list" where
  "depths xs = map (\<lambda>(j, d, inner). d) xs"

lemma depths_simps [simp]:
  "depths [] = []" "depths ((j, d, inner) # xs) = d # depths xs" "depths (xs @ ys) = depths xs @ depths ys"
  by (simp_all add: depths_def)

lemma length_counted [simp]: "length (counted c xs) = length xs"
  by (induction c xs rule: counted.induct) auto

lemma length_depths [simp]: "length (depths xs) = length xs"
  by (simp add: depths_def)

lemma counted_depths: "map fst (counted d (preorder d ts)) = depths (preorder d ts) \<longleftrightarrow> only_last ts"
proof (induction ts arbitrary: d rule: only_last.induct)
  case (2 j us ts)
  show ?case
  proof (cases "us = []")
    case True
    with 2 show ?thesis by simp
  next
    case False
    show ?thesis
    proof (cases ts rule: tree_count.cases)
      case 1
      with False 2 show ?thesis by simp
    next
      case (2 i vs us')
      then have "map fst (counted (Suc d + k) (preorder d ts)) \<noteq> depths (preorder d ts)" for k by simp
      with False \<open>ts = P i vs # us'\<close> show ?thesis by (simp add: counted_append)
    qed
  qed
qed simp

lemma preorder_append: "preorder d (ts @ us) = preorder d ts @ preorder d us"
  by (induction d ts rule: preorder.induct) auto

lemma outline_order: "map snd (fst (outline two c ts)) = map fst (preorder d ts)"
proof (induction two c ts arbitrary: d rule: outline.induct)
  case (2 two c j us ts)
  obtain below c1 where below: "(if us = [] then ([], c) else outline two (Suc c) us) = (below, c1)" by fastforce
  have "map snd below = map fst (preorder (Suc d) us)"
    using below "2.IH"(1) [of "Suc d"] by (auto split: if_splits)
  moreover obtain behind c3 where behind: "outline two (case ts of [] \<Rightarrow> c1 | P q _ # _ \<Rightarrow> if two q then 1 else c1) ts = (behind, c3)"
    by fastforce
  moreover have "map snd behind = map fst (preorder d ts)"
    using "2.IH"(2) [OF below [symmetric] refl refl, of d] behind by simp
  ultimately show ?case by (simp add: Let_def below)
qed simp

lemma counter_is_depth:
  assumes "n_pid (pn ! 1) = 2" and "dad pn 1 = None" and "\<forall>i < length pn. n_pid (pn ! i) = 2 \<longrightarrow> i = 1"
  shows "map fst (fst (outline (twos pn) 1 (roots pn))) = depths (preorder 1 (roots pn)) \<longleftrightarrow>
    only_last [tree_at pn 0] \<and> only_last [tree_at pn 1]"
proof -
  have "twos pn 1" using assms(1) by (simp add: twos_def)
  then have "fst (outline (twos pn) 1 (roots pn)) =
      fst (outline (twos pn) 1 [tree_at pn 0]) @ fst (outline (twos pn) 1 [tree_at pn 1])"
    unfolding roots_def tree_at.simps [of pn 0] tree_at.simps [of pn 1] by (rule outline_two)
  moreover have "preorder 1 (roots pn) = preorder 1 [tree_at pn 0] @ preorder 1 [tree_at pn 1]"
    using preorder_append [of 1 "[tree_at pn 0]" "[tree_at pn 1]"] by (simp add: roots_def)
  ultimately show ?thesis
    using outline_root [OF assms(2,3), of 0 1] outline_root [OF assms(2,3), of 1 1]
      counted_depths [of 1 "[tree_at pn 0]"] counted_depths [of 1 "[tree_at pn 1]"] by simp
qed

text \<open>Lines without a newline in them can be told from their text.\<close>

lemma lines_inj:
  assumes "length xs = length ys" and "\<forall>x \<in> set xs \<union> set ys. NL \<notin> set x"
    and "concat (map (\<lambda>x. x @ [NL]) xs) = concat (map (\<lambda>x. x @ [NL]) ys)"
  shows "xs = ys"
  using assms
proof (induction xs ys rule: list_induct2)
  case (Cons x xs y ys)
  have split: "takeWhile (\<lambda>c. c \<noteq> NL) (z @ NL # r) = z" if "NL \<notin> set z" for z r
    using that by (induction z) auto
  have "x @ NL # concat (map (\<lambda>x. x @ [NL]) xs) = y @ NL # concat (map (\<lambda>x. x @ [NL]) ys)" using Cons.prems(2) by simp
  moreover from arg_cong [OF this, of "takeWhile (\<lambda>c. c \<noteq> NL)"] have "x = y" using split Cons.prems(1) by simp
  ultimately show ?case using Cons by simp
qed simp

text \<open>The tree with every process indented by its depth.\<close>

definition by_depth :: "node list \<Rightarrow> (nat \<times> nat) list" where
  "by_depth pn = map (\<lambda>(j, d, inner). (d, j)) (preorder 1 (roots pn))"

lemma by_depth_parts: "map fst (by_depth pn) = depths (preorder 1 (roots pn)) \<and>
    map snd (by_depth pn) = map fst (preorder 1 (roots pn))"
  by (auto simp: by_depth_def depths_def)

lemma tree_lines_inj:
  assumes "map snd ls = map snd ls'" and "\<forall>l \<in> set ls. NL \<notin> set (names pn (snd l))"
  shows "tree_lines pn ls = tree_lines pn ls' \<longleftrightarrow> map fst ls = map fst ls'"
proof
  let ?line = "\<lambda>l. dashes (fst l) @ names pn (snd l)"
  have dashes: "NL \<notin> set (dashes n)" "length (dashes n) = 2 * n" for n by (induction n) (simp_all add: dashes_def)
  have "set (map snd ls) = set (map snd ls')" using assms(1) by simp
  with assms(2) have "\<forall>l \<in> set ls'. NL \<notin> set (names pn (snd l))" by (metis (no_types, lifting) imageE image_eqI set_map)
  moreover have len: "length ls = length ls'" using assms(1) by (metis length_map)
  moreover assume "tree_lines pn ls = tree_lines pn ls'"
  ultimately have "map ?line ls = map ?line ls'"
    using assms(2) dashes(1) by (intro lines_inj) (auto simp: tree_lines_def comp_def tree_line_def [abs_def])
  with len assms(1) show "map fst ls = map fst ls'"
  proof (induction ls ls' rule: list_induct2)
    case (Cons l ls l' ls')
    then have "length (dashes (fst l)) = length (dashes (fst l'))" by simp
    then have "fst l = fst l'" by (simp add: dashes(2))
    with Cons show ?case by simp
  qed simp
next
  assume "map fst ls = map fst ls'"
  with assms(1) have "ls = ls'" by (metis zip_map_fst_snd)
  then show "tree_lines pn ls = tree_lines pn ls'" by simp
qed

lemma preorder_nodes:
  assumes "l \<in> set (preorder d (roots pn))"
  shows "fst l = 0 \<or> fst l = 1 \<or> fst l < length pn"
  using assms tree_dads [of l d pn 0] tree_dads [of l d pn 1]
    preorder_append [of d "[tree_at pn 0]" "[tree_at pn 1]"] by (auto simp: roots_def)

text \<open>
  C33: On a system whose second listed process is process 2, no child of the first, the program prints the
  processes in preorder, and indents each of them by its depth in the tree exactly when, among siblings, only
  the last one printed has children: the counter is never taken back behind a subtree.
\<close>

theorem indentation_is_depth:
  assumes "\<forall>d \<in> set (filter (\<lambda>d. atoi d \<noteq> 0) ds). proc_shows proc files d"
    and "length (nodes_of proc ds) + tree_count (roots (nodes_of proc ds)) \<le> fuel"
    and "2 \<le> length (nodes_of proc ds)" and "n_pid (nodes_of proc ds ! 1) = 2" and "dad (nodes_of proc ds) 1 = None"
    and "\<forall>i < length (nodes_of proc ds). n_pid (nodes_of proc ds ! i) = 2 \<longrightarrow> i = 1"
  shows "\<exists>ls. part2_main fuel (Some ds) files = ok (0, ''init'' @ NL # tree_lines (nodes_of proc ds) ls) \<and>
    map snd ls = map snd (by_depth (nodes_of proc ds)) \<and>
    (part2_main fuel (Some ds) files = ok (0, ''init'' @ NL # tree_lines (nodes_of proc ds) (by_depth (nodes_of proc ds))) \<longleftrightarrow>
      only_last [tree_at (nodes_of proc ds) 0] \<and> only_last [tree_at (nodes_of proc ds) 1])"
proof -
  let ?pn = "nodes_of proc ds"
  let ?ls = "fst (outline (twos ?pn) 1 (roots ?pn))"
  have out: "part2_main fuel (Some ds) files = ok (0, ''init'' @ NL # tree_lines ?pn ?ls)"
    using tree_printed [OF assms(1,2)] assms(3) by simp
  have order: "map snd ?ls = map snd (by_depth ?pn)" using outline_order by_depth_parts by metis
  have "NL \<notin> set (names ?pn j)" if "j < length ?pn" for j
  proof -
    have "?pn ! j \<in> set ?pn" using that by simp
    then obtain d where "proc_shows proc files d" "?pn ! j = node_of proc d" using assms(1) by (auto simp: nodes_of_def)
    then show ?thesis by (auto simp: names_def proc_shows_def wf_process_def no_blank_def)
  qed
  moreover have "snd l < length ?pn" if "l \<in> set ?ls" for l
  proof -
    have "snd l \<in> set (map fst (preorder 1 (roots ?pn)))" using that outline_order by (metis image_eqI set_map)
    with preorder_nodes [of _ 1 ?pn] assms(3) show ?thesis by fastforce
  qed
  ultimately have "tree_lines ?pn ?ls = tree_lines ?pn (by_depth ?pn) \<longleftrightarrow> map fst ?ls = map fst (by_depth ?pn)"
    by (intro tree_lines_inj order) blast
  with out order counter_is_depth [OF assms(4-6)] by_depth_parts show ?thesis by auto
qed

text \<open>
  When the second process is a child of the first, as in a container, it is printed twice: the walk
  reaches it as a child and as the sibling the program gives the first node.
\<close>

theorem child_listed_twice:
  assumes "1 < length pn" and "dad pn 1 = Some 0"
  shows "2 \<le> count_list (map snd (fst (outline (twos pn) 1 (roots pn)))) 1"
proof -
  have "1 \<in> set (kids pn 0 0)" using assms by simp
  then obtain xs ys where "kids pn 0 0 = xs @ 1 # ys" by (meson split_list)
  moreover have "count_list (map fst (preorder d [tree_at pn 1])) 1 \<ge> 1" for d by (simp add: tree_at.simps)
  ultimately have "count_list (map fst (preorder d [tree_at pn 0])) 1 \<ge> 1" for d
    by (simp add: tree_at.simps [of pn 0] tree_at.simps [of pn "Suc 0"] preorder_append)
  moreover have "count_list (map fst (preorder 1 (roots pn))) 1 =
      count_list (map fst (preorder 1 [tree_at pn 0])) 1 + count_list (map fst (preorder 1 [tree_at pn 1])) 1"
    using preorder_append [of 1 "[tree_at pn 0]" "[tree_at pn 1]"] by (simp add: roots_def)
  moreover have "count_list (map fst (preorder 1 [tree_at pn 1])) 1 \<ge> 1" by (simp add: tree_at.simps)
  ultimately show ?thesis unfolding outline_order [of _ _ _ 1] by (metis add_mono one_add_one)
qed

text \<open>Nodes of the processes with the given numbers and parents.\<close>

definition sample :: "(int \<times> int) list \<Rightarrow> node list" where
  "sample = map (\<lambda>(p, q). (new_node p)\<lparr>n_name := Some ''sh'', n_ppid := Some q\<rparr>)"

theorem child_listed_twice_witness:
  "2 \<le> count_list (map snd (fst (outline (twos (sample [(1, 0), (7, 1)])) 1 (roots (sample [(1, 0), (7, 1)]))))) 1"
  by (rule child_listed_twice) code_simp+

definition parent_process :: "string \<Rightarrow> process" where
  "parent_process d = (shell_process 9 0)\<lparr>pr_ppid := (if d = ''3'' then 1 else 0)\<rparr>"

theorem process_tree_witness:
  "part2_main 10 (Some [''.'', ''1'', ''2'', ''3''])
     (\<lambda>path. if path = ''/proc/1/status'' then Some (status_text (status_entries (parent_process ''1'')))
       else if path = ''/proc/2/status'' then Some (status_text (status_entries (parent_process ''2'')))
       else Some (status_text (status_entries (parent_process ''3'')))) =
   ok (0, ''init'' @ NL # ''--sh'' @ NL # ''----sh'' @ NL # ''--sh'' @ [NL])"
proof -
  have n: "atoi ''1'' = 1" "atoi ''2'' = 2" "atoi ''3'' = 3" "atoi ''.'' = 0" by code_simp+
  have wf: "wf_process (parent_process d)" for d
    using wf_shell_process [of 9 0] by (simp add: wf_process_def parent_process_def shell_process_def INT_MAX_def)
  let ?ds = "[''.'', ''1'', ''2'', ''3'']"
  let ?files = "\<lambda>path. if path = ''/proc/1/status'' then Some (status_text (status_entries (parent_process ''1'')))
       else if path = ''/proc/2/status'' then Some (status_text (status_entries (parent_process ''2'')))
       else Some (status_text (status_entries (parent_process ''3'')))"
  have two: "2 \<le> length (nodes_of parent_process ?ds)" by (simp add: nodes_of_def n)
  have "part2_main 10 (Some ?ds) ?files =
    (if 2 \<le> length (nodes_of parent_process ?ds) then ok (0, ''init'' @ NL # tree_lines (nodes_of parent_process ?ds)
             (fst (outline (twos (nodes_of parent_process ?ds)) 1 (roots (nodes_of parent_process ?ds))))) else Some (Inl Uninitialised))"
  proof (rule process_tree)
    show "\<forall>d \<in> set (filter (\<lambda>d. atoi d \<noteq> 0) ?ds). proc_shows parent_process ?files d"
      by (simp add: n proc_shows_def wf)
    show "length (nodes_of parent_process ?ds) + tree_count (roots (nodes_of parent_process ?ds)) \<le> 10" by code_simp
  qed
  moreover have "tree_lines (nodes_of parent_process ?ds)
      (fst (outline (twos (nodes_of parent_process ?ds)) 1 (roots (nodes_of parent_process ?ds)))) =
      ''--sh'' @ NL # ''----sh'' @ NL # ''--sh'' @ [NL]" by code_simp
  ultimately show ?thesis using two by simp
qed

theorem indentation_is_depth_witness:
  "\<exists>ls. part2_main 10 (Some [''1'', ''2'', ''3''])
     (\<lambda>path. if path = ''/proc/1/status'' then Some (status_text (status_entries (parent_process ''1'')))
       else if path = ''/proc/2/status'' then Some (status_text (status_entries (parent_process ''2'')))
       else Some (status_text (status_entries (parent_process ''3'')))) =
   ok (0, ''init'' @ NL # tree_lines (nodes_of parent_process [''1'', ''2'', ''3'']) ls) \<and>
   map snd ls = [0, 2, 1]"
proof -
  have n: "atoi ''1'' = 1" "atoi ''2'' = 2" "atoi ''3'' = 3" by code_simp+
  have wf: "wf_process (parent_process d)" for d
    using wf_shell_process [of 9 0] by (simp add: wf_process_def parent_process_def shell_process_def INT_MAX_def)
  let ?ds = "[''1'', ''2'', ''3'']"
  let ?files = "\<lambda>path. if path = ''/proc/1/status'' then Some (status_text (status_entries (parent_process ''1'')))
       else if path = ''/proc/2/status'' then Some (status_text (status_entries (parent_process ''2'')))
       else Some (status_text (status_entries (parent_process ''3'')))"
  have shown: "\<forall>d \<in> set (filter (\<lambda>d. atoi d \<noteq> 0) ?ds). proc_shows parent_process ?files d"
    by (simp add: n proc_shows_def wf)
  have fuel: "length (nodes_of parent_process ?ds) + tree_count (roots (nodes_of parent_process ?ds)) \<le> 10" by code_simp
  have nodes: "2 \<le> length (nodes_of parent_process ?ds)" "n_pid (nodes_of parent_process ?ds ! 1) = 2"
    by (simp_all add: nodes_of_def n)
  have alone: "dad (nodes_of parent_process ?ds) 1 = None" by code_simp
  have two: "\<forall>i < length (nodes_of parent_process ?ds). n_pid (nodes_of parent_process ?ds ! i) = 2 \<longrightarrow> i = 1"
    by (simp add: nodes_of_def n All_less_Suc numeral_eq_Suc)
  have "map snd (by_depth (nodes_of parent_process ?ds)) = [0, 2, 1]" by code_simp
  with indentation_is_depth [OF shown fuel nodes alone two] show ?thesis by metis
qed


section \<open>The shape of the links\<close>

lemma chain_next:
  assumes "chain pn p js" and "sorted_wrt (>) js" and "j \<in> set js" and "n_sibling (pn ! j) = Some s"
  shows "s \<in> set js \<and> s < j"
  using assms
proof (induction js arbitrary: p)
  case (Cons i js)
  show ?case
  proof (cases "j = i")
    case True
    with Cons.prems have "chain pn (Some s) js" by auto
    with True Cons.prems(2) show ?thesis by (cases js) auto
  next
    case False
    with Cons show ?thesis by auto
  qed
qed simp

lemma kids_sorted: "sorted_wrt (>) (kids pn m k)"
  unfolding kids_def sorted_wrt_rev by (rule sorted_wrt_filter) (simp add: sorted_wrt_upt)

lemma linked_shape:
  assumes inv: "linked pn0 0 pn" and k: "k < length pn0"
  shows "n_child (pn ! k) = Some c \<Longrightarrow> k < c \<and> c < length pn0 \<and> dad pn0 c = Some k"
    and "n_sibling (pn ! k) = Some s \<Longrightarrow> s < k \<and> dad pn0 s = dad pn0 k"
proof -
  have chains: "chain pn (n_child (pn ! i)) (kids pn0 0 i)" if "i < length pn0" for i
    using inv that by (simp add: linked_def)
  show "k < c \<and> c < length pn0 \<and> dad pn0 c = Some k" if "n_child (pn ! k) = Some c"
  proof -
    have "c \<in> set (kids pn0 0 k)" using chains [OF k] that by (cases "kids pn0 0 k") (auto simp del: kids_set)
    then show ?thesis using dad_less [of pn0 c k] by simp
  qed
  show "s < k \<and> dad pn0 s = dad pn0 k" if s: "n_sibling (pn ! k) = Some s"
  proof -
    obtain f where f: "dad pn0 k = Some f" using inv k s by (cases "dad pn0 k") (auto simp: linked_def)
    then have "k \<in> set (kids pn0 0 f)" "f < length pn0" using k dad_less [OF f] by simp_all
    from chain_next [OF chains kids_sorted, OF this(2,1) s] f show ?thesis by simp
  qed
qed

text \<open>
  C17: The linking ends with a well-formed array: a child pointer leads to a later node that names the node
  as its parent, a sibling pointer to an earlier node with the same father, so no pointer leaves the array
  and no walk along them goes round.
\<close>

theorem links_well_formed:
  assumes "\<forall>x \<in> set pn. n_child x = None \<and> n_sibling x = None \<and> n_ppid x \<noteq> None" and "length pn \<le> fuel"
  shows "\<exists>pn'. link_all fuel pn (length pn) = ok pn' \<and> length pn' = length pn \<and>
    (\<forall>k < length pn. \<forall>c. n_child (pn' ! k) = Some c \<longrightarrow> k < c \<and> c < length pn \<and> n_ppid (pn ! c) = Some (n_pid (pn ! k))) \<and>
    (\<forall>k < length pn. \<forall>s. n_sibling (pn' ! k) = Some s \<longrightarrow> s < k \<and> dad pn s = dad pn k)"
proof -
  obtain pn' where pn': "link_all fuel pn (length pn) = ok pn'" "linked pn 0 pn'"
    using linked_all [of pn "length pn" pn fuel] linked_start assms by auto
  have len: "length pn' = length pn" using pn'(2) by (metis linked_def length_map)
  have child: "k < c \<and> c < length pn \<and> n_ppid (pn ! c) = Some (n_pid (pn ! k))"
    if "k < length pn" "n_child (pn' ! k) = Some c" for k c
  proof -
    from linked_shape(1) [OF pn'(2) that] have c: "k < c" "c < length pn" "dad pn c = Some k" by auto
    moreover from c(2) assms(1) obtain q where "n_ppid (pn ! c) = Some q" by (meson nth_mem option.exhaust)
    ultimately show ?thesis using nearest_less [of pn q c k] by (auto simp: dad_def)
  qed
  with pn'(1) len linked_shape(2) [OF pn'(2)] show ?thesis by blast
qed

theorem links_well_formed_witness:
  "\<exists>pn'. link_all 5 (sample [(1, 0), (2, 0), (3, 1), (4, 1), (5, 4)]) 5 = ok pn' \<and> length pn' = 5"
proof -
  let ?pn = "sample [(1, 0), (2, 0), (3, 1), (4, 1), (5, 4)]"
  have "\<forall>x \<in> set ?pn. n_child x = None \<and> n_sibling x = None \<and> n_ppid x \<noteq> None"
    by (simp add: sample_def new_node_def)
  moreover have "length ?pn = 5" by (simp add: sample_def)
  ultimately show ?thesis using links_well_formed [of ?pn 5] by auto
qed

end
