(* ===== verification/TwoWayPipe.thy ===== *)
theory TwoWayPipe
  imports CLib
begin

text \<open>
  The two-way pipe \<open>src/SP_HW5/bidirection_pipe.c\<close>.  A round reads a piece of the input, forks a child that
  sends it back in upper case, prints the answer and waits for the child.  The child does not exit: it goes
  on with the loop as the next reader of the input, and \<open>read\<close> is compared with EOF, which is -1, so the end
  of the input does not end the loop either.

  The processes that wait for each other form chains; a state lists, for every process that reads, how many
  processes wait behind it.  Which calls fail is an argument.  A process that is killed because it writes to
  a pipe without a reader counts as one whose write failed.
\<close>

section \<open>A round\<close>

record round_calls =
  r_pipe1 :: bool
  r_pipe2 :: bool
  r_fork :: bool
  r_child_read :: bool
  r_child_write :: bool
  r_write1 :: bool
  r_read1 :: bool
  r_write2 :: bool

definition toupper :: "char \<Rightarrow> char" where
  "toupper c = (let k = of_char c :: nat in if 97 \<le> k \<and> k \<le> 122 then char_of (k - 32) else c)"

text \<open>The loop of the child over its buffer.\<close>

fun upper_loop :: "char list \<Rightarrow> char list res" where
  "upper_loop [] = Inl OutOfBounds"
| "upper_loop (c # cs) =
     (if c = NUL then Inr (c # cs) else bindE (upper_loop cs) (\<lambda>cs. Inr (toupper c # cs)))"

text \<open>What the child sends, when it gets \<open>s\<close>; \<open>None\<close>: it exits with a message.\<close>

definition child_round :: "round_calls \<Rightarrow> string \<Rightarrow> string option res" where
  "child_round c s =
     (if \<not> r_child_read c then Inr None
      else
        bindE (upper_loop (take 200 s @ zeros (200 - length s))) (\<lambda>child_buf.
        bindE (cstr child_buf) (\<lambda>answer.
        Inr (if r_child_write c then Some answer else None))))"

datatype message = Printed string | Message string

text \<open>
  A round of the loop for the bytes \<open>s\<close> that \<open>read\<close> got: the messages, whether the reader lives on and
  whether it has a child that lives on.
\<close>

definition round_main :: "round_calls \<Rightarrow> string \<Rightarrow> (message list \<times> bool \<times> bool) res" where
  "round_main c s =
     (if \<not> r_pipe1 c \<or> \<not> r_pipe2 c then Inr ([Message ''pipe error''], False, False)
      else if \<not> r_fork c then Inr ([Message ''fork error''], False, False)
      else
        bindE (cstr (take 200 s @ zeros (200 - length s))) (\<lambda>buf.
        bindE (child_round c (if r_write1 c then buf @ [NUL] else [])) (\<lambda>answer.
        let said = (if \<not> r_child_read c then [Message ''child read error'']
                    else if answer = None then [Message ''child write error''] else []) in
        if \<not> r_write1 c then Inr (said @ [Message ''write error1''], False, answer \<noteq> None)
        else if \<not> r_read1 c then Inr (said @ [Message ''read error1''], False, answer \<noteq> None)
        else
          bindE (cstr (case answer of None \<Rightarrow> zeros 200 | Some a \<Rightarrow> take 200 a @ zeros (200 - length a))) (\<lambda>parent_buf.
          if \<not> r_write2 c then Inr (said @ [Message ''write error2''], False, answer \<noteq> None)
          else Inr (said @ [Printed parent_buf], True, answer \<noteq> None)))))"

section \<open>The processes\<close>

text \<open>
  \<open>Round i c s\<close>: the \<open>i\<close>-th reader gets the bytes \<open>s\<close>, none at the end of the input; \<open>Read_error i\<close>: its
  \<open>read\<close> returns -1, which ends its loop.  A process whose child is gone goes on with the loop.
\<close>

datatype input_event = Round nat round_calls string | Read_error nat

definition ended :: "nat \<Rightarrow> nat list" where
  "ended waiting = (case waiting of 0 \<Rightarrow> [] | Suc k \<Rightarrow> [k])"

definition readers_after :: "nat \<Rightarrow> bool \<Rightarrow> bool \<Rightarrow> nat list" where
  "readers_after waiting lives child =
     (if lives then (if child then [Suc waiting] else [waiting])
      else (if child then ended waiting @ [0] else ended waiting))"

definition duplex_step :: "nat list \<Rightarrow> input_event \<Rightarrow> (message list \<times> nat list) res" where
  "duplex_step rs e =
     (case e of
        Read_error i \<Rightarrow> bindE (load rs i) (\<lambda>w. Inr ([], take i rs @ ended w @ drop (Suc i) rs))
      | Round i c s \<Rightarrow>
          bindE (load rs i) (\<lambda>w.
          bindE (round_main c s) (\<lambda>(out, lives, child).
          Inr (out, take i rs @ readers_after w lives child @ drop (Suc i) rs))))"



section \<open>What is printed\<close>

definition all_well :: round_calls where
  "all_well = \<lparr>r_pipe1 = True, r_pipe2 = True, r_fork = True, r_child_read = True, r_child_write = True,
     r_write1 = True, r_read1 = True, r_write2 = True\<rparr>"

lemma toupper_nul [simp]: "toupper NUL = NUL"
  by (simp add: toupper_def)

lemma toupper_ne_nul:
  assumes "c \<noteq> NUL"
  shows "toupper c \<noteq> NUL"
proof (cases "97 \<le> (of_char c :: nat) \<and> (of_char c :: nat) \<le> 122")
  case True
  then have "of_char c - (32 :: nat) < 256" by linarith
  then have "(of_char (char_of (of_char c - 32 :: nat)) :: nat) = of_char c - 32" by simp
  moreover have "of_char c - (32 :: nat) \<noteq> 0" using True by linarith
  ultimately have "(of_char (char_of (of_char c - 32 :: nat)) :: nat) \<noteq> of_char NUL" by simp
  then have "char_of (of_char c - 32 :: nat) \<noteq> NUL" by metis
  with True show ?thesis by (simp add: toupper_def Let_def)
next
  case False
  with assms show ?thesis by (auto simp: toupper_def Let_def)
qed

lemma nul_free_upper: "nul_free s \<Longrightarrow> nul_free (map toupper s)"
  by (induction s) (auto simp: toupper_ne_nul)

lemma upper_loop_string: "nul_free s \<Longrightarrow> upper_loop (s @ NUL # r) = Inr (map toupper s @ NUL # r)"
  by (induction s) auto

lemma take_zeros_pad: "length s \<le> n \<Longrightarrow> take n s @ zeros (n - length s) = pad n s"
  by (simp add: pad_def zeros_def)

lemma child_round_ok:
  assumes "nul_free s" and "length s < 200" and "r_child_read c" and "r_child_write c"
  shows "child_round c (s @ [NUL]) = Inr (Some (map toupper s))"
proof -
  have "take 200 (s @ [NUL]) @ zeros (200 - length (s @ [NUL])) = s @ NUL # zeros (200 - Suc (length s))"
    using assms(2) by simp
  then show ?thesis
    using assms nul_free_upper by (simp add: child_round_def upper_loop_string)
qed

text \<open>The buffer behind a piece is terminated unless the piece fills it without a terminator of its own.\<close>

definition terminated :: "string \<Rightarrow> bool" where
  "terminated s \<longleftrightarrow> length s < 200 \<or> NUL \<in> set (take 200 s)"

lemma buffer_cstr:
  "cstr (take 200 s @ zeros (200 - length s)) = (if terminated s then Inr (upto_nul s) else Inl OutOfBounds)"
proof (cases "NUL \<in> set (take 200 s)")
  case True
  have "upto_nul (take 200 s @ r) = upto_nul s" for r
    using True takeWhile_append1 [of NUL "take 200 s" "\<lambda>c. c \<noteq> NUL"]
    by (metis (mono_tags, lifting) append_take_drop_id takeWhile_append1 upto_nul_def)
  with True show ?thesis by (simp add: cstr_def terminated_def)
next
  case False
  show ?thesis
  proof (cases "length s < 200")
    case True
    have "nul_free s" using False True by (auto simp: nul_free_def)
    with cstr_pad [OF this True] True show ?thesis by (simp add: pad_def zeros_def terminated_def upto_nul_ident)
  next
    case long: False
    then show ?thesis using False by (simp add: cstr_def zeros_def terminated_def)
  qed
qed

lemma round_well:
  "round_main all_well s =
    (if terminated s then Inr ([Printed (map toupper (upto_nul s))], True, True) else Inl OutOfBounds)"
proof (cases "terminated s")
  case True
  have short: "length (upto_nul s) < 200"
  proof -
    have "cstr (take 200 s @ zeros (200 - length s)) = Inr (upto_nul s)" using True by (simp add: buffer_cstr)
    from cstr_Inr_length [OF this] show ?thesis by (simp add: zeros_def)
  qed
  have pads: "cstr (take 200 (map toupper (upto_nul s)) @ zeros (200 - length (map toupper (upto_nul s)))) =
      Inr (map toupper (upto_nul s))"
    using short cstr_pad [OF nul_free_upper, of "upto_nul s" 200] take_zeros_pad [of "map toupper (upto_nul s)" 200] by simp
  show ?thesis
    using True short child_round_ok [of "upto_nul s" all_well] pads by (simp add: round_main_def buffer_cstr all_well_def)
next
  case False
  then show ?thesis by (simp add: round_main_def buffer_cstr all_well_def)
qed



text \<open>A piece of 200 bytes leaves the buffer without a terminator.\<close>

theorem full_piece_unterminated:
  assumes "nul_free s" and "length s = 200"
  shows "round_main all_well s = Inl OutOfBounds"
  using assms by (simp add: round_well terminated_def nul_free_def)

theorem full_piece_unterminated_witness: "round_main all_well (replicate 200 CHR ''x'') = Inl OutOfBounds"
  by (rule full_piece_unterminated) (simp_all add: nul_free_def)

text \<open>
  A round adds one process when its child lives on and takes one away when its reader ends; a reader
  ends only when a call fails.
\<close>

definition processes :: "nat list \<Rightarrow> nat" where
  "processes rs = sum_list rs + length rs"

lemma processes_simps [simp]:
  "processes [] = 0" "processes (w # rs) = Suc (w + processes rs)" "processes (xs @ ys) = processes xs + processes ys"
  by (simp_all add: processes_def)

lemma processes_ended: "processes (ended w) = w"
  by (simp add: ended_def split: nat.split)

lemma processes_at: "i < length rs \<Longrightarrow> processes rs = processes (take i rs) + Suc (rs ! i) + processes (drop (Suc i) rs)"
  by (subst id_take_nth_drop [of i rs]) simp_all

theorem processes_counted:
  assumes "duplex_step rs (Round i c s) = Inr (out, rs')"
  shows "\<exists>lives child. round_main c s = Inr (out, lives, child) \<and> (c = all_well \<longrightarrow> lives \<and> child) \<and>
    processes rs' + (if lives then 0 else 1) = processes rs + (if child then 1 else 0)"
proof -
  from assms obtain lives child where r: "round_main c s = Inr (out, lives, child)" and i: "i < length rs"
    and rs': "rs' = take i rs @ readers_after (rs ! i) lives child @ drop (Suc i) rs"
    by (auto simp: duplex_step_def bindE_Inr_iff load_def split: if_splits)
  have "processes (readers_after (rs ! i) lives child) + (if lives then 0 else 1) = Suc (rs ! i) + (if child then 1 else 0)"
    by (simp add: readers_after_def processes_ended)
  with processes_at [OF i] have "processes rs' + (if lives then 0 else 1) = processes rs + (if child then 1 else 0)"
    by (simp add: rs')
  moreover have "lives \<and> child" if "c = all_well"
    using r that by (auto simp: round_main_def child_round_def all_well_def bindE_Inr_iff Let_def)
  ultimately show ?thesis using r by blast
qed

theorem processes_counted_witness:
  "processes [Suc 0] = Suc (processes [0])"
proof -
  have "duplex_step [0] (Round 0 all_well []) = Inr ([Printed []], [Suc 0])"
    using round_well [of "[]"] by (simp add: duplex_step_def load_def readers_after_def terminated_def upto_nul_def)
  from processes_counted [OF this] show ?thesis using round_well [of "[]"] by (auto simp: terminated_def)
qed

end
