(* ===== verification/Popen.thy ===== *)
theory Popen
  imports CLib
begin

text \<open>
  \<open>my_popen\<close> and \<open>my_pclose\<close> with the program that tries them, \<open>src/SP_HW5/popen_pclose.c\<close>.  The state is the
  descriptors in use, which of them write into the input of which command, the table \<open>fdtopid\<close> and the number
  the next process gets; \<open>pipe\<close> takes the lowest free descriptors below the limit of the process.

  The shell that runs a command is a parameter: what a command prints, and after how many bytes of input it
  ends by itself (\<open>None\<close>: only at the end of its input).  A command comes to the end of its input when no
  descriptor in use writes into it any more: the children of other rounds hold copies of such descriptors too,
  but none is forked while a command is waited for, and a child closes its own (\<open>popen_child_wiring\<close>).  What
  becomes of the other calls is an argument.
\<close>

section \<open>my\_popen and my\_pclose\<close>

record pstate =
  fds :: "nat list"
  input_of :: "(nat \<times> int) list"  \<comment> \<open>descriptor and process\<close>
  fdtopid :: "int list"
  next_pid :: int

record popen_calls =
  p_fork :: bool
  p_fdopen :: bool

datatype popen_result = Stream nat | No_stream | Fails string

definition free_fds :: "nat \<Rightarrow> nat list \<Rightarrow> nat list" where
  "free_fds limit used = filter (\<lambda>n. n \<notin> set used) [0..<limit]"

definition pipe_fds :: "nat \<Rightarrow> nat list \<Rightarrow> (nat \<times> nat) option" where
  "pipe_fds limit used = (case free_fds limit used of a # b # _ \<Rightarrow> Some (a, b) | _ \<Rightarrow> None)"

definition my_popen :: "nat \<Rightarrow> popen_calls \<Rightarrow> string \<Rightarrow> pstate \<Rightarrow> (popen_result \<times> pstate) res" where
  "my_popen limit c mode st =
     (case pipe_fds limit (fds st) of
        None \<Rightarrow> Inr (Fails ''pipe error'', st)
      | Some (p0, p1) \<Rightarrow>
          if \<not> p_fork c then Inr (Fails ''fork error'', st)
          else
            bindE (if mode = ''r'' then Inr p0 else if mode = ''w'' then Inr p1 else Inl Uninitialised) (\<lambda>keep_fd.
            bindE (store (fdtopid st) keep_fd (next_pid st)) (\<lambda>tab.
            Inr (if p_fdopen c then Stream keep_fd else No_stream,
                 \<lparr>fds = keep_fd # fds st, input_of = (if mode = ''w'' then [(keep_fd, next_pid st)] else []) @ input_of st,
                 fdtopid = tab, next_pid = next_pid st + 1\<rparr>))))"

text \<open>
  What the child does between \<open>fork\<close> and the command: its system calls, \<open>dup2\<close> being followed by an exit
  with status 1 when it fails.
\<close>

datatype pcall = Close nat | Dup2 nat nat | Execlp "string list"

definition popen_child :: "string \<Rightarrow> string \<Rightarrow> nat \<Rightarrow> nat \<Rightarrow> pcall list" where
  "popen_child command mode p0 p1 =
     (if mode = ''r'' then [Close p0, Dup2 p1 1, Close p1]
      else if mode = ''w'' then [Close p1, Dup2 p0 0, Close p0]
      else []) @ [Execlp [''/bin/sh'', ''/bin/sh'', ''-c'', command]]"

text \<open>
  The process \<open>my_pclose\<close> waits for (\<open>None\<close>: it returns -1 at once), and the state in which it waits: the
  code does not close the stream.
\<close>

definition my_pclose :: "pstate \<Rightarrow> nat \<Rightarrow> (int option \<times> pstate) res" where
  "my_pclose st fd = bindE (load (fdtopid st) fd) (\<lambda>pid. Inr (if pid = 0 then None else Some pid, st))"

text \<open>A command that has not had all the input it wants goes on reading while some descriptor writes into it.\<close>

definition keeps_reading :: "pstate \<Rightarrow> int \<Rightarrow> nat option \<Rightarrow> string \<Rightarrow> bool" where
  "keeps_reading st pid wants input \<longleftrightarrow>
     (case wants of None \<Rightarrow> True | Some n \<Rightarrow> length input < n) \<and> (\<exists>fd \<in> set (fds st). (fd, pid) \<in> set (input_of st))"

section \<open>The program\<close>

text \<open>\<open>while(fread(buf1, 1, 200, f) > 0) printf("%s", buf1)\<close>\<close>

function show_output :: "char list \<Rightarrow> stream \<Rightarrow> string res" where
  "show_output buf f =
     (case fread 200 buf f of
        (buf, n, f') \<Rightarrow>
          if n = 0 then Inr []
          else bindE (cstr buf) (\<lambda>s. bindE (show_output buf f') (\<lambda>out. Inr (s @ out))))"
  by pat_completeness auto

termination
  by (relation "measure (\<lambda>(_, f). length (stream.rest f))") (auto simp: fread_def Let_def)

declare show_output.simps [simp del]

text \<open>
  The loop of the write mode over what \<open>read\<close> gets, each piece with what its \<open>write\<close> meets: the bytes
  written, and the \<open>write\<close> that ended the loop, if one did.  A pipe that nobody reads any more does not make
  \<open>write\<close> fail but ends the program by \<open>SIGPIPE\<close>.
\<close>

datatype write_result = Written | Write_fails | Sigpipe

fun feed :: "(string \<times> write_result) list \<Rightarrow> (string \<times> write_result) res" where
  "feed [] = Inr ([], Written)"
| "feed ((s, w) # ss) =
     bindE (cstr (take 200 s @ zeros (200 - length s))) (\<lambda>buf2.
     if w = Written then bindE (feed ss) (\<lambda>(out, w'). Inr (buf2 @ out, w'))
     else Inr ([], w))"

record pround =
  com :: string  \<comment> \<open>the bytes of the command, none at the end of the input\<close>
  calls :: popen_calls
  pieces :: "(string \<times> write_result) list"

datatype pround_result =
    Next pstate string
  | Quit int string
  | Signalled string
  | Waits_for_ever int string

definition popen_round ::
    "nat \<Rightarrow> (string \<Rightarrow> string) \<Rightarrow> (string \<Rightarrow> nat option) \<Rightarrow> string \<Rightarrow> pstate \<Rightarrow> pround \<Rightarrow> pround_result res" where
  "popen_round limit prints ends mode st r =
     bindE (cstr (take 50 (com r) @ zeros (50 - length (com r)))) (\<lambda>command.
     bindE (my_popen limit (calls r) mode st) (\<lambda>(res, st).
     case res of
       Fails m \<Rightarrow> Inr (Quit 1 (m @ [NL]))
     | No_stream \<Rightarrow> Inr (Quit (- 1) (''my_popen error'' @ [NL]))
     | Stream fd \<Rightarrow>
         bindE (if mode = ''r'' then show_output (zeros 200) (fopen_stream (prints command)) else Inr []) (\<lambda>out.
         bindE (if mode = ''w'' then feed (pieces r) else Inr ([], Written)) (\<lambda>(input, w).
         if w = Write_fails then Inr (Quit 1 (''write error'' @ [NL]))
         else if w = Sigpipe then Inr (Signalled out)
         else
           bindE (my_pclose st fd) (\<lambda>(pid, st).
           case pid of
             Some p \<Rightarrow>
               if keeps_reading st p (ends command) input
               then Inr (Waits_for_ever p out)
               else Inr (Next st (out @ NL # ''command:'' @ [NL]))
           | None \<Rightarrow> Inr (Next st (out @ NL # ''command:'' @ [NL])))))))"

text \<open>The rounds: what is printed, and how the program has come to stand still; \<open>None\<close>: it reads the next command,
  or ends with status 0 when that \<open>read\<close> fails.\<close>

fun popen_rounds ::
    "nat \<Rightarrow> (string \<Rightarrow> string) \<Rightarrow> (string \<Rightarrow> nat option) \<Rightarrow> string \<Rightarrow> pstate \<Rightarrow> pround list \<Rightarrow> (string \<times> pround_result option) res" where
  "popen_rounds limit prints ends mode st [] = Inr ([], None)"
| "popen_rounds limit prints ends mode st (r # rs) =
     bindE (popen_round limit prints ends mode st r) (\<lambda>t.
     case t of
       Next st' out \<Rightarrow> bindE (popen_rounds limit prints ends mode st' rs) (\<lambda>(out', e). Inr (out @ out', e))
     | Quit status out \<Rightarrow> Inr (out, Some t)
     | Signalled out \<Rightarrow> Inr (out, Some t)
     | Waits_for_ever p out \<Rightarrow> Inr (out, Some t))"

definition start_state :: "int \<Rightarrow> pstate" where
  "start_state pid = \<lparr>fds = [0, 1, 2], input_of = [], fdtopid = replicate 1024 0, next_pid = pid\<rparr>"

text \<open>The mode is read into an array of two characters; without input it stays as it is, unset.\<close>

definition popen_main ::
    "nat \<Rightarrow> (string \<Rightarrow> string) \<Rightarrow> (string \<Rightarrow> nat option) \<Rightarrow> int \<Rightarrow> string option \<Rightarrow> pround list \<Rightarrow> (string \<times> pround_result option) res" where
  "popen_main limit prints ends pid word rs =
     (case word of
        None \<Rightarrow> if rs = [] then Inr (''open mode: command:'' @ [NL], None) else Inl Uninitialised
      | Some mode \<Rightarrow>
          bindE (strcpy (zeros 2) mode) (\<lambda>_.
          bindE (popen_rounds limit prints ends mode (start_state pid) rs) (\<lambda>(out, e).
          Inr (''open mode: command:'' @ NL # out, e))))"


section \<open>Descriptors\<close>

lemma free_fds_upto: "set used = {..<k} \<Longrightarrow> free_fds limit used = [k..<limit]"
proof -
  assume a: "set used = {..<k}"
  have "filter (\<lambda>n. n \<notin> {..<k}) [0..<limit] = [k..<limit]"
  proof (induction limit)
    case (Suc m)
    then show ?case by (cases "k \<le> m") simp_all
  qed simp
  then show ?thesis by (simp add: free_fds_def a)
qed

lemma pipe_fds_upto: "set used = {..<k} \<Longrightarrow> pipe_fds limit used = (if Suc k < limit then Some (k, Suc k) else None)"
proof -
  assume a: "set used = {..<k}"
  consider "Suc k < limit" | "limit = Suc k" | "limit \<le> k" by linarith
  then show ?thesis
  proof cases
    case 1
    then have "[k..<limit] = k # Suc k # [Suc (Suc k)..<limit]"
      using upt_conv_Cons [of k limit] upt_conv_Cons [of "Suc k" limit] by simp
    with 1 show ?thesis by (simp add: pipe_fds_def free_fds_upto [OF a])
  qed (simp_all add: pipe_fds_def free_fds_upto [OF a])
qed

lemma pipe_fds_free: "pipe_fds limit used = Some (a, b) \<Longrightarrow> a \<notin> set used \<and> b \<notin> set used \<and> a \<noteq> b"
proof -
  assume a: "pipe_fds limit used = Some (a, b)"
  then obtain l where l: "free_fds limit used = a # b # l" by (auto simp: pipe_fds_def split: list.splits)
  have "set (a # b # l) = set (free_fds limit used)" "distinct (a # b # l)"
    unfolding l [symmetric] by (simp_all add: free_fds_def)
  then show ?thesis by (auto simp: free_fds_def)
qed

text \<open>
  What a table of streams promises: a stream that is opened is new, waits for the process forked for it, and
  leaves the open streams theirs.  \<open>open_all\<close> opens streams one behind the other and notes the number of the
  process forked for each.
\<close>

fun open_all :: "('s \<Rightarrow> 'p) \<Rightarrow> ('c \<Rightarrow> 's \<Rightarrow> ('h \<times> 's) option) \<Rightarrow> 'c list \<Rightarrow> 's \<Rightarrow> (('h \<times> 'p) list \<times> 's) option" where
  "open_all fresh op [] s = Some ([], s)"
| "open_all fresh op (c # cs) s =
     (case op c s of
        None \<Rightarrow> None
      | Some (h, s') \<Rightarrow>
          (case open_all fresh op cs s' of
             None \<Rightarrow> None
           | Some (hs, s'') \<Rightarrow> Some ((h, fresh s) # hs, s'')))"

locale stream_table =
  fixes opens :: "'c \<Rightarrow> 's \<Rightarrow> ('h \<times> 's) option"
    and waits_for :: "'s \<Rightarrow> 'h \<Rightarrow> 'p option"
    and live :: "'s \<Rightarrow> 'h set"
    and fresh :: "'s \<Rightarrow> 'p"
    and good :: "'s \<Rightarrow> bool"
  assumes new_stream: "good s \<Longrightarrow> opens c s = Some (h, s') \<Longrightarrow> h \<notin> live s \<and> live s' = insert h (live s)"
    and own_process: "good s \<Longrightarrow> opens c s = Some (h, s') \<Longrightarrow> waits_for s' h = Some (fresh s)"
    and others_kept: "good s \<Longrightarrow> opens c s = Some (h, s') \<Longrightarrow> g \<in> live s \<Longrightarrow> waits_for s' g = waits_for s g"
    and stays_good: "good s \<Longrightarrow> opens c s = Some (h, s') \<Longrightarrow> good s'"
begin

lemma open_all_pairs:
  assumes "good s" and "open_all fresh opens cs s = Some (hs, s')"
  shows "distinct (map fst hs) \<and> fst ` set hs \<inter> live s = {} \<and>
    (\<forall>(h, p) \<in> set hs. waits_for s' h = Some p) \<and> (\<forall>g \<in> live s. waits_for s' g = waits_for s g)"
  using assms
proof (induction cs arbitrary: s hs)
  case (Cons c cs)
  then obtain h s1 hs1 where one: "opens c s = Some (h, s1)" and rec: "open_all fresh opens cs s1 = Some (hs1, s')"
    and hs: "hs = (h, fresh s) # hs1"
    by (auto split: option.splits prod.splits)
  note law = new_stream [OF Cons.prems(1) one] own_process [OF Cons.prems(1) one] others_kept [OF Cons.prems(1) one]
  from Cons.IH [OF stays_good [OF Cons.prems(1) one] rec] law hs show ?case by auto
qed simp

end

text \<open>The table of the program.\<close>

definition popen_opens :: "nat \<Rightarrow> string \<Rightarrow> popen_calls \<Rightarrow> pstate \<Rightarrow> (nat \<times> pstate) option" where
  "popen_opens limit mode c st = (case my_popen limit c mode st of Inr (Stream fd, st') \<Rightarrow> Some (fd, st') | _ \<Rightarrow> None)"

definition pclose_waits :: "pstate \<Rightarrow> nat \<Rightarrow> int option" where
  "pclose_waits st fd = (case my_pclose st fd of Inr (p, _) \<Rightarrow> p | Inl _ \<Rightarrow> None)"

lemma my_popen_Stream:
  assumes "my_popen limit c mode st = Inr (Stream fd, st')"
  shows "fd \<notin> set (fds st) \<and> fd < length (fdtopid st) \<and>
    fds st' = fd # fds st \<and> fdtopid st' = (fdtopid st)[fd := next_pid st] \<and> next_pid st' = next_pid st + 1"
proof -
  from assms obtain p0 p1 where p: "pipe_fds limit (fds st) = Some (p0, p1)" "fd \<in> {p0, p1}"
    and tab: "fd < length (fdtopid st)"
      "fds st' = fd # fds st" "fdtopid st' = (fdtopid st)[fd := next_pid st]" "next_pid st' = next_pid st + 1"
    by (auto simp: my_popen_def bindE_Inr_iff store_def split: option.splits prod.splits if_splits)
  with pipe_fds_free [OF p(1)] show ?thesis by auto
qed

interpretation popen: stream_table "popen_opens limit mode" pclose_waits "\<lambda>st. set (fds st)" next_pid "\<lambda>st. 0 < next_pid st"
  for limit mode
proof
  fix st c fd st'
  assume pid: "0 < next_pid st" and "popen_opens limit mode c st = Some (fd, st')"
  then have "my_popen limit c mode st = Inr (Stream fd, st')"
    by (auto simp: popen_opens_def split: sum.splits popen_result.splits)
  note s = my_popen_Stream [OF this]
  show "fd \<notin> set (fds st) \<and> set (fds st') = insert fd (set (fds st))" using s by simp
  show "pclose_waits st' fd = Some (next_pid st)" using s pid by (simp add: pclose_waits_def my_pclose_def load_def)
  show "0 < next_pid st'" using s pid by simp
  show "pclose_waits st' g = pclose_waits st g" if "g \<in> set (fds st)" for g
    using s that by (auto simp: pclose_waits_def my_pclose_def load_def nth_list_update)
qed

text \<open>
  C21: However many streams are opened, their descriptors differ, and my_pclose waits for the process that was
  forked for the very stream it is given.
\<close>

theorem popen_pairs:
  assumes "open_all next_pid (popen_opens limit mode) cs st = Some (hs, st')" and "0 < next_pid st"
  shows "distinct (map fst hs) \<and> fst ` set hs \<inter> set (fds st) = {} \<and> (\<forall>(fd, pid) \<in> set hs. my_pclose st' fd = Inr (Some pid, st'))"
proof -
  have "my_pclose s fd = Inr (Some pid, s)" if "pclose_waits s fd = Some pid" for s fd pid
    using that by (auto simp: pclose_waits_def my_pclose_def bindE_Inr_iff split: sum.splits if_splits)
  with popen.open_all_pairs [OF assms(2,1)] show ?thesis by fastforce
qed

theorem popen_pairs_witness:
  "my_pclose \<lparr>fds = [4, 3, 0, 1, 2], input_of = [], fdtopid = [0, 0, 0, 9, 10], next_pid = 11\<rparr> 3 =
    Inr (Some 9, \<lparr>fds = [4, 3, 0, 1, 2], input_of = [], fdtopid = [0, 0, 0, 9, 10], next_pid = 11\<rparr>)"
proof -
  have "open_all next_pid (popen_opens 16 ''r'') [\<lparr>p_fork = True, p_fdopen = True\<rparr>, \<lparr>p_fork = True, p_fdopen = True\<rparr>]
      \<lparr>fds = [0, 1, 2], input_of = [], fdtopid = [0, 0, 0, 0, 0], next_pid = 9\<rparr> =
      Some ([(3, 9), (4, 10)], \<lparr>fds = [4, 3, 0, 1, 2], input_of = [], fdtopid = [0, 0, 0, 9, 10], next_pid = 11\<rparr>)" by code_simp
  from popen_pairs [OF this] show ?thesis by simp
qed

text \<open>The two ends of a pipe behind the descriptors of the child.\<close>

datatype pipe_end = Read_end | Write_end

fun child_fds :: "(nat \<Rightarrow> pipe_end option) \<Rightarrow> pcall list \<Rightarrow> nat \<Rightarrow> pipe_end option" where
  "child_fds f [] = f"
| "child_fds f (Close n # cs) = child_fds (f(n := None)) cs"
| "child_fds f (Dup2 a b # cs) = child_fds (f(b := f a)) cs"
| "child_fds f (Execlp _ # cs) = f"

text \<open>
  The command runs with the pipe as its output in mode r and as its input in mode w, and holds neither
  end elsewhere.
\<close>

theorem popen_child_wiring:
  assumes "2 < p0" and "2 < p1" and "p0 \<noteq> p1" and "f p0 = Some Read_end" and "f p1 = Some Write_end"
    and "\<forall>n. n \<notin> {p0, p1} \<longrightarrow> f n = None"
  shows "child_fds f (popen_child command ''r'' p0 p1) n = (if n = 1 then Some Write_end else None) \<and>
    child_fds f (popen_child command ''w'' p0 p1) n = (if n = 0 then Some Read_end else None)"
  using assms by (auto simp: popen_child_def)

theorem popen_child_wiring_witness:
  "child_fds ((\<lambda>_. None)(3 := Some Read_end, 4 := Some Write_end)) (popen_child ''ls'' ''r'' 3 4) 1 = Some Write_end"
  using popen_child_wiring [of 3 4 "(\<lambda>_. None)(3 := Some Read_end, 4 := Some Write_end)" "''ls''" 1] by simp

section \<open>Reading from commands\<close>

lemma show_output_short:
  assumes "nul_free s" and "length s < 200"
  shows "show_output (zeros 200) (fopen_stream s) = Inr s"
proof (cases "s = []")
  case True
  then show ?thesis by (subst show_output.simps) (simp add: fread_def fopen_stream_def)
next
  case False
  have buf: "s @ drop (length s) (zeros 200) = pad 200 s" by (simp add: pad_def zeros_def)
  have stop: "show_output b \<lparr>rest = [], ateof = a\<rparr> = Inr []" for b a
    by (subst show_output.simps) (simp add: fread_def)
  show ?thesis
    using assms False
    by (subst show_output.simps) (simp add: fread_def fopen_stream_def buf cstr_pad stop)
qed

definition calls_ok :: popen_calls where "calls_ok = \<lparr>p_fork = True, p_fdopen = True\<rparr>"

definition plain_command :: "(string \<Rightarrow> string) \<Rightarrow> pround \<Rightarrow> bool" where
  "plain_command prints r \<longleftrightarrow> calls r = calls_ok \<and> nul_free (com r) \<and> length (com r) < 50 \<and>
     nul_free (prints (com r)) \<and> length (prints (com r)) < 200"

definition shown :: "(string \<Rightarrow> string) \<Rightarrow> pround \<Rightarrow> string" where
  "shown prints r = prints (com r) @ NL # ''command:'' @ [NL]"

definition opened :: "nat \<Rightarrow> pstate \<Rightarrow> bool" where
  "opened k st \<longleftrightarrow> set (fds st) = {..<k} \<and> input_of st = [] \<and> length (fdtopid st) = 1024 \<and> 0 < next_pid st"

lemma command_buffer: "nul_free s \<Longrightarrow> length s < n \<Longrightarrow> cstr (s @ zeros (n - length s)) = Inr s"
  using cstr_pad [of s n] by (simp add: pad_def zeros_def)

lemma read_round:
  assumes "plain_command prints r" and "opened k st" and "Suc k < limit" and "limit \<le> 1024"
  shows "\<exists>st'. popen_round limit prints ends ''r'' st r = Inr (Next st' (shown prints r)) \<and> opened (Suc k) st'"
proof -
  let ?st = "\<lparr>fds = k # fds st, input_of = [], fdtopid = (fdtopid st)[k := next_pid st], next_pid = next_pid st + 1\<rparr>"
  have popen: "my_popen limit (calls r) ''r'' st = Inr (Stream k, ?st)"
    using assms by (simp add: my_popen_def opened_def pipe_fds_upto plain_command_def calls_ok_def store_def)
  have "my_pclose ?st k = Inr (Some (next_pid st), ?st)"
    using assms by (simp add: my_pclose_def load_def opened_def)
  moreover have "opened (Suc k) ?st" using assms(2) by (simp add: opened_def lessThan_Suc)
  moreover have "cstr (take 50 (com r) @ zeros (50 - length (com r))) = Inr (com r)"
    "show_output (zeros 200) (fopen_stream (prints (com r))) = Inr (prints (com r))"
    using assms(1) by (simp_all add: plain_command_def command_buffer show_output_short)
  ultimately have "popen_round limit prints ends ''r'' st r = Inr (Next ?st (shown prints r)) \<and> opened (Suc k) ?st"
    using popen by (simp add: popen_round_def shown_def keeps_reading_def del: take_all)
  then show ?thesis by blast
qed

lemma read_rounds:
  assumes "\<forall>r \<in> set rs. plain_command prints r" and "opened k st" and "k + length rs < limit" and "limit \<le> 1024"
  shows "\<exists>st'. opened (k + length rs) st' \<and> (\<forall>others. popen_rounds limit prints ends ''r'' st (rs @ others) =
    bindE (popen_rounds limit prints ends ''r'' st' others) (\<lambda>(out, e). Inr (concat (map (shown prints) rs) @ out, e)))"
  using assms
proof (induction rs arbitrary: k st)
  case Nil
  then show ?case by (intro exI [of _ st]) simp
next
  case (Cons r rs)
  from Cons.prems obtain st1 where st1: "popen_round limit prints ends ''r'' st r = Inr (Next st1 (shown prints r))" "opened (Suc k) st1"
    using read_round [of prints r k st limit ends] by auto
  from Cons.IH [OF _ st1(2)] Cons.prems obtain st' where st': "opened (Suc k + length rs) st'"
    "\<forall>others. popen_rounds limit prints ends ''r'' st1 (rs @ others) =
      bindE (popen_rounds limit prints ends ''r'' st' others) (\<lambda>(out, e). Inr (concat (map (shown prints) rs) @ out, e))"
    by auto
  have "popen_rounds limit prints ends ''r'' st ((r # rs) @ others) =
      bindE (popen_rounds limit prints ends ''r'' st' others) (\<lambda>(out, e). Inr (concat (map (shown prints) (r # rs)) @ out, e))" for others
    using st' st1 by (cases "popen_rounds limit prints ends ''r'' st' others") auto
  with st' show ?case by (intro exI [of _ st']) simp
qed

text \<open>
  In mode r the output of every command appears in order; as no stream is ever closed, the descriptors
  run out, and the command after that ends the program.
\<close>

theorem read_mode_session:
  assumes "\<forall>r \<in> set rs. plain_command prints r" and "limit = length rs + 4" and "limit \<le> 1024" and "0 < pid"
    and "nul_free (com r)" and "length (com r) < 50"
  shows "popen_main limit prints ends pid (Some ''r'') (rs @ r # others) =
    Inr (''open mode: command:'' @ NL # concat (map (shown prints) rs) @ ''pipe error'' @ [NL], Some (Quit 1 (''pipe error'' @ [NL])))"
proof -
  have start: "opened 3 (start_state pid)" using assms(4) by (auto simp: opened_def start_state_def)
  obtain st where st: "opened (3 + length rs) st" "popen_rounds limit prints ends ''r'' (start_state pid) (rs @ r # others) =
      bindE (popen_rounds limit prints ends ''r'' st (r # others)) (\<lambda>(out, e). Inr (concat (map (shown prints) rs) @ out, e))"
    using read_rounds [OF assms(1) start, of limit ends] assms(2,3) by auto
  have "popen_round limit prints ends ''r'' st r = Inr (Quit 1 (''pipe error'' @ [NL]))"
    using assms(2,5,6) st(1) by (simp add: popen_round_def command_buffer my_popen_def opened_def pipe_fds_upto)
  with st(2) show ?thesis by (simp add: popen_main_def strcpy_def)
qed

definition plain_round :: "string \<Rightarrow> pround" where
  "plain_round s = \<lparr>com = s, calls = calls_ok, pieces = []\<rparr>"

theorem read_mode_session_witness:
  "popen_main 5 (\<lambda>_. ''hello'') (\<lambda>_. None) 7 (Some ''r'') [plain_round ''echo'', plain_round ''pwd''] =
   Inr (''open mode: command:'' @ NL # (''hello'' @ NL # ''command:'' @ [NL]) @ ''pipe error'' @ [NL], Some (Quit 1 (''pipe error'' @ [NL])))"
  using read_mode_session [of "[plain_round ''echo'']" "\<lambda>_. ''hello''" 5 7 "plain_round ''pwd''" "\<lambda>_. None" "[]"]
  by (simp add: plain_command_def plain_round_def shown_def)

text \<open>An output of 200 bytes or others fills the buffer, which then has no terminator.\<close>

theorem long_output_unterminated:
  assumes "nul_free s" and "200 \<le> length s" and "length b = 200"
  shows "show_output b (fopen_stream s) = Inl OutOfBounds"
proof -
  have "NUL \<notin> set (take 200 s)" using assms(1) by (auto simp: nul_free_def dest: in_set_takeD)
  with assms(2,3) show ?thesis
    by (subst show_output.simps) (simp add: fread_def fopen_stream_def Let_def cstr_def)
qed

section \<open>Writing to commands\<close>

definition input_bytes :: "pround \<Rightarrow> string" where
  "input_bytes r = concat (map fst (pieces r))"

definition fed_command :: "pround \<Rightarrow> bool" where
  "fed_command r \<longleftrightarrow> calls r = calls_ok \<and> nul_free (com r) \<and> length (com r) < 50 \<and>
     (\<forall>(s, w) \<in> set (pieces r). nul_free s \<and> length s < 200 \<and> w = Written)"

lemma feed_ok: "fed_command r \<Longrightarrow> feed (pieces r) = Inr (input_bytes r, Written)"
proof -
  have "\<forall>(s, w) \<in> set ss. nul_free s \<and> length s < 200 \<and> w = Written \<Longrightarrow> feed ss = Inr (concat (map fst ss), Written)" for ss
    by (induction ss) (auto simp: command_buffer)
  then show "fed_command r \<Longrightarrow> ?thesis" by (simp add: fed_command_def input_bytes_def)
qed

text \<open>The state behind \<open>k\<close> commands in mode w: descriptor 3 is free again, and a stream is open for each.\<close>

definition streams_open :: "nat \<Rightarrow> pstate \<Rightarrow> bool" where
  "streams_open k st \<longleftrightarrow> set (fds st) = {..<3} \<union> {4..<4 + k} \<and> length (fdtopid st) = 1024 \<and> 0 < next_pid st"

lemma pipe_fds_streams: "streams_open k st \<Longrightarrow> 4 + k < limit \<Longrightarrow> pipe_fds limit (fds st) = Some (3, 4 + k)"
proof -
  assume st: "streams_open k st" and l: "4 + k < limit"
  have split: "[a..<c] = [a..<b] @ [b..<c]" if "a \<le> b" "b \<le> c" for a b c :: nat
    using upt_add_eq_append [of a b "c - b"] that by simp
  have "[0..<limit] = [0..<3] @ 3 # [Suc 3..<4 + k] @ (4 + k) # [Suc (4 + k)..<limit]"
    using split [of 0 3 limit] split [of "Suc 3" "4 + k" limit] upt_conv_Cons [of 3 limit] upt_conv_Cons [of "4 + k" limit] l
    by (simp del: upt_Suc)
  moreover have "filter (\<lambda>n. n \<notin> set (fds st)) [0..<3] = []" "filter (\<lambda>n. n \<notin> set (fds st)) [Suc 3..<4 + k] = []"
    "3 \<notin> set (fds st)" "4 + k \<notin> set (fds st)"
    using st by (auto simp: streams_open_def filter_empty_conv)
  ultimately show ?thesis by (simp add: pipe_fds_def free_fds_def del: upt_Suc)
qed

lemma write_round:
  assumes "fed_command r" and "streams_open k st" and "5 + k \<le> limit" and "limit \<le> 1024"
  shows "\<exists>st'. popen_round limit prints ends ''w'' st r =
      Inr (if case ends (com r) of None \<Rightarrow> True | Some n \<Rightarrow> length (input_bytes r) < n
           then Waits_for_ever (next_pid st) [] else Next st' (NL # ''command:'' @ [NL])) \<and>
    streams_open (Suc k) st' \<and> next_pid st' = next_pid st + 1"
proof -
  define st2 where "st2 = \<lparr>fds = (4 + k) # fds st, input_of = (4 + k, next_pid st) # input_of st,
    fdtopid = (fdtopid st)[4 + k := next_pid st], next_pid = next_pid st + 1\<rparr>"
  have popen: "my_popen limit (calls r) ''w'' st = Inr (Stream (4 + k), st2)"
    using assms pipe_fds_streams [OF assms(2), of limit]
    by (simp add: st2_def my_popen_def streams_open_def fed_command_def calls_ok_def store_def)
  have pclose: "my_pclose st2 (4 + k) = Inr (Some (next_pid st), st2)"
    using assms by (simp add: st2_def my_pclose_def load_def streams_open_def)
  have reads: "keeps_reading st2 (next_pid st) wants input \<longleftrightarrow> (case wants of None \<Rightarrow> True | Some n \<Rightarrow> length input < n)" for wants input
    by (auto simp: keeps_reading_def st2_def)
  have com: "cstr (take 50 (com r) @ zeros (50 - length (com r))) = Inr (com r)"
    using assms(1) by (simp add: fed_command_def command_buffer)
  have "{4..<4 + Suc k} = insert (4 + k) {4..<4 + k}" using atLeastLessThanSuc [of 4 "4 + k"] by simp
  then have st: "streams_open (Suc k) st2" using assms(2) by (simp only: streams_open_def st2_def) simp
  have "popen_round limit prints ends ''w'' st r =
      Inr (if keeps_reading st2 (next_pid st) (ends (com r)) (input_bytes r)
           then Waits_for_ever (next_pid st) [] else Next st2 (NL # ''command:'' @ [NL]))"
    by (simp add: popen_round_def com popen pclose feed_ok [OF assms(1)] del: take_all)
  then show ?thesis unfolding reads using st by (intro exI [of _ st2]) (simp add: st2_def)
qed

lemma write_rounds:
  assumes "\<forall>r \<in> set rs. fed_command r \<and> (\<exists>n \<le> length (input_bytes r). ends (com r) = Some n)"
    and "streams_open k st" and "4 + k + length rs \<le> limit" and "limit \<le> 1024"
  shows "\<exists>st'. streams_open (k + length rs) st' \<and> next_pid st' = next_pid st + int (length rs) \<and>
    (\<forall>others. popen_rounds limit prints ends ''w'' st (rs @ others) =
      bindE (popen_rounds limit prints ends ''w'' st' others) (\<lambda>(out, e).
      Inr (concat (map (\<lambda>_. NL # ''command:'' @ [NL]) rs) @ out, e)))"
  using assms
proof (induction rs arbitrary: k st)
  case Nil
  then show ?case by (intro exI [of _ st]) simp
next
  case (Cons r rs)
  from Cons.prems obtain n where r: "fed_command r" "ends (com r) = Some n" "n \<le> length (input_bytes r)" by auto
  have "5 + k \<le> limit" using Cons.prems(3) by simp
  from write_round [OF r(1) Cons.prems(2) this Cons.prems(4), of prints ends] r(2,3)
  obtain st1 where st1: "popen_round limit prints ends ''w'' st r = Inr (Next st1 (NL # ''command:'' @ [NL]))"
    "streams_open (Suc k) st1" "next_pid st1 = next_pid st + 1" by auto
  from Cons.IH [OF _ st1(2)] Cons.prems obtain st' where st': "streams_open (Suc k + length rs) st'"
    "next_pid st' = next_pid st1 + int (length rs)"
    "\<forall>others. popen_rounds limit prints ends ''w'' st1 (rs @ others) =
      bindE (popen_rounds limit prints ends ''w'' st' others) (\<lambda>(out, e).
      Inr (concat (map (\<lambda>_. NL # ''command:'' @ [NL]) rs) @ out, e))"
    by auto
  have "popen_rounds limit prints ends ''w'' st ((r # rs) @ others) =
      bindE (popen_rounds limit prints ends ''w'' st' others) (\<lambda>(out, e).
      Inr (concat (map (\<lambda>_. NL # ''command:'' @ [NL]) (r # rs)) @ out, e))" for others
    using st' st1 by (cases "popen_rounds limit prints ends ''w'' st' others") auto
  with st' st1(3) show ?case by (intro exI [of _ st']) simp
qed

text \<open>
  C30: In mode w, when no call fails, a command that has not had all the input it wants when the input ends, as
  one that reads to the end of its input, never gets there: my_pclose waits for it while the stream that writes
  into it is still open, so the program waits for ever behind the first such command; the commands before it
  have ended by themselves, and there are descriptors for all of them.
\<close>

theorem write_mode_waits:
  assumes "\<forall>r \<in> set rs. fed_command r \<and> (\<exists>n \<le> length (input_bytes r). ends (com r) = Some n)"
    and "fed_command r" and "\<forall>n. ends (com r) = Some n \<longrightarrow> length (input_bytes r) < n"
    and "length rs + 5 \<le> limit" and "limit \<le> 1024" and "0 < pid"
  shows "popen_main limit prints ends pid (Some ''w'') (rs @ r # others) =
    Inr (''open mode: command:'' @ NL # concat (map (\<lambda>_. NL # ''command:'' @ [NL]) rs),
      Some (Waits_for_ever (pid + int (length rs)) []))"
proof -
  have start: "streams_open 0 (start_state pid)" using assms(6) by (auto simp: streams_open_def start_state_def)
  from write_rounds [OF assms(1) start, of limit prints] assms(4,5)
  obtain st where st: "streams_open (length rs) st" "next_pid st = pid + int (length rs)"
    "popen_rounds limit prints ends ''w'' (start_state pid) (rs @ r # others) =
      bindE (popen_rounds limit prints ends ''w'' st (r # others)) (\<lambda>(out, e).
      Inr (concat (map (\<lambda>_. NL # ''command:'' @ [NL]) rs) @ out, e))"
    by (auto simp: start_state_def)
  have "case ends (com r) of None \<Rightarrow> True | Some n \<Rightarrow> length (input_bytes r) < n"
    using assms(3) by (simp split: option.split)
  then have "popen_round limit prints ends ''w'' st r = Inr (Waits_for_ever (pid + int (length rs)) [])"
    using write_round [OF assms(2) st(1), of limit prints ends] assms(4,5) st(2) by auto
  with st(3) show ?thesis by (simp add: popen_main_def strcpy_def)
qed

theorem write_mode_waits_witness:
  "popen_main 16 (\<lambda>_. []) (\<lambda>c. if c = ''cat'' then None else Some 3) 7 (Some ''w'')
     ([\<lparr>com = ''head -c3'', calls = calls_ok, pieces = [(''hello'', Written)]\<rparr>] @
      \<lparr>com = ''cat'', calls = calls_ok, pieces = [(''hello'', Written)]\<rparr> # []) =
   Inr (''open mode: command:'' @ NL # concat (map (\<lambda>_. NL # ''command:'' @ [NL])
       [\<lparr>com = ''head -c3'', calls = calls_ok, pieces = [(''hello'', Written)]\<rparr>]),
     Some (Waits_for_ever (7 + int (length [\<lparr>com = ''head -c3'', calls = calls_ok, pieces = [(''hello'', Written)]\<rparr>])) []))"
  by (rule write_mode_waits) (simp_all add: fed_command_def input_bytes_def)

text \<open>With its last writing descriptor closed the same command would come to the end of its input.\<close>

lemma closed_stream_ends: "\<forall>fd \<in> set (fds st). (fd, pid) \<notin> set (input_of st) \<Longrightarrow> \<not> keeps_reading st pid wants input"
  by (auto simp: keeps_reading_def)

end
