(* ===== verification/PipeList.thy ===== *)
theory PipeList
  imports FileCopy
begin

text \<open>
  Two programs of \<open>src/SP_HW4/part1\<close> that pass on what they read: \<open>mycat.c\<close>, which copies a file to the
  standard output, and \<open>pipe_ls.c\<close>, which prints what \<open>ls -l\<close> sends through a pipe.

  Which calls fail, what every \<open>read\<close> gets and how much every \<open>write\<close> takes are arguments.  The results
  are the text printed, the messages on the error output and the exit status.
\<close>

section \<open>mycat\<close>

fun mycat_loop :: "(string option \<times> nat option) list \<Rightarrow> string \<times> string list" where
  "mycat_loop [] = ([], [])"
| "mycat_loop ((got, taken) # rs) =
     (case got of
        None \<Rightarrow> ([], [''read error''])
      | Some s \<Rightarrow>
          if s = [] then ([], [])
          else
            (let (n, w) = write_result taken s;
                 (out, err) = mycat_loop rs
             in (w @ out, (if n \<noteq> int (length s) then [''write error''] else []) @ err)))"

definition mycat_main :: "string list \<Rightarrow> bool \<Rightarrow> (string option \<times> nat option) list \<Rightarrow> string \<times> string list \<times> int" where
  "mycat_main argv open_ok rs =
     (if length argv < 2 then (''Usage:mycat filename'' @ [NL], [], 1)
      else if \<not> open_ok then ([], [''open error''], 1)
      else (let (out, err) = mycat_loop rs in (out, err, 0)))"

text \<open>
  mycat prints of every piece of the file what \<open>write\<close> takes and goes on with the next piece: what a
  short write leaves is lost, and every short write has its message.
\<close>

theorem mycat_prints:
  assumes "\<forall>(s, k) \<in> set ps. s \<noteq> []"
  shows "mycat_main [prog, file] True (map (\<lambda>(s, k). (Some s, Some k)) ps @ [(Some [], None)]) =
    (concat (map (\<lambda>(s, k). take k s) ps), replicate (length (filter (\<lambda>(s, k). k < length s) ps)) ''write error'', 0)"
proof -
  have "mycat_loop (map (\<lambda>(s, k). (Some s, Some k)) ps @ [(Some [], None)]) =
      (concat (map (\<lambda>(s, k). take k s) ps), replicate (length (filter (\<lambda>(s, k). k < length s) ps)) ''write error'')"
    using assms by (induction ps) (auto simp: write_result_def)
  then show ?thesis by (simp add: mycat_main_def)
qed

theorem mycat_prints_witness:
  "mycat_main [''mycat'', ''f''] True [(Some ''abc'', Some 3), (Some ''de'', Some 1), (Some [], None)] =
   (''abcd'', [''write error''], 0)"
  using mycat_prints [of "[(''abc'', 3), (''de'', 1)]" "''mycat''" "''f''"] by simp

section \<open>pipe\_ls\<close>

record ls_calls =
  l_pipe :: bool
  l_fork :: bool
  l_child_dup :: bool
  l_exec :: bool
  l_parent_dup :: bool
  l_wait :: bool

text \<open>\<open>while((len = read(p[0], buf, 1023)) > 0) { buf[len] = 0; printf("%s", buf); }\<close>\<close>

fun ls_loop :: "char list \<Rightarrow> string list \<Rightarrow> string res" where
  "ls_loop buf [] = Inr []"
| "ls_loop buf (s # ss) =
     (let got = take 1023 s in
      if got = [] then Inr []
      else
        bindE (store (got @ drop (length got) buf) (length got) NUL) (\<lambda>buf.
        bindE (cstr buf) (\<lambda>t.
        bindE (ls_loop buf ss) (\<lambda>out. Inr (t @ out)))))"

text \<open>
  The child; \<open>None\<close>: \<open>ls\<close> runs.  When \<open>execlp\<close> returns, the \<open>switch\<close> falls through to the case of a failed
  \<open>fork\<close>.
\<close>

definition ls_child :: "ls_calls \<Rightarrow> string option" where
  "ls_child c = (if \<not> l_child_dup c then Some ''dup error'' else if \<not> l_exec c then Some ''fork error'' else None)"

definition ls_main :: "ls_calls \<Rightarrow> string list \<Rightarrow> (string \<times> string list \<times> int) res" where
  "ls_main c ss =
     (if \<not> l_pipe c then Inl Uninitialised
      else if \<not> l_fork c then Inr ([], [''fork error''], 1)
      else
        (let (said, sent) = (case ls_child c of None \<Rightarrow> ([], ss) | Some m \<Rightarrow> ([m], [])) in
         if \<not> l_parent_dup c then Inr ([], said @ [''dup error''], 1)
         else
           bindE (ls_loop (zeros 1024) sent) (\<lambda>out.
           if \<not> l_wait c then Inr (out, said @ [''waitpid error''], 1)
           else Inr (out, said, 0))))"

lemma ls_loop_prints:
  assumes "length buf = 1024" and "\<forall>s \<in> set ss. s \<noteq> [] \<and> length s \<le> 1023"
  shows "ls_loop buf ss = Inr (concat (map upto_nul ss))"
  using assms
proof (induction ss arbitrary: buf)
  case (Cons s ss)
  let ?buf = "s @ NUL # drop (Suc (length s)) buf"
  have "store (s @ drop (length s) buf) (length s) NUL = Inr ?buf"
    using Cons.prems by (simp add: store_def list_update_append Cons_nth_drop_Suc [symmetric])
  moreover have "cstr (s @ NUL # r) = Inr (upto_nul s)" for r
    by (induction s) (auto simp: cstr_def upto_nul_def)
  moreover have "length ?buf = 1024" using Cons.prems by simp
  ultimately show ?case using Cons by simp
qed simp

text \<open>
  Whatever \<open>ls\<close> sends, pipe_ls stays inside its buffer and prints every piece up to its first NUL; it
  cannot tell a failed \<open>execlp\<close> from a failed \<open>fork\<close> and then still ends with status 0.
\<close>

theorem ls_prints:
  assumes "l_pipe c" and "l_fork c" and "l_parent_dup c" and "l_wait c" and "\<forall>s \<in> set ss. s \<noteq> [] \<and> length s \<le> 1023"
  shows "ls_main c ss =
    Inr (if l_child_dup c \<and> l_exec c then (concat (map upto_nul ss), [], 0)
         else ([], [if l_child_dup c then ''fork error'' else ''dup error''], 0))"
  using assms ls_loop_prints [of "zeros 1024" ss] by (simp add: ls_main_def ls_child_def)

theorem ls_prints_witness:
  "ls_main \<lparr>l_pipe = True, l_fork = True, l_child_dup = True, l_exec = False, l_parent_dup = True, l_wait = True\<rparr> [''total 0''] =
   Inr ([], [''fork error''], 0)"
  by (subst ls_prints) simp_all

end
