(* ===== verification/Driver.thy ===== *)
theory Driver
  imports PipeList "HOL-Library.Word"
begin

text \<open>
  The character device driver of \<open>src/SP_HW12\<close>: the four file operations of \<open>driver.c\<close>, its initialisation
  and removal, and the program \<open>test.c\<close> that uses the device.  The kernel's log is part of the state; its
  \<open>register_chrdev\<close> and \<open>unregister_chrdev\<close> are arguments.

  The operations answer the number of bytes they are asked for and touch no buffer.  The lemmas show what
  that means to the programs that read the device: \<open>mycat\<close> of \<open>src/SP_HW4/part1\<close> never meets an end.
\<close>

section \<open>File operations\<close>

text \<open>The user's buffer is of any type: the operations hand it back as it was.\<close>

type_synonym klog = "string list"

definition drv_read :: "'b \<Rightarrow> 64 word \<Rightarrow> klog \<Rightarrow> 'b \<times> int \<times> klog" where
  "drv_read buf count log = (buf, sint count, log @ [''device read'' @ [NL]])"

definition drv_write :: "'b \<Rightarrow> 64 word \<Rightarrow> klog \<Rightarrow> int \<times> klog" where
  "drv_write buf count log = (sint count, log @ [''device write'' @ [NL]])"

definition drv_open :: "klog \<Rightarrow> int \<times> klog" where
  "drv_open log = (0, log @ [''device open'' @ [NL]])"

definition drv_release :: "klog \<Rightarrow> int \<times> klog" where
  "drv_release log = (0, log @ [''device close'' @ [NL]])"

section \<open>The module\<close>

definition MAJOR_NUM :: int where "MAJOR_NUM = 60"

definition MODULE_NAME :: string where "MODULE_NAME = ''DEMO''"

definition EBUSY :: int where "EBUSY = 16"

text \<open>\<open>'k\<close> is the kernel's table of devices.\<close>

definition demo_init :: "(int \<Rightarrow> string \<Rightarrow> 'k \<Rightarrow> int \<times> 'k) \<Rightarrow> 'k \<Rightarrow> klog \<Rightarrow> int \<times> 'k \<times> klog" where
  "demo_init register_chrdev k log =
     (case register_chrdev MAJOR_NUM ''demo'' k of
        (r, k') \<Rightarrow>
          if r < 0
          then (- EBUSY, k', log @ [''<1> s: can't get major '' @ MODULE_NAME @ '' '' @ dec_int MAJOR_NUM @ [NL]])
          else (0, k', log @ [''<1> s: started '' @ MODULE_NAME @ [NL]]))"

definition demo_exit :: "(int \<Rightarrow> string \<Rightarrow> 'k \<Rightarrow> 'k) \<Rightarrow> 'k \<Rightarrow> klog \<Rightarrow> 'k \<times> klog" where
  "demo_exit unregister_chrdev k log =
     (unregister_chrdev MAJOR_NUM ''demo'' k, log @ [''<1> s: removed '' @ MODULE_NAME @ [NL]])"

section \<open>test.c\<close>

text \<open>
  \<open>fread\<close> asks the device until it has 512 bytes; \<open>asks\<close> are the sizes it asks for, and an answer of 0 or
  less ends it.  The bytes of \<open>buf\<close> are \<open>None\<close> until something is stored in them, and \<open>fwrite\<close> passes
  them on.
\<close>

fun fread_dev :: "nat \<Rightarrow> char option list \<Rightarrow> 64 word list \<Rightarrow> klog \<Rightarrow> char option list \<times> klog" where
  "fread_dev got buf [] log = (buf, log)"
| "fread_dev got buf (n # ns) log =
     (if 512 \<le> got then (buf, log)
      else (case drv_read buf n log of
              (buf', r, log') \<Rightarrow> if r \<le> 0 then (buf', log') else fread_dev (got + nat r) buf' ns log'))"

definition test_main :: "bool \<Rightarrow> 64 word list \<Rightarrow> klog \<Rightarrow> (string \<times> klog) res" where
  "test_main fopen_ok asks log =
     (if \<not> fopen_ok then Inr (''can't open device!'' @ [NL], log)
      else
        (case fread_dev 0 (replicate 512 None) asks (snd (drv_open log)) of
           (buf, log') \<Rightarrow>
             if None \<in> set buf then Inl Uninitialised
             else Inr ([], snd (drv_release (snd (drv_write buf 512 log'))))))"

section \<open>A session on the device\<close>

datatype 'b dev_call = Dev_open | Dev_read 'b "64 word" | Dev_write 'b "64 word" | Dev_close

text \<open>What a call answers, with the buffer of a read.\<close>

fun dev_answer :: "'b dev_call \<Rightarrow> klog \<Rightarrow> ('b option \<times> int) \<times> klog" where
  "dev_answer Dev_open log = (case drv_open log of (r, l) \<Rightarrow> ((None, r), l))"
| "dev_answer (Dev_read b n) log = (case drv_read b n log of (b', r, l) \<Rightarrow> ((Some b', r), l))"
| "dev_answer (Dev_write b n) log = (case drv_write b n log of (r, l) \<Rightarrow> ((None, r), l))"
| "dev_answer Dev_close log = (case drv_release log of (r, l) \<Rightarrow> ((None, r), l))"

fun dev_session :: "'b dev_call list \<Rightarrow> klog \<Rightarrow> ('b option \<times> int) list \<times> klog" where
  "dev_session [] log = ([], log)"
| "dev_session (c # cs) log =
     (case dev_answer c log of (a, log') \<Rightarrow>
      case dev_session cs log' of (as, log'') \<Rightarrow> (a # as, log''))"

text \<open>What a program reads: the bytes the answer claims, out of its own buffer.\<close>

definition got_of :: "string option \<times> int \<Rightarrow> string option" where
  "got_of a = (case a of (Some b, r) \<Rightarrow> if r < 0 then None else Some (take (nat r) b) | (None, _) \<Rightarrow> None)"

section \<open>Properties\<close>

lemma dev_session_reads:
  "fst (dev_session (replicate n (Dev_read b c)) log) = replicate n (Some b, sint c)"
  by (induction n arbitrary: log) (simp_all add: drv_read_def case_prod_unfold)

lemma fread_dev_buf: "fst (fread_dev got buf ns log) = buf"
  by (induction got buf ns log rule: fread_dev.induct) (simp_all add: drv_read_def)

lemma mycat_never_ends:
  "mycat_loop (replicate n (Some (zeros 1024), Some 1024)) = (concat (replicate n (zeros 1024)), [])"
  by (induction n) (simp_all add: write_result_def zeros_def)

text \<open>
  The device never ends: however often mycat reads it, it gets the 1024 zeros its own buffer starts
  with, and prints them.
\<close>

theorem mycat_device:
  "mycat_main [prog, dev] True
     (map (\<lambda>a. (got_of a, Some 1024)) (fst (dev_session (replicate n (Dev_read (zeros 1024) 1024)) log))) =
   (concat (replicate n (zeros 1024)), [], 0)"
proof -
  have "got_of (Some (zeros 1024), sint (1024 :: 64 word)) = Some (zeros 1024)"
    by (simp add: got_of_def zeros_def)
  then show ?thesis by (simp add: dev_session_reads mycat_main_def mycat_never_ends)
qed

text \<open>
  Whatever the library asks the device for, the buffer of test.c has no value when it is written back.
\<close>

theorem test_writes_nothing_read: "test_main True asks log = Inl Uninitialised"
proof -
  have "None \<in> set (fst (fread_dev 0 (replicate 512 None) asks (snd (drv_open log))))"
    by (simp add: fread_dev_buf)
  then show ?thesis by (simp add: test_main_def case_prod_unfold)
qed

text \<open>
  The module is there or it is not: over a table of devices that refuses a taken number and forgets a
  removed one, loading the module twice answers -EBUSY the second time and leaves the first alone, and
  removing it gives the table back.
\<close>

theorem module_life:
  assumes refuses: "\<And>m n k. m \<in> dom k \<Longrightarrow> register_chrdev m n k = (- EBUSY, k)"
    and accepts: "\<And>m n k. m \<notin> dom k \<Longrightarrow> register_chrdev m n k = (0, k(m \<mapsto> n))"
    and removes: "\<And>m n k. unregister_chrdev m n k = k(m := None)"
    and "MAJOR_NUM \<notin> dom k"
  shows "\<exists>k'. demo_init register_chrdev k log = (0, k', log @ [''<1> s: started DEMO'' @ [NL]]) \<and>
    demo_init register_chrdev k' log' = (- 16, k', log' @ [''<1> s: can't get major DEMO 60'' @ [NL]]) \<and>
    fst (demo_exit unregister_chrdev k' log'') = k"
proof -
  have "dec_int MAJOR_NUM = ''60''" by code_simp
  moreover have "k(MAJOR_NUM := None) = k" using assms(4) by (auto simp: domIff)
  ultimately show ?thesis
    using accepts [OF assms(4)] refuses [of MAJOR_NUM "k(MAJOR_NUM \<mapsto> ''demo'')"]
    by (simp add: demo_init_def demo_exit_def removes MODULE_NAME_def EBUSY_def)
qed

theorem module_life_witness:
  "\<exists>k'. demo_init (\<lambda>m n k. if m \<in> dom k then (- EBUSY, k) else (0, k(m \<mapsto> n))) (Map.empty :: int \<rightharpoonup> string) [] =
      (0, k', [''<1> s: started DEMO'' @ [NL]]) \<and>
    fst (demo_exit (\<lambda>m n k. k(m := None)) k' []) = Map.empty"
  using module_life [of "\<lambda>m n k. if m \<in> dom k then (- EBUSY, k) else (0, k(m \<mapsto> n))" "\<lambda>m n k. k(m := None)"
      "Map.empty :: int \<rightharpoonup> string" "[]" "[]" "[]"]
  by auto

end
