(* ===== verification/HostInfo.thy ===== *)
theory HostInfo
  imports CLib
begin

text \<open>
  The programs of \<open>src/SP_HW4/part1\<close> that print what one call tells them: \<open>mydate.c\<close> (the local time through
  \<open>strftime\<close>), \<open>hostinfo.c\<close> (the name and the number of the host) and \<open>printdir.c\<close> (the working directory).
  What the system answers is an argument.

  \<open>strftime\<close> is modelled for the directives of \<open>mydate\<close>, in the locale every program starts with.  The
  lemmas show that its line always fits the buffer and that no two times print the same line.
\<close>

section \<open>mydate\<close>

record tm =
  tm_min :: nat
  tm_hour :: nat
  tm_mday :: nat
  tm_mon :: nat
  tm_year :: int
  tm_wday :: nat

text \<open>The ranges of \<open>struct tm\<close>, with a year that \<open>int\<close> can hold.\<close>

definition tm_ok :: "tm \<Rightarrow> bool" where
  "tm_ok t \<longleftrightarrow> tm_min t \<le> 59 \<and> tm_hour t \<le> 23 \<and> 1 \<le> tm_mday t \<and> tm_mday t \<le> 31 \<and> tm_mon t \<le> 11 \<and>
     INT_MIN \<le> tm_year t \<and> tm_year t \<le> INT_MAX \<and> tm_wday t \<le> 6"

definition month_names :: "string list" where
  "month_names = [''Jan'', ''Feb'', ''Mar'', ''Apr'', ''May'', ''Jun'', ''Jul'', ''Aug'', ''Sep'', ''Oct'', ''Nov'', ''Dec'']"

definition day_names :: "string list" where
  "day_names = [''Sun'', ''Mon'', ''Tue'', ''Wed'', ''Thu'', ''Fri'', ''Sat'']"

text \<open>Two places, filled with \<open>c\<close>.\<close>

definition two_places :: "char \<Rightarrow> nat \<Rightarrow> string" where
  "two_places c n = (if n < 10 then [c, digit n] else [digit (n div 10), digit (n mod 10)])"

definition hour12 :: "nat \<Rightarrow> nat" where
  "hour12 h = (if h mod 12 = 0 then 12 else h mod 12)"

definition strftime_field :: "tm \<Rightarrow> char \<Rightarrow> string res" where
  "strftime_field t d =
     (if d = CHR ''b'' then load month_names (tm_mon t)
      else if d = CHR ''d'' then Inr (two_places CHR ''0'' (tm_mday t))
      else if d = CHR ''a'' then load day_names (tm_wday t)
      else if d = CHR ''Y'' then Inr (dec_int (tm_year t + 1900))
      else if d = CHR ''l'' then Inr (two_places CHR '' '' (hour12 (tm_hour t)))
      else if d = CHR ''M'' then Inr (two_places CHR ''0'' (tm_min t))
      else if d = CHR ''p'' then Inr (if tm_hour t < 12 then ''AM'' else ''PM'')
      else Inl Uninitialised)"

fun strftime_text :: "tm \<Rightarrow> string \<Rightarrow> string res" where
  "strftime_text t [] = Inr []"
| "strftime_text t (c # f) =
     (if c \<noteq> CHR ''%'' then bindE (strftime_text t f) (\<lambda>s. Inr (c # s))
      else case f of
        [] \<Rightarrow> Inl Uninitialised
      | d # g \<Rightarrow> bindE (strftime_field t d) (\<lambda>x. bindE (strftime_text t g) (\<lambda>s. Inr (x @ s))))"

text \<open>A text that does not fit leaves the buffer without a value.\<close>

definition strftime :: "nat \<Rightarrow> string \<Rightarrow> tm \<Rightarrow> string res" where
  "strftime most fmt t = bindE (strftime_text t fmt) (\<lambda>s. if length s < most then Inr s else Inl Uninitialised)"

text \<open>\<open>localtime\<close> answers a null pointer for a time whose year no \<open>int\<close> holds.\<close>

definition mydate :: "tm option \<Rightarrow> string res" where
  "mydate info =
     (case info of
        None \<Rightarrow> Inl NullDeref
      | Some t \<Rightarrow> bindE (strftime 100 ''%b %d(%a), %Y %l:%M %p'' t) (\<lambda>buf. Inr (buf @ [NL])))"

section \<open>hostinfo and printdir\<close>

text \<open>
  \<open>uname\<close> fails with an \<open>errno\<close> or tells the name of the host; \<open>hostid\<close> is what the command of that name
  prints.  The result: the standard output, the error output and the exit status.  \<open>system\<close> does not
  flush the program's buffer, which is written at once on a terminal and at the end otherwise.
\<close>

definition hostinfo :: "(int \<Rightarrow> string) \<Rightarrow> bool \<Rightarrow> int + string \<Rightarrow> string \<Rightarrow> string \<times> string \<times> int" where
  "hostinfo strerror tty uname hostid =
     (case uname of
        Inl e \<Rightarrow> ([], ''uname error'' @ NL # '': '' @ strerror e @ [NL], 1)
      | Inr nodename \<Rightarrow>
          (let line = ''hostname: '' @ nodename @ [NL] in
           (if tty then line @ hostid else hostid @ line, [], 0)))"

definition printdir :: "string option \<Rightarrow> string res" where
  "printdir getcwd = (case getcwd of None \<Rightarrow> Inl NullDeref | Some dir \<Rightarrow> Inr (dir @ [NL]))"


section \<open>The line of mydate\<close>

text \<open>The date and the time of day as the line shows them, around the year.\<close>

definition date_part :: "tm \<Rightarrow> string" where
  "date_part t = month_names ! tm_mon t @ '' '' @ two_places CHR ''0'' (tm_mday t) @ ''('' @ day_names ! tm_wday t @ ''), ''"

definition time_part :: "tm \<Rightarrow> string" where
  "time_part t = two_places CHR '' '' (hour12 (tm_hour t)) @ '':'' @ two_places CHR ''0'' (tm_min t) @
     (if tm_hour t < 12 then '' AM'' else '' PM'')"

definition date_line :: "tm \<Rightarrow> string" where
  "date_line t = date_part t @ dec_int (tm_year t + 1900) @ '' '' @ time_part t"

lemma length_two_places [simp]: "length (two_places c n) = 2"
  by (simp add: two_places_def)

lemma length_names [simp]: "length month_names = 12" "length day_names = 7"
  by (simp_all add: month_names_def day_names_def)

lemma length_month: "n \<le> 11 \<Longrightarrow> length (month_names ! n) = 3"
proof -
  have "\<forall>s \<in> set month_names. length s = 3" by (simp add: month_names_def)
  then show "n \<le> 11 \<Longrightarrow> length (month_names ! n) = 3" by simp
qed

lemma length_day: "n \<le> 6 \<Longrightarrow> length (day_names ! n) = 3"
proof -
  have "\<forall>s \<in> set day_names. length s = 3" by (simp add: day_names_def)
  then show "n \<le> 6 \<Longrightarrow> length (day_names ! n) = 3" by simp
qed

lemma strftime_line:
  assumes "tm_ok t"
  shows "strftime_text t ''%b %d(%a), %Y %l:%M %p'' = Inr (date_line t)"
  using assms
  apply (simp add: tm_ok_def strftime_field_def load_def)
  apply (simp add: date_line_def date_part_def)
  apply (simp add: time_part_def)
  done

declare strftime_text.simps [simp del]

lemma length_date_part: "tm_ok t \<Longrightarrow> length (date_part t) = 13"
  by (simp add: tm_ok_def date_part_def length_month length_day)

lemma length_time_part: "length (time_part t) = 8"
  by (simp add: time_part_def)

lemma length_year:
  assumes "tm_ok t"
  shows "length (dec_int (tm_year t + 1900)) \<le> 11"
proof -
  have "nat (tm_year t + 1900) < 10 ^ 10" "nat (- (tm_year t + 1900)) < 10 ^ 10"
    using assms unfolding nat_less_numeral_power_cancel_iff by (simp_all add: tm_ok_def INT_MAX_def INT_MIN_def)
  then have "length (dec_nat (nat (tm_year t + 1900))) \<le> 10" "length (dec_nat (nat (- (tm_year t + 1900)))) \<le> 10"
    by (auto intro: length_dec_nat_le)
  then show ?thesis by (simp add: dec_int_def)
qed

lemma mydate_line:
  assumes "tm_ok t"
  shows "mydate (Some t) = Inr (date_line t @ [NL])"
proof -
  have "length (date_line t) \<le> 33"
    using length_year [OF assms] by (simp add: date_line_def length_date_part [OF assms] length_time_part)
  then show ?thesis by (simp add: mydate_def strftime_def strftime_line [OF assms])
qed

text \<open>
  mydate prints its line for every time: month, day, day of the week, year and the time of day on a
  clock of twelve hours, in at most 34 of the 100 bytes of its buffer.
\<close>

theorem mydate_prints:
  assumes "tm_ok t"
  shows "mydate (Some t) = Inr (date_line t @ [NL]) \<and> length (date_line t @ [NL]) \<le> 34"
  using length_year [OF assms]
  by (simp add: mydate_line [OF assms]) (simp add: date_line_def length_date_part [OF assms] length_time_part)

theorem mydate_prints_witness:
  "mydate (Some \<lparr>tm_min = 5, tm_hour = 13, tm_mday = 7, tm_mon = 11, tm_year = 121, tm_wday = 2\<rparr>) =
   Inr (''Dec 07(Tue), 2021  1:05 PM'' @ [NL])"
proof -
  let ?t = "\<lparr>tm_min = 5, tm_hour = 13, tm_mday = 7, tm_mon = 11, tm_year = 121, tm_wday = 2\<rparr> :: tm"
  have "date_line ?t = ''Dec 07(Tue), 2021  1:05 PM''" by code_simp
  then show ?thesis using mydate_prints [of ?t] by (simp add: tm_ok_def INT_MIN_def INT_MAX_def)
qed

section \<open>Reading the line back\<close>

lemma of_char_blank: "(of_char CHR '' '' :: nat) = 32"
  by code_simp

lemma digit_inj: "m < 10 \<Longrightarrow> n < 10 \<Longrightarrow> digit m = digit n \<longleftrightarrow> m = n"
  by (metis dval_digit)

lemma digit_blank: "n < 10 \<Longrightarrow> digit n \<noteq> CHR '' ''" "n < 10 \<Longrightarrow> CHR '' '' \<noteq> digit n"
proof -
  assume "n < 10"
  then have "(of_char (digit n) :: nat) \<noteq> of_char CHR '' ''" by (simp only: of_char_digit of_char_blank)
  then show "digit n \<noteq> CHR '' ''" "CHR '' '' \<noteq> digit n" by metis+
qed

lemma digit_zero: "CHR ''0'' = digit 0"
  by code_simp

lemma two_places_inj:
  "m < 100 \<Longrightarrow> n < 100 \<Longrightarrow> two_places CHR ''0'' m = two_places CHR ''0'' n \<longleftrightarrow> m = n"
  by (auto simp: two_places_def digit_zero digit_inj split: if_splits) (metis div_mult_mod_eq)

lemma two_places_blank_inj:
  "m < 100 \<Longrightarrow> n < 100 \<Longrightarrow> two_places CHR '' '' m = two_places CHR '' '' n \<longleftrightarrow> m = n"
  by (auto simp: two_places_def digit_inj digit_blank split: if_splits) (metis div_mult_mod_eq)

lemma month_inj: "m \<le> 11 \<Longrightarrow> n \<le> 11 \<Longrightarrow> month_names ! m = month_names ! n \<longleftrightarrow> m = n"
proof -
  have "distinct month_names" by (simp add: month_names_def)
  then show "m \<le> 11 \<Longrightarrow> n \<le> 11 \<Longrightarrow> month_names ! m = month_names ! n \<longleftrightarrow> m = n" by (simp add: nth_eq_iff_index_eq)
qed

lemma day_inj: "m \<le> 6 \<Longrightarrow> n \<le> 6 \<Longrightarrow> day_names ! m = day_names ! n \<longleftrightarrow> m = n"
proof -
  have "distinct day_names" by (simp add: day_names_def)
  then show "m \<le> 6 \<Longrightarrow> n \<le> 6 \<Longrightarrow> day_names ! m = day_names ! n \<longleftrightarrow> m = n" by (simp add: nth_eq_iff_index_eq)
qed

lemma no_blank_dec_int: "CHR '' '' \<notin> set (dec_int i)"
proof -
  have "CHR '' '' \<notin> set (dec_nat n)" for n
    using decimal_dec_nat [of n] digit_blank(2) unfolding decimal_def by blast
  then show ?thesis by (simp add: dec_int_def)
qed

lemma split_blank:
  "b \<notin> set u \<Longrightarrow> b \<notin> set v \<Longrightarrow> u @ b # x = v @ b # y \<Longrightarrow> u = v \<and> x = y"
  by (induction u arbitrary: v) (auto simp: Cons_eq_append_conv append_eq_Cons_conv)

lemma hour_inj:
  assumes "h \<le> 23" and "k \<le> 23" and "hour12 h = hour12 k" and "h < 12 \<longleftrightarrow> k < 12"
  shows "h = k"
proof -
  have m: "x mod 12 = (if x < 12 then x else x - 12)" if "x \<le> 23" for x :: nat
    using that by (simp add: le_mod_geq)
  show ?thesis
    using assms(3,4) unfolding hour12_def m [OF assms(1)] m [OF assms(2)] using assms(1,2)
    by (cases "h < 12") (simp_all split: if_splits)
qed

text \<open>
  The line tells the time: two times that print the same line agree in minute, hour, day, month, year and
  day of the week.
\<close>

theorem mydate_tells:
  assumes "tm_ok s" and "tm_ok t" and "mydate (Some s) = mydate (Some t)"
  shows "s = t"
proof -
  have e: "date_line s = date_line t"
    using assms(3) by (simp add: mydate_line assms(1,2))
  then have d: "date_part s = date_part t" and
    r: "dec_int (tm_year s + 1900) @ CHR '' '' # time_part s = dec_int (tm_year t + 1900) @ CHR '' '' # time_part t"
    by (simp_all add: date_line_def append_eq_append_conv length_date_part assms(1,2))
  have y: "dec_int (tm_year s + 1900) = dec_int (tm_year t + 1900)" and p: "time_part s = time_part t"
    using r split_blank [OF no_blank_dec_int no_blank_dec_int] by blast+
  have b: "tm_mday s < 100" "tm_mday t < 100" "tm_min s < 100" "tm_min t < 100"
    "hour12 (tm_hour s) < 100" "hour12 (tm_hour t) < 100" "tm_mon s \<le> 11" "tm_mon t \<le> 11" "tm_wday s \<le> 6" "tm_wday t \<le> 6"
    using assms(1,2) by (auto simp: tm_ok_def hour12_def)
  from d have "tm_mon s = tm_mon t" "tm_mday s = tm_mday t" "tm_wday s = tm_wday t"
    using b by (auto simp: date_part_def append_eq_append_conv length_month length_day month_inj day_inj two_places_inj)
  moreover from p have "tm_min s = tm_min t" "hour12 (tm_hour s) = hour12 (tm_hour t)" "tm_hour s < 12 \<longleftrightarrow> tm_hour t < 12"
    using b by (auto simp: time_part_def append_eq_append_conv two_places_inj two_places_blank_inj split: if_splits)
  moreover have "tm_year s = tm_year t" using y by (simp add: dec_int_inj)
  ultimately show ?thesis
    using hour_inj [of "tm_hour s" "tm_hour t"] assms(1,2) by (simp add: tm_ok_def)
qed

end
