(* ===== verification/Spec2Isabelle.thy ===== *)
theory Spec2Isabelle
  imports ShellMain PipeRun DictServer SeqMain SeqRace ShmMain MsgFile FileCopy RingEnd SigSpeed SystemV FileNotify
    ProcTree TwoWayPipe Popen Driver HostInfo
begin

text \<open>
  A verification library for the C programs of the Network and System Programming course: small
  shells, a dictionary that is looked up in files, in memory and over sockets, services over FIFOs and
  message queues, transfers through shared memory, and file copies.  Every program is translated by
  hand, function by function; the names are those of the source where HOL allows it.

  \<^bold>\<open>How code is modelled.\<close>
  A C expression without a defined result is a value: \<open>res = c_error + 'a\<close> of \<open>Prelude\<close>, where every
  load, store and string read is checked against its array, and reading memory nobody has set is
  \<open>Uninitialised\<close>.  The one exception are the stores of the shell past the end of a block from \<open>malloc\<close>
  (\<open>malloc_strcpy\<close> of \<open>ShellParse\<close>, \<open>put_slot\<close> of \<open>ShellExec\<close>): they go through, as they do in practice, without
  an effect on other blocks, and are recorded (\<open>overrun\<close>, \<open>spills\<close>; theorems \<open>parse4_overrun\<close> and
  \<open>right_argv_spill\<close>).  Where a program only looks at such memory and goes on, what it happens to hold is an
  argument that theorems leave open (\<open>junk\<close> of \<open>ShellExec\<close>, the records of clients and servers in
  \<open>DictNet\<close>).  Records stand for structures and for the state of a process, datatypes for tags and
  results.  System calls that can fail are arguments, either a record of which of them succeed
  (\<open>os4\<close>, \<open>conn_env\<close>, \<open>su_calls\<close>, \<open>mq_calls\<close>, \<open>copy_calls\<close>) or the events a loop gets
  (\<open>sv_event\<close>, \<open>accept_event\<close>, \<open>tee_round\<close>).  Processes that share memory are inductive step relations
  with a program counter for every process.  Integers keep their width where the code depends on it:
  \<open>32 word\<close> for sequence numbers, flags and byte counters, \<open>to_int32\<close> where a longer value goes
  through an \<open>int\<close>.

  \<^bold>\<open>The theories.\<close>
  \<^item> \<open>Prelude\<close>, \<open>CLib\<close>: the error monad, arrays and buffers, and what the programs use of the C library
    (\<open>strcpy\<close>, \<open>strcmp\<close>, \<open>strtok\<close>, \<open>strtol\<close>, \<open>atoi\<close>, \<open>getline\<close>, \<open>fgets\<close>, \<open>fread\<close>).
  \<^item> \<open>ShellParse\<close>, \<open>ShellExec\<close>, \<open>PipeRun\<close>, \<open>ShellMain\<close>: the shells \<open>src/SP_HW4/part2\<close> and \<open>src/SP_HW2\<close>:
    \<open>parse.c\<close>, \<open>is_background.c\<close>, \<open>pipe_present.c\<close>, \<open>redirect_in.c\<close>, \<open>redirect_out.c\<close>; then
    \<open>pipe_command.c\<close> and \<open>run_command.c\<close>, where a child is the list of the system calls it makes; then
    \<open>builtin.c\<close> and \<open>shell.c\<close>.  Shown: tokens and round trip of the parser, agreement of its two
    versions, a pipeline of any length set up as specified for every content of the memory from \<open>malloc\<close>,
    what its calls compute over pipes of bounded capacity (\<open>run_acts\<close>) and when they wait for ever, what
    happens when the last command is missing, redirections, background commands, the session of the main loop.
  \<^item> \<open>DictRecord\<close>, \<open>DictSearch\<close>, \<open>DictMain\<close>, \<open>DictNet\<close>, \<open>DictServer\<close>: the dictionary of
    \<open>src/SP_HW4/part3\<close> (\<open>convert.c\<close>, \<open>lookup1.c\<close>, \<open>main.c\<close>) and \<open>src/SP_HW11\<close> (\<open>lookup5.c\<close> with the
    library's \<open>bsearch\<close>, \<open>lookup7.c\<close>, \<open>lookup8.c\<close>, \<open>lookup9.c\<close>, the three servers and the main
    program).  Shown: what \<open>convert\<close> writes and that \<open>lookup1\<close> finds it; that binary search finds
    exactly the words of a sorted file; sessions of the question loop over any lookup that keeps the
    contract \<open>lookup_service\<close> or \<open>cleared_lookup\<close>; that client and server together implement the map
    of the server's file (\<open>reply_service\<close>, \<open>connected\<close>) from the second word on, and what the first exchange
    makes of the memory that neither side has set; that every connection is served.
  \<^item> \<open>GetNum\<close>, \<open>ErrorFunctions\<close>: the TLPI helpers \<open>get_num.c\<close> and \<open>error_functions.c\<close>, of which the
    repository holds five identical copies; the frame \<open>or_exit\<close> of the programs that use them.
  \<^item> \<open>SeqServer\<close>, \<open>SeqMain\<close>, \<open>SeqRace\<close>: the sequence-number services \<open>src/SP_HW8/44-6\<close> and \<open>44-7\<close> over FIFOs.  Shown: ranges
    never overlap (\<open>number_service\<close>, for both servers), they tile, what each client prints, what the
    missing \<open>continue\<close> of the second server loses, that the servers start alike; and, with the clients running beside the
    server, that every run can come to rest after a bounded number of effective steps and which clients have a
    number then (\<open>race_run\<close>).
  \<^item> \<open>MsgFile\<close>: the file server over message queues \<open>src/SP_HW9/52\<close>, at the level of bytes.  Shown: the
    totals a client prints, and what the sizes kept from System V queues lose.
  \<^item> \<open>ShmTransfer\<close>, \<open>ShmMain\<close>: the shared-memory transfer \<open>src/SP_HW9/54\<close> with its binary semaphores, its
    set-up and its clean-up.  Shown: mutual exclusion and the prefix invariant whatever calls fail,
    completion, termination, and that nothing is removed before the reader has all of the input.
  \<^item> \<open>SingleFloat\<close>, \<open>RingBuffer\<close>, \<open>RingMain\<close>, \<open>RingFail\<close>, \<open>RingLive\<close>, \<open>RingEnd\<close>: producer and consumers of \<open>src/SP_HW10\<close>, with and without a lock,
    and with the failures of their calls.  Shown: whole messages under the lock, the bounds of the loss
    rate in single precision and where the rounding leaves them, refinement of one program by the other, how a merged signal blocks a consumer and with it the
    report of the producer, that there is no other deadlock, that failures add no behaviour, how the first
    consumer that ends shuts out a late one, and that the report is final, and defined unless it overflows.
  \<^item> \<open>SigPing\<close>, \<open>SigSpeed\<close>: parent and child of \<open>src/SP_HW7/SP_HW7-1\<close> that send each other signals.  Shown: the
    processes run in lockstep (\<open>clocked\<close>), every exchange ends and no signal is lost; the two programs, which
    wait with \<open>sigsuspend\<close> and \<open>sigwaitinfo\<close>, agree until signals of other processes come, which the first one
    withstands but for \<open>SIGUSR1\<close> itself.
  \<^item> \<open>SystemV\<close>: the System V signal calls of \<open>src/SP_HW7/SP_HW7-2\<close> written with the POSIX calls
    (\<open>signal_holder\<close>).  Shown: which signals each call blocks and releases.
  \<^item> \<open>FileNotify\<close>: the inotify watcher of \<open>src/SP_HW6\<close>.  Shown: what is printed of an event.
  \<^item> \<open>ProcList\<close>, \<open>ProcTree\<close>: the process listings of \<open>src/SP_HW3\<close> over the files of \<open>/proc\<close>.  Shown: which
    lines are printed; that the array of nodes is linked to a forest (\<open>links_well_formed\<close>), that the walk
    over its pointers ends and is the walk over the trees, and when the indentation is the depth.
  \<^item> \<open>TwoWayPipe\<close>, \<open>Popen\<close>: the two-way pipe and \<open>my_popen\<close>/\<open>my_pclose\<close> of \<open>src/SP_HW5\<close>.  Shown: sessions, which
    process a stream waits for (\<open>stream_table\<close>), and what is never closed or never ends.
  \<^item> \<open>PipeList\<close>, \<open>HostInfo\<close>: the programs of \<open>src/SP_HW4/part1\<close>: \<open>mycat.c\<close> and \<open>pipe_ls.c\<close>; \<open>mydate.c\<close>,
    \<open>hostinfo.c\<close> and \<open>printdir.c\<close>.  Shown: what is copied; that the line of \<open>mydate\<close> fits and tells the time.
  \<^item> \<open>Driver\<close>: the device driver of \<open>src/SP_HW12\<close> and its test program.  Shown: the life of the module, and
    that a program that reads the device never meets an end.
  \<^item> \<open>FileCopy\<close>: tee and copy of \<open>src/SP_HW1\<close> and the memory-mapped copy \<open>src/SP_HW9/49\<close>.

  \<^bold>\<open>Bounds and termination.\<close>
  Loops over text terminate by the length of what is left to read.  The question loop of \<open>SP_HW4\<close>
  never ends, so \<open>main4_rounds n\<close> runs \<open>n\<close> rounds and its theorem holds for every \<open>n\<close>.  The servers run
  on a list of events.  The transfer through shared memory has at most \<open>12 * len + 11\<close> steps.  The process tree follows
  pointers on fuel; the number of nodes and of the nodes in the trees printed is enough.  Buffer
  sizes are those of the source: 32 and 480 bytes of a record, 500 of an error message, 4096 of a path,
  8192 of a response, 80 of a slot.

  \<^bold>\<open>Not modelled.\<close>
  Every program of the repository has its part; what is left out of them is: time, the order in which
  independent processes print, partial transfers over sockets, and the options and prototypes of
  header files that no program uses.  The copies of \<open>error_functions.c\<close>, \<open>get_num.c\<close> and \<open>lookup5.c\<close> in
  other directories are the same text and are modelled once.
\<close>

end
